(* ===== verification/Prelude.thy ===== *)
theory Prelude
  imports Complex_Main "HOL-Library.Word" "HOL-Library.Signed_Division"
    "HOL-Library.Monad_Syntax"
begin

text \<open>
  What the components share: the OpenCL scalar types as fixed-width words, C's signed division
  on them, array accesses that fail out of range, the counting loop
  \<^verbatim>\<open>for (i = lo; i < hi; i++)\<close> with its invariant rule, and the search
  \<^verbatim>\<open>for (i = 0; i < n; i++) if (bad(i)) return i + 1; return 0;\<close> that the
  result checkers have in common.
\<close>

unbundle bit_operations_syntax

section \<open>Scalar types\<close>

text \<open>
  A word carries no sign: \<open>uint\<close> and \<open>unat\<close> read a \<^verbatim>\<open>cl_uint\<close>,
  \<open>sint\<close> a \<^verbatim>\<open>cl_int\<close>.
\<close>

type_synonym u8 = "8 word"
type_synonym u16 = "16 word"
type_synonym u32 = "32 word"
type_synonym u64 = "64 word"

text \<open>C's \<^verbatim>\<open>/\<close> and \<^verbatim>\<open>%\<close> on signed operands truncate towards zero.\<close>

definition c_sdiv :: "'a::len word \<Rightarrow> 'a word \<Rightarrow> 'a word" where
  "c_sdiv a b = word_of_int (sint a sdiv sint b)"

definition c_srem :: "'a::len word \<Rightarrow> 'a word \<Rightarrow> 'a word" where
  "c_srem a b = word_of_int (sint a smod sint b)"

lemma c_sdiv_srem: "c_sdiv a b * b + c_srem a b = a"
proof -
  have "c_sdiv a b * b + c_srem a b
      = word_of_int (sint a sdiv sint b) * word_of_int (sint b) + word_of_int (sint a smod sint b)"
    by (simp add: c_sdiv_def c_srem_def)
  also have "\<dots> = word_of_int (sint a sdiv sint b * sint b + sint a smod sint b)"
    by (simp only: wi_hom_mult wi_hom_add)
  finally show ?thesis by (simp add: sdiv_mult_smod_eq)
qed

lemma xor_cancel [simp]:
  "(a :: 'a::len word) XOR c = b XOR c \<longleftrightarrow> a = b"
  "(c :: 'a::len word) XOR a = c XOR b \<longleftrightarrow> a = b"
  by (metis xor.assoc xor.commute xor_self_eq xor.right_neutral)+

lemma unat_bound: "unat (x :: 'a::len word) < 2 ^ LENGTH('a)"
  by (rule unsigned_less)

lemma unat_word_of_nat: "n < 2 ^ LENGTH('a) \<Longrightarrow> unat (word_of_nat n :: 'a::len word) = n"
  by (simp add: unsigned_of_nat take_bit_nat_eq_self)

lemma unat_drop: "unat (drop_bit s x) = unat x div 2 ^ s"
  by (subst unat_drop_bit_eq) (rule drop_bit_eq_div)

lemma unat_push:
  "unat (x :: 'a::len word) * 2 ^ s < 2 ^ LENGTH('a) \<Longrightarrow> unat (push_bit s x) = unat x * 2 ^ s"
  by (subst unsigned_push_bit_eq) (simp add: take_bit_eq_mod push_bit_eq_mult)

lemma bit_unat: "bit (d :: 'a::len word) j \<longleftrightarrow> odd (unat d div 2 ^ j)"
proof -
  have "bit (unat d) j = bit d j" by (simp only: bit_unsigned_iff) simp
  then show ?thesis by (simp only: bit_iff_odd [of "unat d"])
qed

section \<open>Arrays\<close>

text \<open>An access outside the array is undefined in the program: \<open>None\<close> here.\<close>

definition rd :: "'a list \<Rightarrow> nat \<Rightarrow> 'a option" where
  "rd xs i = (if i < length xs then Some (xs ! i) else None)"

definition wr :: "'a list \<Rightarrow> nat \<Rightarrow> 'a \<Rightarrow> 'a list option" where
  "wr xs i v = (if i < length xs then Some (xs[i := v]) else None)"

lemma rd_simps [simp]:
  "i < length xs \<Longrightarrow> rd xs i = Some (xs ! i)"
  "\<not> i < length xs \<Longrightarrow> rd xs i = None"
  by (simp_all add: rd_def)

lemma wr_simps [simp]:
  "i < length xs \<Longrightarrow> wr xs i v = Some (xs[i := v])"
  "\<not> i < length xs \<Longrightarrow> wr xs i v = None"
  by (simp_all add: wr_def)

lemma all_range_split:
  "j \<le> (h :: nat) \<Longrightarrow> h \<le> n \<Longrightarrow>
     (\<forall>i. j \<le> i \<and> i < n \<longrightarrow> P i) \<longleftrightarrow> (\<forall>i. j \<le> i \<and> i < h \<longrightarrow> P i) \<and> (\<forall>i. h \<le> i \<and> i < n \<longrightarrow> P i)"
  by (metis le_trans not_le order_less_le_trans)

section \<open>The counting loop\<close>

function for_loop :: "nat \<Rightarrow> nat \<Rightarrow> (nat \<Rightarrow> 's \<Rightarrow> 's option) \<Rightarrow> 's \<Rightarrow> 's option" where
  "for_loop i n body s =
     (if i < n then Option.bind (body i s) (for_loop (Suc i) n body) else Some s)"
  by pat_completeness auto
termination
  by (relation "measure (\<lambda>(i, n, _, _). n - i)") auto

declare for_loop.simps [simp del]

lemma for_loop_done [simp]: "\<not> i < n \<Longrightarrow> for_loop i n body s = Some s"
  by (subst for_loop.simps) simp

lemma for_loop_step:
  "i < n \<Longrightarrow> for_loop i n body s = Option.bind (body i s) (for_loop (Suc i) n body)"
  by (subst for_loop.simps) simp

text \<open>
  The invariant rule, total: if every iteration succeeds and keeps \<open>P\<close>, the loop
  succeeds and ends with \<open>P\<close> at the bound.
\<close>

lemma for_loop_rule:
  assumes "P i s" and "i \<le> n"
    and "\<And>k t. i \<le> k \<Longrightarrow> k < n \<Longrightarrow> P k t \<Longrightarrow> \<exists>t'. body k t = Some t' \<and> P (Suc k) t'"
  shows "\<exists>t. for_loop i n body s = Some t \<and> P n t"
  using assms
proof (induction "n - i" arbitrary: i s)
  case 0
  then show ?case by simp
next
  case (Suc d)
  then have "i < n" by simp
  with Suc.prems obtain t where t: "body i s = Some t" "P (Suc i) t"
    by (meson order_refl)
  have "\<exists>t'. for_loop (Suc i) n body t = Some t' \<and> P n t'"
    using Suc.hyps(2) Suc.prems \<open>i < n\<close> t(2) by (intro Suc.hyps(1)) auto
  with \<open>i < n\<close> t(1) show ?case by (simp add: for_loop_step)
qed

text \<open>The partial rule: what every successful iteration keeps holds if the loop succeeds.\<close>

lemma for_loop_partial:
  assumes "for_loop i n body s = Some t" and "P i s" and "i \<le> n"
    and "\<And>k u v. i \<le> k \<Longrightarrow> k < n \<Longrightarrow> P k u \<Longrightarrow> body k u = Some v \<Longrightarrow> P (Suc k) v"
  shows "P n t"
  using assms
proof (induction "n - i" arbitrary: i s)
  case 0
  then show ?case by simp
next
  case (Suc d)
  then have "i < n" by simp
  with Suc.prems(1) obtain u where u: "body i s = Some u" "for_loop (Suc i) n body u = Some t"
    by (auto simp: for_loop_step bind_eq_Some_conv)
  show ?case
  proof (rule Suc.hyps(1))
    show "P (Suc i) u" using Suc.prems(2,4) u(1) \<open>i < n\<close> by blast
  qed (use Suc u \<open>i < n\<close> in auto)
qed

section \<open>The strided loop\<close>

text \<open>
  \<^verbatim>\<open>for (; i + d <= hi && c(i); i += d) body\<close>, which continues from the \<open>i\<close> an
  earlier loop left and leaves its own to the next one.
\<close>

function loop_by ::
  "nat \<Rightarrow> (nat \<Rightarrow> bool) \<Rightarrow> nat \<Rightarrow> (nat \<Rightarrow> 's \<Rightarrow> 's option) \<Rightarrow> nat \<times> 's \<Rightarrow> (nat \<times> 's) option" where
  "loop_by d c hi body (i, s) =
     (if 0 < d \<and> i + d \<le> hi \<and> c i
      then Option.bind (body i s) (\<lambda>s'. loop_by d c hi body (i + d, s'))
      else Some (i, s))"
  by pat_completeness auto
termination
  by (relation "measure (\<lambda>(_, _, hi, _, i, _). hi - i)") auto

declare loop_by.simps [simp del]

lemma loop_by_rule:
  assumes "P i s" and "0 < d" and "i \<le> hi"
    and "\<And>k t. i \<le> k \<Longrightarrow> k + d \<le> hi \<Longrightarrow> c k \<Longrightarrow> P k t \<Longrightarrow> \<exists>t'. body k t = Some t' \<and> P (k + d) t'"
  shows "\<exists>k t. loop_by d c hi body (i, s) = Some (k, t) \<and> P k t \<and> i \<le> k \<and> k \<le> hi \<and>
           \<not> (k + d \<le> hi \<and> c k)"
  using assms
proof (induction "hi - i" arbitrary: i s rule: less_induct)
  case less
  show ?case
  proof (cases "i + d \<le> hi \<and> c i")
    case True
    with less.prems obtain t where t: "body i s = Some t" "P (i + d) t"
      by (meson order_refl)
    have "\<exists>k t'. loop_by d c hi body (i + d, t) = Some (k, t') \<and> P k t' \<and> i + d \<le> k \<and> k \<le> hi \<and>
        \<not> (k + d \<le> hi \<and> c k)"
      using less.prems True t(2) by (intro less.hyps) auto
    with True t(1) less.prems(2) show ?thesis
      by (subst loop_by.simps) auto
  next
    case False
    then have "loop_by d c hi body (i, s) = Some (i, s)"
      by (subst loop_by.simps) auto
    with False less.prems show ?thesis by auto
  qed
qed

corollary loop_by_one_rule:
  assumes "P i s" and "i \<le> hi"
    and "\<And>k t. i \<le> k \<Longrightarrow> k < hi \<Longrightarrow> P k t \<Longrightarrow> \<exists>t'. body k t = Some t' \<and> P (k + 1) t'"
  shows "\<exists>t. loop_by 1 (\<lambda>_. True) hi body (i, s) = Some (hi, t) \<and> P hi t"
proof -
  have "\<exists>t'. body k t = Some t' \<and> P (k + 1) t'" if "i \<le> k" "k + 1 \<le> hi" "P k t" for k t
    using assms(3) that by simp
  from loop_by_rule [where P = P and d = 1 and c = "\<lambda>_. True" and body = body, OF assms(1) _ assms(2) this]
  obtain k t where "loop_by 1 (\<lambda>_. True) hi body (i, s) = Some (k, t)" "P k t" "k \<le> hi" "\<not> k + 1 \<le> hi"
    by auto
  moreover from this have "k = hi" by simp
  ultimately show ?thesis by blast
qed

section \<open>Searching for the first failure\<close>

function scan :: "(nat \<Rightarrow> bool) \<Rightarrow> nat \<Rightarrow> nat \<Rightarrow> nat" where
  "scan ok i n = (if i < n then (if ok i then scan ok (Suc i) n else Suc i) else 0)"
  by pat_completeness auto
termination
  by (relation "measure (\<lambda>(_, i, n). n - i)") auto

declare scan.simps [simp del]

lemma scan_zero_iff: "scan ok i n = 0 \<longleftrightarrow> (\<forall>k. i \<le> k \<and> k < n \<longrightarrow> ok k)"
proof (induction ok i n rule: scan.induct)
  case (1 ok i n)
  show ?case
  proof (cases "i < n \<and> ok i")
    case True
    then have "scan ok i n = scan ok (Suc i) n" by (subst scan.simps) simp
    with 1 True show ?thesis
      by (auto simp: Suc_le_eq) (metis le_neq_implies_less)
  next
    case False
    then show ?thesis by (subst scan.simps) auto
  qed
qed

lemma scan_Suc_iff:
  "scan ok i n = Suc m \<longleftrightarrow>
     i \<le> m \<and> m < n \<and> \<not> ok m \<and> (\<forall>k. i \<le> k \<and> k < m \<longrightarrow> ok k)"
proof (induction ok i n rule: scan.induct)
  case (1 ok i n)
  show ?case
  proof (cases "i < n \<and> ok i")
    case True
    then have "scan ok i n = scan ok (Suc i) n" by (subst scan.simps) simp
    with 1 True show ?thesis
      by (auto simp: Suc_le_eq) (metis le_neq_implies_less)+
  next
    case False
    then show ?thesis by (subst scan.simps) (auto simp: order.order_iff_strict)
  qed
qed

lemma scan_cong: "(\<And>k. i \<le> k \<Longrightarrow> k < n \<Longrightarrow> ok k = ok' k) \<Longrightarrow> scan ok i n = scan ok' i n"
proof (induction ok i n rule: scan.induct)
  case (1 ok i n)
  then have "i < n \<Longrightarrow> ok i \<Longrightarrow> scan ok (Suc i) n = scan ok' (Suc i) n" by simp
  with "1.prems" show ?case
    by (subst (1 2) scan.simps) simp
qed

section \<open>Numbers as text\<close>

fun decimal :: "nat \<Rightarrow> string" where
  "decimal n = (if n < 10 then [char_of (48 + n)] else decimal (n div 10) @ [char_of (48 + n mod 10)])"

declare decimal.simps [simp del]

section \<open>Comparisons of small signed words\<close>

lemma sint_small: "unat (x :: u32) < 2 ^ 31 \<Longrightarrow> sint x = int (unat x)"
proof -
  assume "unat x < 2 ^ 31"
  then have small: "unat x < 2147483648" by simp
  have u: "uint x = int (unat x)" by (simp only: uint_nat)
  have "- 2147483648 \<le> uint x" "uint x < 2147483648" using small u by linarith+
  then have "signed_take_bit 31 (uint x) = uint x" by (intro signed_take_bit_int_eq_self) simp_all
  moreover have "sint x = signed_take_bit 31 (uint x)" by (simp add: sint_uint)
  ultimately show ?thesis by (simp only: u)
qed

lemma sless_small: "unat a < 2 ^ 31 \<Longrightarrow> unat b < 2 ^ 31 \<Longrightarrow> a <s (b :: u32) \<longleftrightarrow> unat a < unat b"
  by (simp only: word_sless_alt sint_small of_nat_less_iff)

lemma sle_small: "unat a < 2 ^ 31 \<Longrightarrow> unat b < 2 ^ 31 \<Longrightarrow> a \<le>s (b :: u32) \<longleftrightarrow> unat a \<le> unat b"
  by (simp only: word_sle_eq sint_small of_nat_le_iff)

end
