(* ===== verification/CRC32.thy ===== *)
theory CRC32
  imports Prelude
begin

text \<open>
  \<^verbatim>\<open>test_common/harness/crc32.cpp\<close>: the table-driven CRC-32 that names cached
  kernels and binaries. The table is the source's, entry by entry; the reference is the
  bit-serial division by the reflected polynomial \<^verbatim>\<open>0xedb88320\<close> that the file's
  comment names.
\<close>

section \<open>The code\<close>

definition crc32_tab :: "u32 list" where
  "crc32_tab = [
   0x00000000, 0x77073096, 0xee0e612c, 0x990951ba, 0x076dc419, 0x706af48f,
   0xe963a535, 0x9e6495a3, 0x0edb8832, 0x79dcb8a4, 0xe0d5e91e, 0x97d2d988,
   0x09b64c2b, 0x7eb17cbd, 0xe7b82d07, 0x90bf1d91, 0x1db71064, 0x6ab020f2,
   0xf3b97148, 0x84be41de, 0x1adad47d, 0x6ddde4eb, 0xf4d4b551, 0x83d385c7,
   0x136c9856, 0x646ba8c0, 0xfd62f97a, 0x8a65c9ec, 0x14015c4f, 0x63066cd9,
   0xfa0f3d63, 0x8d080df5, 0x3b6e20c8, 0x4c69105e, 0xd56041e4, 0xa2677172,
   0x3c03e4d1, 0x4b04d447, 0xd20d85fd, 0xa50ab56b, 0x35b5a8fa, 0x42b2986c,
   0xdbbbc9d6, 0xacbcf940, 0x32d86ce3, 0x45df5c75, 0xdcd60dcf, 0xabd13d59,
   0x26d930ac, 0x51de003a, 0xc8d75180, 0xbfd06116, 0x21b4f4b5, 0x56b3c423,
   0xcfba9599, 0xb8bda50f, 0x2802b89e, 0x5f058808, 0xc60cd9b2, 0xb10be924,
   0x2f6f7c87, 0x58684c11, 0xc1611dab, 0xb6662d3d, 0x76dc4190, 0x01db7106,
   0x98d220bc, 0xefd5102a, 0x71b18589, 0x06b6b51f, 0x9fbfe4a5, 0xe8b8d433,
   0x7807c9a2, 0x0f00f934, 0x9609a88e, 0xe10e9818, 0x7f6a0dbb, 0x086d3d2d,
   0x91646c97, 0xe6635c01, 0x6b6b51f4, 0x1c6c6162, 0x856530d8, 0xf262004e,
   0x6c0695ed, 0x1b01a57b, 0x8208f4c1, 0xf50fc457, 0x65b0d9c6, 0x12b7e950,
   0x8bbeb8ea, 0xfcb9887c, 0x62dd1ddf, 0x15da2d49, 0x8cd37cf3, 0xfbd44c65,
   0x4db26158, 0x3ab551ce, 0xa3bc0074, 0xd4bb30e2, 0x4adfa541, 0x3dd895d7,
   0xa4d1c46d, 0xd3d6f4fb, 0x4369e96a, 0x346ed9fc, 0xad678846, 0xda60b8d0,
   0x44042d73, 0x33031de5, 0xaa0a4c5f, 0xdd0d7cc9, 0x5005713c, 0x270241aa,
   0xbe0b1010, 0xc90c2086, 0x5768b525, 0x206f85b3, 0xb966d409, 0xce61e49f,
   0x5edef90e, 0x29d9c998, 0xb0d09822, 0xc7d7a8b4, 0x59b33d17, 0x2eb40d81,
   0xb7bd5c3b, 0xc0ba6cad, 0xedb88320, 0x9abfb3b6, 0x03b6e20c, 0x74b1d29a,
   0xead54739, 0x9dd277af, 0x04db2615, 0x73dc1683, 0xe3630b12, 0x94643b84,
   0x0d6d6a3e, 0x7a6a5aa8, 0xe40ecf0b, 0x9309ff9d, 0x0a00ae27, 0x7d079eb1,
   0xf00f9344, 0x8708a3d2, 0x1e01f268, 0x6906c2fe, 0xf762575d, 0x806567cb,
   0x196c3671, 0x6e6b06e7, 0xfed41b76, 0x89d32be0, 0x10da7a5a, 0x67dd4acc,
   0xf9b9df6f, 0x8ebeeff9, 0x17b7be43, 0x60b08ed5, 0xd6d6a3e8, 0xa1d1937e,
   0x38d8c2c4, 0x4fdff252, 0xd1bb67f1, 0xa6bc5767, 0x3fb506dd, 0x48b2364b,
   0xd80d2bda, 0xaf0a1b4c, 0x36034af6, 0x41047a60, 0xdf60efc3, 0xa867df55,
   0x316e8eef, 0x4669be79, 0xcb61b38c, 0xbc66831a, 0x256fd2a0, 0x5268e236,
   0xcc0c7795, 0xbb0b4703, 0x220216b9, 0x5505262f, 0xc5ba3bbe, 0xb2bd0b28,
   0x2bb45a92, 0x5cb36a04, 0xc2d7ffa7, 0xb5d0cf31, 0x2cd99e8b, 0x5bdeae1d,
   0x9b64c2b0, 0xec63f226, 0x756aa39c, 0x026d930a, 0x9c0906a9, 0xeb0e363f,
   0x72076785, 0x05005713, 0x95bf4a82, 0xe2b87a14, 0x7bb12bae, 0x0cb61b38,
   0x92d28e9b, 0xe5d5be0d, 0x7cdcefb7, 0x0bdbdf21, 0x86d3d2d4, 0xf1d4e242,
   0x68ddb3f8, 0x1fda836e, 0x81be16cd, 0xf6b9265b, 0x6fb077e1, 0x18b74777,
   0x88085ae6, 0xff0f6a70, 0x66063bca, 0x11010b5c, 0x8f659eff, 0xf862ae69,
   0x616bffd3, 0x166ccf45, 0xa00ae278, 0xd70dd2ee, 0x4e048354, 0x3903b3c2,
   0xa7672661, 0xd06016f7, 0x4969474d, 0x3e6e77db, 0xaed16a4a, 0xd9d65adc,
   0x40df0b66, 0x37d83bf0, 0xa9bcae53, 0xdebb9ec5, 0x47b2cf7f, 0x30b5ffe9,
   0xbdbdf21c, 0xcabac28a, 0x53b39330, 0x24b4a3a6, 0xbad03605, 0xcdd70693,
   0x54de5729, 0x23d967bf, 0xb3667a2e, 0xc4614ab8, 0x5d681b02, 0x2a6f2b94,
   0xb40bbe37, 0xc30c8ea1, 0x5a05df1b, 0x2d02ef8d]"

text \<open>
  One round of the loop: \<^verbatim>\<open>crc = crc32_tab[(crc ^ *p++) & 0xFF] ^ (crc >> 8)\<close>.
  The index is masked, so the table access is never out of range (\<open>crc32_index_in_range\<close>).
\<close>

definition crc32_step :: "u32 \<Rightarrow> u8 \<Rightarrow> u32" where
  "crc32_step crc b =
     (crc32_tab ! unat ((crc XOR ucast b) AND 0xFF)) XOR drop_bit 8 crc"

fun crc32_loop :: "u32 \<Rightarrow> u8 list \<Rightarrow> u32" where
  "crc32_loop crc [] = crc"
| "crc32_loop crc (b # bs) = crc32_loop (crc32_step crc b) bs"

definition crc32 :: "u8 list \<Rightarrow> u32" where
  "crc32 buf = crc32_loop (NOT 0) buf XOR NOT 0"

section \<open>The reference: division bit by bit\<close>

definition crc_bit :: "u32 \<Rightarrow> u32" where
  "crc_bit c = (if bit c 0 then drop_bit 1 c XOR 0xedb88320 else drop_bit 1 c)"

definition crc_byte :: "u32 \<Rightarrow> u32" where
  "crc_byte c = (crc_bit ^^ 8) c"

fun crc_ref_loop :: "u32 \<Rightarrow> u8 list \<Rightarrow> u32" where
  "crc_ref_loop c [] = c"
| "crc_ref_loop c (b # bs) = crc_ref_loop (crc_byte (c XOR ucast b)) bs"


section \<open>The table holds one byte of division per entry\<close>

lemma crc_byte_unfold:
  "crc_byte c = crc_bit (crc_bit (crc_bit (crc_bit (crc_bit (crc_bit (crc_bit (crc_bit c)))))))"
  by (simp add: crc_byte_def eval_nat_numeral)

lemma crc32_tab_quarter0: "take 64 crc32_tab = map crc_byte (map word_of_nat [0..<64])"
  by (simp add: crc_byte_unfold crc_bit_def crc32_tab_def upt_conv_Cons upt_rec_numeral)

lemma crc32_tab_quarter1:
  "take 64 (drop 64 crc32_tab) = map crc_byte (map word_of_nat [64..<128])"
  by (simp add: crc_byte_unfold crc_bit_def crc32_tab_def upt_conv_Cons upt_rec_numeral)

lemma crc32_tab_quarter2:
  "take 64 (drop 128 crc32_tab) = map crc_byte (map word_of_nat [128..<192])"
  by (simp add: crc_byte_unfold crc_bit_def crc32_tab_def upt_conv_Cons upt_rec_numeral)

lemma crc32_tab_quarter3:
  "drop 192 crc32_tab = map crc_byte (map word_of_nat [192..<256])"
  by (simp add: crc_byte_unfold crc_bit_def crc32_tab_def upt_conv_Cons upt_rec_numeral)

lemma crc32_tab_eq: "crc32_tab = map crc_byte (map word_of_nat [0..<256])"
proof -
  have "crc32_tab = take 64 crc32_tab @ take 64 (drop 64 crc32_tab)
      @ take 64 (drop 128 crc32_tab) @ drop 192 crc32_tab"
  proof -
    have "drop 128 crc32_tab = drop 64 (drop 64 crc32_tab)"
      and "drop 192 crc32_tab = drop 64 (drop 128 crc32_tab)" by simp_all
    then show ?thesis by (metis append_take_drop_id)
  qed
  also have "\<dots> = map crc_byte (map word_of_nat ([0..<64] @ [64..<128] @ [128..<192] @ [192..<256]))"
    by (simp only: crc32_tab_quarter0 crc32_tab_quarter1 crc32_tab_quarter2 crc32_tab_quarter3 map_append)
  also have "[0..<64] @ [64..<128] @ [128..<192] @ [192..<256] = [0..<256]"
    by (simp add: upt_conv_Cons upt_rec_numeral)
  finally show ?thesis .
qed

section \<open>Linearity and injectivity of the division\<close>

lemma crc_bit_xor: "crc_bit (a XOR b) = crc_bit a XOR crc_bit b"
  by (auto simp: crc_bit_def bit_xor_iff ac_simps simp del: xor.commute intro!: bit_word_eqI
      simp: bit_simps)

lemma crc_iter_xor: "(crc_bit ^^ n) (a XOR b) = (crc_bit ^^ n) a XOR (crc_bit ^^ n) b"
  by (induction n) (simp_all add: crc_bit_xor)

lemma crc_iter_shift:
  "(\<And>k. k < n \<Longrightarrow> \<not> bit c k) \<Longrightarrow> (crc_bit ^^ n) c = drop_bit n c"
proof (induction n)
  case 0
  then show ?case by simp
next
  case (Suc n)
  then have "(crc_bit ^^ Suc n) c = crc_bit (drop_bit n c)" by simp
  also have "\<dots> = drop_bit 1 (drop_bit n c)"
    using Suc.prems [of n] by (simp add: crc_bit_def bit_drop_bit_eq)
  finally show ?case by simp
qed

lemma mask_8: "(0xFF :: u32) = mask 8"
  by (simp add: mask_eq_exp_minus_1)

lemma split_low_byte: "(x :: u32) = (x AND 0xFF) XOR push_bit 8 (drop_bit 8 x)"
  unfolding mask_8 by (rule bit_word_eqI) (auto simp: bit_simps dest: bit_imp_le_length)

lemma crc_byte_split: "crc_byte x = crc_byte (x AND 0xFF) XOR drop_bit 8 x"
proof -
  have "crc_byte x = crc_byte ((x AND 0xFF) XOR push_bit 8 (drop_bit 8 x))"
    using split_low_byte by (rule arg_cong)
  also have "\<dots> = crc_byte (x AND 0xFF) XOR crc_byte (push_bit 8 (drop_bit 8 x))"
    by (simp only: crc_byte_def crc_iter_xor)
  also have "crc_byte (push_bit 8 (drop_bit 8 x)) = drop_bit 8 (push_bit 8 (drop_bit 8 x))"
    unfolding crc_byte_def by (rule crc_iter_shift) (simp add: bit_push_bit_iff)
  also have "\<dots> = drop_bit 8 x"
  proof (rule bit_word_eqI)
    fix n assume "n < LENGTH(32)"
    then show "bit (drop_bit 8 (push_bit 8 (drop_bit 8 x))) n = bit (drop_bit 8 x) n"
      using bit_imp_le_length [of x "8 + n"] by (auto simp: bit_simps)
  qed
  finally show ?thesis .
qed

lemma crc_bit_inj: "inj crc_bit"
proof (rule injI)
  fix a b assume eq: "crc_bit a = crc_bit b"
  have top: "bit (crc_bit c) 31 \<longleftrightarrow> bit c 0" for c
    using bit_imp_le_length [of c 32] by (auto simp: crc_bit_def bit_simps)
  from eq have b0: "bit a 0 = bit b 0" by (metis top)
  with eq have "drop_bit 1 a = drop_bit 1 b"
    by (simp add: crc_bit_def split: if_splits)
  with b0 show "a = b"
    by (metis bit_eq_rec drop_bit_Suc drop_bit_0 One_nat_def bit_0 id_apply)
qed

lemma crc_iter_inj: "inj (crc_bit ^^ n)"
  by (simp add: crc_bit_inj inj_fn)

section \<open>The loop computes the division\<close>

lemma crc32_tab_nth: "i < 256 \<Longrightarrow> crc32_tab ! i = crc_byte (word_of_nat i)"
  by (simp add: crc32_tab_eq)

lemma crc32_index_in_range: "unat ((crc XOR ucast b) AND (0xFF :: u32)) < 256"
proof -
  have "unat ((crc XOR ucast b) AND (mask 8 :: u32)) < 2 ^ 8"
    by (simp only: take_bit_eq_mask [symmetric] unsigned_take_bit_eq take_bit_nat_less_exp)
  then show ?thesis by (simp add: mask_8)
qed

lemma crc32_tab_length: "length crc32_tab = 256"
  by (simp add: crc32_tab_eq)

lemma drop_bit_ucast_byte: "drop_bit 8 (ucast (b :: u8) :: u32) = 0"
  by (rule bit_word_eqI) (auto simp: bit_simps dest: bit_imp_le_length)

lemma crc32_step_ref: "crc32_step crc b = crc_byte (crc XOR ucast b)"
proof -
  let ?x = "crc XOR ucast b"
  have "crc32_tab ! unat (?x AND 0xFF) = crc_byte (?x AND 0xFF)"
    using crc32_index_in_range [of crc b] by (simp add: crc32_tab_nth)
  moreover have "drop_bit 8 ?x = drop_bit 8 crc"
    by (simp add: drop_bit_xor drop_bit_ucast_byte)
  ultimately show ?thesis
    using crc_byte_split [of ?x] by (simp add: crc32_step_def)
qed

lemma crc32_loop_ref: "crc32_loop crc bs = crc_ref_loop crc bs"
  by (induction bs arbitrary: crc) (simp_all add: crc32_step_ref)

text \<open>
  C1. The table-driven CRC computes the CRC-32 of the reflected polynomial
  \<^verbatim>\<open>0xedb88320\<close>: for every buffer it returns what the bit-serial division returns. In
  particular all 256 entries of \<^verbatim>\<open>crc32_tab\<close> are right.
\<close>

theorem crc32_eq_bit_serial: "crc32 buf = crc_ref_loop (NOT 0) buf XOR NOT 0"
  by (simp add: crc32_def crc32_loop_ref)

lemma crc32_check_value:
  "crc32 [0x31, 0x32, 0x33, 0x34, 0x35, 0x36, 0x37, 0x38, 0x39] = 0xCBF43926"
  by (simp add: crc32_def crc32_loop_ref crc_byte_unfold crc_bit_def)

section \<open>Error detection\<close>

text \<open>A window of bytes as one word, first byte lowest.\<close>

fun pack :: "u8 list \<Rightarrow> u32" where
  "pack [] = 0"
| "pack (b # bs) = ucast b XOR push_bit 8 (pack bs)"

lemma bit_ucast_push:
  "bit (ucast (b :: u8) XOR push_bit 8 (w :: u32)) n \<longleftrightarrow>
     (if n < 8 then bit b n else n < 32 \<and> bit w (n - 8))"
  by (auto simp: bit_simps dest: bit_imp_le_length)

lemma bit_pack_beyond: "bit (pack bs) n \<Longrightarrow> n < 8 * length bs"
proof (induction bs arbitrary: n)
  case (Cons b bs)
  then show ?case by (force simp: bit_ucast_push split: if_splits)
qed simp

lemma drop_push_pack: "length bs \<le> 3 \<Longrightarrow> drop_bit 8 (push_bit 8 (pack bs)) = pack bs"
  by (rule bit_word_eqI) (auto simp: bit_simps dest: bit_pack_beyond)

lemma crc_loop_pack:
  "length bs \<le> 4 \<Longrightarrow> crc_ref_loop s bs = (crc_bit ^^ (8 * length bs)) (s XOR pack bs)"
proof (induction bs arbitrary: s)
  case (Cons b bs)
  have len: "length bs \<le> 3" using Cons.prems by simp
  have "(crc_bit ^^ 8) (push_bit 8 (pack bs)) = pack bs"
    using drop_push_pack [OF len] by (simp add: crc_iter_shift bit_push_bit_iff)
  then have "crc_byte (s XOR pack (b # bs)) = crc_byte (s XOR ucast b) XOR pack bs"
    by (simp add: crc_byte_def crc_iter_xor xor.assoc [symmetric])
  moreover have "crc_ref_loop s (b # bs)
      = (crc_bit ^^ (8 * length bs)) (crc_byte (s XOR ucast b) XOR pack bs)"
    using Cons len by simp
  ultimately have "crc_ref_loop s (b # bs)
      = (crc_bit ^^ (8 * length bs)) ((crc_bit ^^ 8) (s XOR pack (b # bs)))"
    by (simp add: crc_byte_def)
  then show ?case by (simp add: funpow_add [THEN fun_cong, simplified o_def, symmetric] add.commute)
qed simp

lemma pack_inj:
  "length bs = length cs \<Longrightarrow> length bs \<le> 4 \<Longrightarrow> pack bs = pack cs \<Longrightarrow> bs = cs"
proof (induction bs cs rule: list_induct2)
  case (Cons b bs c cs)
  have low: "bit b n = bit c n" if "n < 8" for n
    using Cons.prems(2) bit_ucast_push [of b "pack bs" n] bit_ucast_push [of c "pack cs" n] that
    by simp
  have b: "b = c" using low by (intro bit_word_eqI) simp
  with Cons.prems(2) have "push_bit 8 (pack bs) = push_bit 8 (pack cs)" by simp
  then have "drop_bit 8 (push_bit 8 (pack bs)) = drop_bit 8 (push_bit 8 (pack cs))" by simp
  moreover have "length bs \<le> 3" "length cs \<le> 3" using Cons.prems(1) Cons.hyps by simp_all
  ultimately have "pack bs = pack cs" by (simp only: drop_push_pack)
  with Cons b show ?case by simp
qed simp

lemma crc_ref_loop_append: "crc_ref_loop s (xs @ ys) = crc_ref_loop (crc_ref_loop s xs) ys"
  by (induction xs arbitrary: s) simp_all

lemma crc_ref_loop_inj: "crc_ref_loop s ys = crc_ref_loop t ys \<Longrightarrow> s = t"
proof (induction ys arbitrary: s t)
  case (Cons y ys)
  then have "crc_byte (s XOR ucast y) = crc_byte (t XOR ucast y)" by simp
  then have "s XOR ucast y = t XOR ucast y"
    unfolding crc_byte_def by (rule injD [OF crc_iter_inj])
  then show ?case by simp
qed simp

text \<open>
  Two buffers that differ only inside a window of at most four consecutive bytes have
  different checksums, whatever surrounds the window: a cached kernel source with such a
  change never gets the file name of the unchanged one.
\<close>

theorem crc32_detects_burst:
  assumes "length bs = length cs" and "length bs \<le> 4" and "bs \<noteq> cs"
  shows "crc32 (xs @ bs @ ys) \<noteq> crc32 (xs @ cs @ ys)"
proof
  assume "crc32 (xs @ bs @ ys) = crc32 (xs @ cs @ ys)"
  then have "crc_ref_loop (crc_ref_loop (NOT 0) xs) bs = crc_ref_loop (crc_ref_loop (NOT 0) xs) cs"
    by (auto simp: crc32_eq_bit_serial crc_ref_loop_append dest: crc_ref_loop_inj)
  then have "pack bs = pack cs"
    using assms(1,2) by (auto simp: crc_loop_pack dest!: injD [OF crc_iter_inj])
  with assms show False using pack_inj by blast
qed

theorem crc32_detects_burst_witness:
  "crc32 ([7] @ [1, 2] @ [9]) \<noteq> crc32 ([7] @ [1, 3] @ [9])"
  by (rule crc32_detects_burst) simp_all

end
