(* ===== verification/RandomSource.thy ===== *)
theory RandomSource
  imports Prelude
begin

text \<open>
  The interface between the generators of \<^verbatim>\<open>mt19937.cpp\<close> and the code that draws
  test data from them: a state, the draw of one 32-bit word (\<open>None\<close> if it accesses
  memory out of range), and an invariant under which every draw succeeds. Clients fill arrays
  by repeated draws (\<open>draws\<close>); what they need to know of a generator is proved here
  once, and \<open>simulation\<close> says when two generators cannot be told apart by any client.
\<close>

fun draws :: "('s \<Rightarrow> (u32 \<times> 's) option) \<Rightarrow> nat \<Rightarrow> 's \<Rightarrow> (u32 list \<times> 's) option" where
  "draws gen 0 s = Some ([], s)"
| "draws gen (Suc n) s = do {
     (x, s) \<leftarrow> gen s; (xs, s) \<leftarrow> draws gen n s; Some (x # xs, s) }"

locale random_source =
  fixes gen :: "'s \<Rightarrow> (u32 \<times> 's) option" and inv :: "'s \<Rightarrow> bool"
  assumes gen_total: "inv s \<Longrightarrow> \<exists>x s'. gen s = Some (x, s') \<and> inv s'"
begin

lemma draws_total: "inv s \<Longrightarrow> \<exists>xs s'. draws gen n s = Some (xs, s') \<and> length xs = n \<and> inv s'"
proof (induction n arbitrary: s)
  case (Suc n)
  then obtain x s1 where "gen s = Some (x, s1)" "inv s1"
    using gen_total by blast
  with Suc.IH [of s1] show ?case by auto
qed simp

end

locale described_source = random_source gen inv
  for gen :: "'s \<Rightarrow> (u32 \<times> 's) option" and inv :: "'s \<Rightarrow> bool" +
  fixes seq :: "'s \<Rightarrow> nat \<Rightarrow> u32"
  assumes gen_head: "inv s \<Longrightarrow> gen s = Some (x, s') \<Longrightarrow> x = seq s 0"
    and gen_tail: "inv s \<Longrightarrow> gen s = Some (x, s') \<Longrightarrow> seq s' n = seq s (Suc n)"
begin

text \<open>The words drawn are the described sequence, in order.\<close>

lemma draws_seq:
  "inv s \<Longrightarrow> \<exists>s'. draws gen n s = Some (map (seq s) [0..<n], s') \<and> inv s' \<and>
     (\<forall>k. seq s' k = seq s (n + k))"
proof (induction n arbitrary: s)
  case (Suc n)
  then obtain x s1 where g: "gen s = Some (x, s1)" "inv s1"
    using gen_total by blast
  obtain s' where s': "draws gen n s1 = Some (map (seq s1) [0..<n], s')" "inv s'"
      "\<forall>k. seq s' k = seq s1 (n + k)"
    using Suc.IH [OF g(2)] by blast
  have "x # map (seq s1) [0..<n] = seq s 0 # map (\<lambda>k. seq s (Suc k)) [0..<n]"
    using gen_head [OF Suc.prems g(1)] gen_tail [OF Suc.prems g(1)] by simp
  also have "\<dots> = map (seq s) [0..<Suc n]"
    by (simp only: map_upt_Suc)
  finally show ?case
    using g s' gen_tail [OF Suc.prems g(1)] by simp
qed simp

end

locale simulation =
  fixes gen :: "'s \<Rightarrow> (u32 \<times> 's) option" and gen' :: "'t \<Rightarrow> (u32 \<times> 't) option"
    and rel :: "'s \<Rightarrow> 't \<Rightarrow> bool"
  assumes rel_gen:
    "rel s t \<Longrightarrow> \<exists>x s' t'. gen s = Some (x, s') \<and> gen' t = Some (x, t') \<and> rel s' t'"
begin

lemma rel_draws:
  "rel s t \<Longrightarrow> \<exists>xs s' t'. draws gen n s = Some (xs, s') \<and> draws gen' n t = Some (xs, t') \<and> rel s' t'"
proof (induction n arbitrary: s t)
  case (Suc n)
  then obtain x s1 t1 where g: "gen s = Some (x, s1)" "gen' t = Some (x, t1)" "rel s1 t1"
    using rel_gen by blast
  obtain xs s' t' where "draws gen n s1 = Some (xs, s')" "draws gen' n t1 = Some (xs, t')" "rel s' t'"
    using Suc.IH [OF g(3)] by blast
  with g show ?case by simp
qed simp

end

end
