(* ===== verification/MT19937.thy ===== *)
theory MT19937
  imports RandomSource
begin

text \<open>
  The Mersenne twister of \<^verbatim>\<open>test_common/harness/mt19937.cpp\<close>, from which every
  conformance test draws its data: seeding (\<open>init_genrand\<close>), both builds of
  \<open>genrand_int32\<close> (the scalar code and the SSE2 code with its vector loops and its
  cache of tempered words) and the derived draws. Array accesses are checked: an access outside
  the state, or an aligned vector access at an unaligned index, gives \<open>None\<close>. The
  lemmas show that neither happens, that both builds return the tempered terms of the one
  recurrence \<open>mt_seq\<close>, and that both are instances of the source interface.

  Not modelled: \<open>genrand_real1\<close>, whose product with the rounded constant 1/(2^32-1) is
  not exact; \<open>free_mtdata\<close>, which only releases the block.
\<close>

section \<open>State and seeding\<close>

abbreviation MT_N :: nat where "MT_N \<equiv> 624"
abbreviation MT_M :: nat where "MT_M \<equiv> 397"

definition MATRIX_A :: u32 where "MATRIX_A = 0x9908b0df"
definition UPPER_MASK :: u32 where "UPPER_MASK = 0x80000000"
definition LOWER_MASK :: u32 where "LOWER_MASK = 0x7fffffff"

record mtdata =
  mt :: "u32 list"
  cache :: "u32 list"
  mti :: nat

text \<open>The product is taken in \<^verbatim>\<open>unsigned long\<close> and cut to 32 bits.\<close>

definition seed_step :: "u32 \<Rightarrow> nat \<Rightarrow> u32" where
  "seed_step p i =
     ucast ((1812433253 :: u64) * ucast (p XOR drop_bit 30 p) + word_of_nat i)"

definition init_loop :: "u32 list \<Rightarrow> u32 list option" where
  "init_loop a = for_loop 1 MT_N
     (\<lambda>i a. do { p \<leftarrow> rd a (i - 1); wr a i (seed_step p i) }) a"

text \<open>
  \<open>blk\<close> is what \<open>align_malloc\<close> returned: \<open>None\<close> for the null pointer, else
  the previous contents of the block. The outer \<open>None\<close> is an access out of range, the
  inner one the null result.
\<close>

definition init_genrand :: "mtdata option \<Rightarrow> u32 \<Rightarrow> mtdata option option" where
  "init_genrand blk s = (case blk of
     None \<Rightarrow> Some None
   | Some r \<Rightarrow> do {
       a \<leftarrow> wr (mt r) 0 s;
       a \<leftarrow> init_loop a;
       Some (Some (r\<lparr>mt := a, mti := MT_N\<rparr>)) })"

section \<open>The scalar build\<close>

definition mag01 :: "u32 list" where "mag01 = [0, MATRIX_A]"

definition mix_bits :: "u32 \<Rightarrow> u32 \<Rightarrow> u32" where
  "mix_bits u v = (u AND UPPER_MASK) OR (v AND LOWER_MASK)"

text \<open>\<open>far\<close>, \<open>u\<close> and \<open>v\<close> are the words read at M places ahead, here and next.\<close>

definition twist_word :: "u32 \<Rightarrow> u32 \<Rightarrow> u32 \<Rightarrow> u32" where
  "twist_word far u v =
     (let y = mix_bits u v in far XOR drop_bit 1 y XOR mag01 ! unat (y AND 1))"

definition twist_ahead :: "nat \<Rightarrow> u32 list \<Rightarrow> u32 list option" where
  "twist_ahead kk a = do {
     u \<leftarrow> rd a kk; v \<leftarrow> rd a (kk + 1); far \<leftarrow> rd a (kk + MT_M);
     wr a kk (twist_word far u v) }"

text \<open>The index \<open>kk + (M - N)\<close> is negative below N - M.\<close>

definition twist_back :: "nat \<Rightarrow> u32 list \<Rightarrow> u32 list option" where
  "twist_back kk a = do {
     u \<leftarrow> rd a kk; v \<leftarrow> rd a (kk + 1);
     far \<leftarrow> (if MT_N - MT_M \<le> kk then rd a (kk - (MT_N - MT_M)) else None);
     wr a kk (twist_word far u v) }"

definition twist_last :: "u32 list \<Rightarrow> u32 list option" where
  "twist_last a = do {
     u \<leftarrow> rd a (MT_N - 1); v \<leftarrow> rd a 0; far \<leftarrow> rd a (MT_M - 1);
     wr a (MT_N - 1) (twist_word far u v) }"

definition regenerate :: "u32 list \<Rightarrow> u32 list option" where
  "regenerate a = do {
     (kk, a) \<leftarrow> loop_by 1 (\<lambda>_. True) (MT_N - MT_M) twist_ahead (0, a);
     (kk, a) \<leftarrow> loop_by 1 (\<lambda>_. True) (MT_N - 1) twist_back (kk, a);
     twist_last a }"

definition temper :: "u32 \<Rightarrow> u32" where
  "temper y =
     (let y = y XOR drop_bit 11 y;
          y = y XOR (push_bit 7 y AND 0x9d2c5680);
          y = y XOR (push_bit 15 y AND 0xefc60000)
      in y XOR drop_bit 18 y)"

definition genrand_int32 :: "mtdata \<Rightarrow> (u32 \<times> mtdata) option" where
  "genrand_int32 d = do {
     d \<leftarrow> (if mti d = MT_N
           then do { a \<leftarrow> regenerate (mt d); Some (d\<lparr>mt := a, mti := 0\<rparr>) }
           else Some d);
     y \<leftarrow> rd (mt d) (mti d);
     Some (temper y, d\<lparr>mti := mti d + 1\<rparr>) }"

section \<open>The SSE2 build\<close>

text \<open>A vector register is a list of four lanes.\<close>

definition loadu :: "u32 list \<Rightarrow> nat \<Rightarrow> u32 list option" where
  "loadu a i = (if i + 4 \<le> length a then Some [a ! i, a ! (i + 1), a ! (i + 2), a ! (i + 3)] else None)"

definition load :: "u32 list \<Rightarrow> nat \<Rightarrow> u32 list option" where
  "load a i = (if i mod 4 = 0 then loadu a i else None)"

definition store :: "u32 list \<Rightarrow> nat \<Rightarrow> u32 list \<Rightarrow> u32 list option" where
  "store a i v =
     (if i mod 4 = 0 \<and> i + 4 \<le> length a
      then Some (a[i := v ! 0, i + 1 := v ! 1, i + 2 := v ! 2, i + 3 := v ! 3]) else None)"

definition splat :: "u32 \<Rightarrow> u32 list" where "splat c = replicate 4 c"

definition vcmpeq :: "u32 list \<Rightarrow> u32 list \<Rightarrow> u32 list" where
  "vcmpeq = map2 (\<lambda>x y. if x = y then -1 else 0)"

definition vtwist :: "u32 list \<Rightarrow> u32 list \<Rightarrow> u32 list \<Rightarrow> u32 list" where
  "vtwist far u v =
     (let vy = map2 (OR) (map2 (AND) u (splat UPPER_MASK)) (map2 (AND) v (splat LOWER_MASK));
          mask = vcmpeq (map2 (AND) vy (splat 1)) (splat 1);
          vmag01 = map2 (AND) mask (splat MATRIX_A);
          vr = map2 (XOR) far (map (drop_bit 1) vy)
      in map2 (XOR) vr vmag01)"

definition vtwist_ahead :: "nat \<Rightarrow> u32 list \<Rightarrow> u32 list option" where
  "vtwist_ahead kk a = do {
     u \<leftarrow> load a kk; v \<leftarrow> loadu a (kk + 1); far \<leftarrow> loadu a (kk + MT_M);
     store a kk (vtwist far u v) }"

definition vtwist_back :: "nat \<Rightarrow> u32 list \<Rightarrow> u32 list option" where
  "vtwist_back kk a = do {
     u \<leftarrow> load a kk; v \<leftarrow> loadu a (kk + 1);
     far \<leftarrow> (if MT_N \<le> kk + MT_M then loadu a (kk + MT_M - MT_N) else None);
     store a kk (vtwist far u v) }"

definition regenerate_sse :: "u32 list \<Rightarrow> u32 list option" where
  "regenerate_sse a = do {
     (kk, a) \<leftarrow> loop_by 4 (\<lambda>_. True) (MT_N - MT_M) vtwist_ahead (0, a);
     (kk, a) \<leftarrow> loop_by 1 (\<lambda>_. True) (MT_N - MT_M) twist_ahead (kk, a);
     (kk, a) \<leftarrow> loop_by 1 (\<lambda>kk. kk mod 4 \<noteq> 0) (MT_N - 1) twist_back (kk, a);
     (kk, a) \<leftarrow> loop_by 4 (\<lambda>_. True) (MT_N - 1) vtwist_back (kk, a);
     (kk, a) \<leftarrow> loop_by 1 (\<lambda>_. True) (MT_N - 1) twist_back (kk, a);
     twist_last a }"

definition vtemper :: "u32 list \<Rightarrow> u32 list" where
  "vtemper vy =
     (let vy = map2 (XOR) vy (map (drop_bit 11) vy);
          vy = map2 (XOR) vy (map2 (AND) (map (push_bit 7) vy) (splat 0x9d2c5680));
          vy = map2 (XOR) vy (map2 (AND) (map (push_bit 15) vy) (splat 0xefc60000))
      in map2 (XOR) vy (map (drop_bit 18) vy))"

definition fill_cache :: "u32 list \<Rightarrow> u32 list \<Rightarrow> u32 list option" where
  "fill_cache a c = map_option snd
     (loop_by 4 (\<lambda>_. True) MT_N
        (\<lambda>kk c. do { vy \<leftarrow> load a kk; store c kk (vtemper vy) }) (0, c))"

definition genrand_int32_sse :: "mtdata \<Rightarrow> (u32 \<times> mtdata) option" where
  "genrand_int32_sse d = do {
     d \<leftarrow> (if mti d = MT_N
           then do {
             a \<leftarrow> regenerate_sse (mt d);
             c \<leftarrow> fill_cache a (cache d);
             Some (d\<lparr>mt := a, cache := c, mti := 0\<rparr>) }
           else Some d);
     y \<leftarrow> rd (cache d) (mti d);
     Some (y, d\<lparr>mti := mti d + 1\<rparr>) }"

section \<open>Derived draws\<close>

text \<open>
  The two calls in \<open>genrand_int64\<close> are unsequenced: \<open>high_first\<close> is the compiler's
  choice. The other results are exact in double precision, hence reals here.
\<close>

definition genrand_int64 :: "('s \<Rightarrow> (u32 \<times> 's) option) \<Rightarrow> bool \<Rightarrow> 's \<Rightarrow> (u64 \<times> 's) option" where
  "genrand_int64 gen high_first d = do {
     (a, d) \<leftarrow> gen d; (b, d) \<leftarrow> gen d;
     let (hi, lo) = (if high_first then (a, b) else (b, a))
     in Some (push_bit 32 (ucast hi) OR ucast lo, d) }"

definition genrand_real2 :: "('s \<Rightarrow> (u32 \<times> 's) option) \<Rightarrow> 's \<Rightarrow> (real \<times> 's) option" where
  "genrand_real2 gen d = do {
     (x, d) \<leftarrow> gen d; Some (real (unat x) * (1 / 4294967296), d) }"

definition genrand_real3 :: "('s \<Rightarrow> (u32 \<times> 's) option) \<Rightarrow> 's \<Rightarrow> (real \<times> 's) option" where
  "genrand_real3 gen d = do {
     (x, d) \<leftarrow> gen d; Some ((real (unat x) + 1 / 2) * (1 / 4294967296), d) }"

text \<open>Here the two declarators are sequenced: \<open>a\<close> is drawn first.\<close>

definition genrand_res53 :: "('s \<Rightarrow> (u32 \<times> 's) option) \<Rightarrow> 's \<Rightarrow> (real \<times> 's) option" where
  "genrand_res53 gen d = do {
     (x, d) \<leftarrow> gen d; (y, d) \<leftarrow> gen d;
     let a = drop_bit 5 x; b = drop_bit 6 y
     in Some ((real (unat a) * 67108864 + real (unat b)) * (1 / 9007199254740992), d) }"

definition genrand_bool :: "('s \<Rightarrow> (u32 \<times> 's) option) \<Rightarrow> 's \<Rightarrow> (bool \<times> 's) option" where
  "genrand_bool gen d = do { (x, d) \<leftarrow> gen d; Some (x AND 1 \<noteq> 0, d) }"

section \<open>The recurrence\<close>

text \<open>
  The twister as a sequence: the 624 words of the state, then
  \<open>X (k + N) = X (k + M) xor twist (X k) (X (k + 1))\<close>.
\<close>

fun mt_seq :: "u32 list \<Rightarrow> nat \<Rightarrow> u32" where
  "mt_seq a k =
     (if k < MT_N then a ! k
      else twist_word (mt_seq a (k - (MT_N - MT_M))) (mt_seq a (k - MT_N)) (mt_seq a (k - (MT_N - 1))))"

declare mt_seq.simps [simp del]

lemma mt_seq_state [simp]: "k < MT_N \<Longrightarrow> mt_seq a k = a ! k"
  by (subst mt_seq.simps) simp

lemma mt_seq_step:
  "mt_seq a (MT_N + k) = twist_word (mt_seq a (k + MT_M)) (mt_seq a k) (mt_seq a (k + 1))"
  by (subst mt_seq.simps) (simp add: add.commute)

text \<open>A state half way through \<open>regenerate\<close>: \<open>kk\<close> words are the new ones.\<close>

definition half_way :: "u32 list \<Rightarrow> nat \<Rightarrow> u32 list \<Rightarrow> bool" where
  "half_way a0 kk a \<longleftrightarrow> length a = MT_N \<and> kk \<le> MT_N \<and>
     (\<forall>j<MT_N. a ! j = mt_seq a0 (if j < kk then MT_N + j else j))"

lemma half_way_start: "length a = MT_N \<Longrightarrow> half_way a 0 a"
  by (simp add: half_way_def)

lemma half_way_length: "half_way a0 kk a \<Longrightarrow> length a = MT_N"
  by (simp add: half_way_def)

lemma half_way_nth:
  "half_way a0 kk a \<Longrightarrow> j < MT_N \<Longrightarrow> a ! j = mt_seq a0 (if j < kk then MT_N + j else j)"
  by (simp add: half_way_def)

lemma half_way_update:
  assumes "half_way a0 kk a" and "kk < MT_N"
    and "y = mt_seq a0 (MT_N + kk)"
  shows "half_way a0 (Suc kk) (a[kk := y])"
  using assms by (auto simp: half_way_def nth_list_update less_Suc_eq)

lemma twist_ahead_ok:
  assumes h: "half_way a0 kk a" and kk: "kk < MT_N - MT_M"
  shows "\<exists>a'. twist_ahead kk a = Some a' \<and> half_way a0 (kk + 1) a'"
proof -
  note nth = half_way_nth [OF h] and len = half_way_length [OF h]
  have "twist_word (a ! (kk + MT_M)) (a ! kk) (a ! (kk + 1)) = mt_seq a0 (MT_N + kk)"
    using kk unfolding mt_seq_step by (simp add: nth)
  with h kk len show ?thesis
    by (simp add: twist_ahead_def half_way_update)
qed

lemma twist_back_ok:
  assumes h: "half_way a0 kk a" and kk: "MT_N - MT_M \<le> kk" "kk < MT_N - 1"
  shows "\<exists>a'. twist_back kk a = Some a' \<and> half_way a0 (kk + 1) a'"
proof -
  note nth = half_way_nth [OF h] and len = half_way_length [OF h]
  have "twist_word (a ! (kk - (MT_N - MT_M))) (a ! kk) (a ! (kk + 1)) = mt_seq a0 (MT_N + kk)"
    using kk unfolding mt_seq_step by (simp add: nth add.commute)
  with h kk len show ?thesis
    by (simp add: twist_back_def half_way_update)
qed

lemma twist_last_ok:
  assumes h: "half_way a0 (MT_N - 1) a"
  shows "\<exists>a'. twist_last a = Some a' \<and> half_way a0 MT_N a'"
proof -
  note nth = half_way_nth [OF h] and len = half_way_length [OF h]
  have "twist_word (a ! (MT_M - 1)) (a ! (MT_N - 1)) (a ! 0) = mt_seq a0 (MT_N + (MT_N - 1))"
    unfolding mt_seq_step by (simp add: nth)
  with half_way_update [OF h] len show ?thesis
    by (simp add: twist_last_def)
qed

lemma regenerate_ok:
  assumes "length a = MT_N"
  shows "\<exists>a'. regenerate a = Some a' \<and> half_way a MT_N a'"
proof -
  obtain b where b: "loop_by 1 (\<lambda>_. True) (MT_N - MT_M) twist_ahead (0, a) = Some (MT_N - MT_M, b)"
      "half_way a (MT_N - MT_M) b"
    using loop_by_one_rule [of "half_way a" 0 a "MT_N - MT_M" twist_ahead]
      half_way_start [OF assms] twist_ahead_ok [of a] by blast
  obtain c where c: "loop_by 1 (\<lambda>_. True) (MT_N - 1) twist_back (MT_N - MT_M, b) = Some (MT_N - 1, c)"
      "half_way a (MT_N - 1) c"
    using loop_by_one_rule [of "half_way a" "MT_N - MT_M" b "MT_N - 1" twist_back]
      b(2) twist_back_ok [of a] by auto
  from twist_last_ok [OF c(2)] b(1) c(1) show ?thesis
    by (simp add: regenerate_def)
qed

section \<open>The vector code\<close>

lemma less_4_cases: "(j::nat) < 4 \<Longrightarrow> j = 0 \<or> j = 1 \<or> j = 2 \<or> j = 3"
  by arith

lemma vtwist_lane:
  assumes "length far = 4" "length u = 4" "length v = 4"
  shows "length (vtwist far u v) = 4"
    and "j < 4 \<Longrightarrow> vtwist far u v ! j = twist_word (far ! j) (u ! j) (v ! j)"
proof -
  show "length (vtwist far u v) = 4"
    using assms by (simp add: vtwist_def vcmpeq_def splat_def Let_def)
  have odd: "y AND 1 = 0 \<or> y AND 1 = 1" for y :: u32
    by (cases "even y") (simp_all add: and_one_eq mod_2_eq_odd)
  show "vtwist far u v ! j = twist_word (far ! j) (u ! j) (v ! j)" if "j < 4"
    using assms that odd [of "mix_bits (u ! j) (v ! j)"]
    by (auto simp: vtwist_def vcmpeq_def splat_def twist_word_def mix_bits_def mag01_def Let_def xor.assoc)
qed

lemma nth_store:
  assumes "length v = 4" "i + 4 \<le> length a" "j < length a"
  shows "a[i := v ! 0, i + 1 := v ! 1, i + 2 := v ! 2, i + 3 := v ! 3] ! j =
    (if i \<le> j \<and> j < i + 4 then v ! (j - i) else a ! j)"
proof (cases "i \<le> j \<and> j < i + 4")
  case True
  then obtain m where "j = i + m" "m < 4" by (metis add_less_cancel_left le_iff_add)
  with less_4_cases [OF \<open>m < 4\<close>] assms show ?thesis
    by (auto simp: nth_list_update)
next
  case False
  with assms show ?thesis by (auto simp: nth_list_update)
qed

lemma loadu_nth:
  assumes "i + 4 \<le> length a"
  shows "\<exists>v. loadu a i = Some v \<and> length v = 4 \<and> (\<forall>j<4. v ! j = a ! (i + j))"
  using assms by (auto simp: loadu_def dest!: less_4_cases)

lemma half_way_store:
  assumes h: "half_way a0 kk a" and kk: "kk + 4 \<le> MT_N" "kk mod 4 = 0"
    and v: "length v = 4" "\<And>j. j < 4 \<Longrightarrow> v ! j = mt_seq a0 (MT_N + (kk + j))"
  shows "\<exists>a'. store a kk v = Some a' \<and> half_way a0 (kk + 4) a'"
proof -
  note len = half_way_length [OF h]
  have "a[kk := v ! 0, kk + 1 := v ! 1, kk + 2 := v ! 2, kk + 3 := v ! 3] ! j =
      mt_seq a0 (if j < kk + 4 then MT_N + j else j)" if "j < MT_N" for j
  proof (cases "kk \<le> j \<and> j < kk + 4")
    case True
    then have "j - kk < 4" "kk + (j - kk) = j" by auto
    with v(2) [of "j - kk"] have "v ! (j - kk) = mt_seq a0 (MT_N + j)" by metis
    with True that kk v(1) len nth_store [of v kk a j] show ?thesis by simp
  next
    case False
    with that kk v(1) len half_way_nth [OF h that] nth_store [of v kk a j] show ?thesis by auto
  qed
  with kk len show ?thesis
    by (simp add: store_def half_way_def)
qed

lemma vtwist_ahead_ok:
  assumes h: "half_way a0 kk a" and kk: "kk + 4 \<le> MT_N - MT_M" "kk mod 4 = 0"
  shows "\<exists>a'. vtwist_ahead kk a = Some a' \<and> half_way a0 (kk + 4) a'"
proof -
  note nth = half_way_nth [OF h] and len = half_way_length [OF h]
  obtain u v far where loads: "loadu a kk = Some u" "loadu a (kk + 1) = Some v"
      "loadu a (kk + MT_M) = Some far"
    and lens: "length u = 4" "length v = 4" "length far = 4"
    and lanes: "\<forall>j<4. u ! j = a ! (kk + j)" "\<forall>j<4. v ! j = a ! (kk + 1 + j)"
      "\<forall>j<4. far ! j = a ! (kk + MT_M + j)"
    using loadu_nth [of kk a] loadu_nth [of "kk + 1" a] loadu_nth [of "kk + MT_M" a] kk len
    by auto
  have "vtwist far u v ! j = mt_seq a0 (MT_N + (kk + j))" if "j < 4" for j
    using that kk lanes unfolding mt_seq_step
    by (simp add: vtwist_lane lens nth add.assoc add.commute)
  with half_way_store [OF h _ kk(2)] kk lens loads show ?thesis
    by (simp add: vtwist_ahead_def load_def vtwist_lane)
qed

lemma vtwist_back_ok:
  assumes h: "half_way a0 kk a"
    and kk: "MT_N - MT_M \<le> kk" "kk + 4 \<le> MT_N - 1" "kk mod 4 = 0"
  shows "\<exists>a'. vtwist_back kk a = Some a' \<and> half_way a0 (kk + 4) a'"
proof -
  note nth = half_way_nth [OF h] and len = half_way_length [OF h]
  have "kk + MT_M - MT_N + 4 \<le> MT_N" "kk + 1 + 4 \<le> MT_N" "kk + 4 \<le> MT_N" using kk by auto
  then obtain u v far where loads: "loadu a kk = Some u" "loadu a (kk + 1) = Some v"
      "loadu a (kk + MT_M - MT_N) = Some far"
    and lens: "length u = 4" "length v = 4" "length far = 4"
    and lanes: "\<forall>j<4. u ! j = a ! (kk + j)" "\<forall>j<4. v ! j = a ! (kk + 1 + j)"
      "\<forall>j<4. far ! j = a ! (kk + MT_M - MT_N + j)"
    using loadu_nth [of kk a] loadu_nth [of "kk + 1" a] loadu_nth [of "kk + MT_M - MT_N" a]
    unfolding len by blast
  have "vtwist far u v ! j = mt_seq a0 (MT_N + (kk + j))" if "j < 4" for j
  proof -
    have "kk + MT_M - MT_N + j < kk" "kk + MT_M - MT_N + j < MT_N"
      "MT_N + (kk + MT_M - MT_N + j) = kk + j + MT_M"
      using that kk by auto
    with that lanes(3) nth [of "kk + MT_M - MT_N + j"] have "far ! j = mt_seq a0 (kk + j + MT_M)"
      by (simp add: add.commute add.left_commute)
    with that kk lanes(1,2) show ?thesis
      unfolding mt_seq_step by (simp add: vtwist_lane lens nth add.assoc)
  qed
  with half_way_store [OF h _ kk(3)] kk lens loads show ?thesis
    by (simp add: vtwist_back_def load_def vtwist_lane)
qed

lemma regenerate_sse_ok:
  assumes "length a = MT_N"
  shows "\<exists>a'. regenerate_sse a = Some a' \<and> half_way a MT_N a'"
proof -
  define P4 where "P4 = (\<lambda>kk b. half_way a kk b \<and> kk mod 4 = 0)"
  have "P4 0 a" by (simp add: P4_def half_way_start assms)
  then obtain k1 b1 where l1: "loop_by 4 (\<lambda>_. True) (MT_N - MT_M) vtwist_ahead (0, a) = Some (k1, b1)"
      "half_way a k1 b1" "k1 \<le> MT_N - MT_M"
    using loop_by_rule [of P4 0 a 4 "MT_N - MT_M" "\<lambda>_. True" vtwist_ahead] vtwist_ahead_ok [of a]
    by (auto simp: P4_def)
  obtain b2 where l2: "loop_by 1 (\<lambda>_. True) (MT_N - MT_M) twist_ahead (k1, b1) = Some (MT_N - MT_M, b2)"
      "half_way a (MT_N - MT_M) b2"
    using loop_by_one_rule [of "half_way a" k1 b1 "MT_N - MT_M" twist_ahead]
      l1(2,3) twist_ahead_ok [of a] by blast
  have tb: "MT_N - MT_M \<le> k \<Longrightarrow> k + 1 \<le> MT_N - 1 \<Longrightarrow> half_way a k t \<Longrightarrow>
      \<exists>t'. twist_back k t = Some t' \<and> half_way a (k + 1) t'" for k t
    using twist_back_ok [of a k t] by simp
  obtain k3 b3 where l3:
      "loop_by 1 (\<lambda>kk. kk mod 4 \<noteq> 0) (MT_N - 1) twist_back (MT_N - MT_M, b2) = Some (k3, b3)"
      "half_way a k3 b3" "MT_N - MT_M \<le> k3" "k3 \<le> MT_N - 1" "k3 + 1 \<le> MT_N - 1 \<longrightarrow> k3 mod 4 = 0"
    using loop_by_rule [of "half_way a" "MT_N - MT_M" b2 1 "MT_N - 1" "\<lambda>kk. kk mod 4 \<noteq> 0" twist_back]
      l2(2) tb by auto
  obtain k4 b4 where l4: "loop_by 4 (\<lambda>_. True) (MT_N - 1) vtwist_back (k3, b3) = Some (k4, b4)"
      "half_way a k4 b4" "k3 \<le> k4" "k4 \<le> MT_N - 1"
  proof (cases "k3 + 1 \<le> MT_N - 1")
    case True
    with l3 have "P4 k3 b3" by (simp add: P4_def)
    with loop_by_rule [of P4 k3 b3 4 "MT_N - 1" "\<lambda>_. True" vtwist_back] vtwist_back_ok [of a] l3(3,4) that
    show thesis by (auto simp: P4_def)
  next
    case False
    then have "loop_by 4 (\<lambda>_. True) (MT_N - 1) vtwist_back (k3, b3) = Some (k3, b3)"
      by (subst loop_by.simps) simp
    with l3 that show thesis by auto
  qed
  obtain b5 where l5: "loop_by 1 (\<lambda>_. True) (MT_N - 1) twist_back (k4, b4) = Some (MT_N - 1, b5)"
      "half_way a (MT_N - 1) b5"
    using loop_by_one_rule [of "half_way a" k4 b4 "MT_N - 1" twist_back] l3(3) l4(2-4) twist_back_ok [of a]
    by auto
  from twist_last_ok [OF l5(2)] l1(1) l2(1) l3(1) l4(1) l5(1) show ?thesis
    by (simp add: regenerate_sse_def)
qed

text \<open>Both builds leave the same state.\<close>

lemma half_way_unique: "half_way a MT_N b \<Longrightarrow> half_way a MT_N c \<Longrightarrow> b = c"
  by (auto simp: half_way_def intro!: nth_equalityI)

lemma regenerate_sse_eq: "length a = MT_N \<Longrightarrow> regenerate_sse a = regenerate a"
  using regenerate_ok regenerate_sse_ok half_way_unique by metis

lemma vtemper_lane:
  assumes "length v = 4"
  shows "length (vtemper v) = 4" and "j < 4 \<Longrightarrow> vtemper v ! j = temper (v ! j)"
  using assms by (simp_all add: vtemper_def temper_def splat_def Let_def)

lemma fill_cache_ok:
  assumes a: "length a = MT_N" and c: "length c = MT_N"
  shows "fill_cache a c = Some (map temper a)"
proof -
  define P where "P = (\<lambda>kk b. length b = MT_N \<and> kk mod 4 = 0 \<and> kk \<le> MT_N \<and> (\<forall>j<kk. b ! j = temper (a ! j)))"
  let ?body = "\<lambda>kk c. do { vy \<leftarrow> load a kk; store c kk (vtemper vy) }"
  have body: "\<exists>b'. ?body k b = Some b' \<and> P (k + 4) b'" if Pk: "P k b" and k4: "k + 4 \<le> MT_N" for k b
  proof -
    from Pk have k: "k mod 4 = 0" and len: "length b = MT_N" by (auto simp: P_def)
    obtain v where v: "loadu a k = Some v" "length v = 4" "\<forall>j<4. v ! j = a ! (k + j)"
      using loadu_nth [of k a] k4 a by metis
    let ?b = "b[k := vtemper v ! 0, k + 1 := vtemper v ! 1, k + 2 := vtemper v ! 2, k + 3 := vtemper v ! 3]"
    have "?b ! j = temper (a ! j)" if j: "j < k + 4" for j
    proof (cases "k \<le> j")
      case True
      with j have "j - k < 4" "k + (j - k) = j" by auto
      with v have "vtemper v ! (j - k) = temper (a ! j)" by (metis vtemper_lane(2))
      with True j len k4 nth_store [of "vtemper v" k b j] vtemper_lane(1) [OF v(2)] show ?thesis by simp
    next
      case False
      with j len k4 Pk nth_store [of "vtemper v" k b j] vtemper_lane(1) [OF v(2)] show ?thesis
        by (simp add: P_def)
    qed
    then have "P (k + 4) ?b" using k len k4 by (simp add: P_def mod_add_eq)
    with k len k4 v(1) show ?thesis by (simp add: load_def store_def)
  qed
  have "P 0 c" using c by (simp add: P_def)
  with loop_by_rule [of P 0 c 4 MT_N "\<lambda>_. True" ?body] body
  obtain k b where kb: "loop_by 4 (\<lambda>_. True) MT_N ?body (0, c) = Some (k, b)" "P k b" "\<not> k + 4 \<le> MT_N"
    by auto
  have "k = MT_N"
  proof -
    from kb(2) have "k \<le> MT_N" "k mod 4 = 0" by (auto simp: P_def)
    with kb(3) show ?thesis by presburger
  qed
  with kb(2) a have "b = map temper a"
    by (auto simp: P_def intro!: nth_equalityI)
  with kb(1) show ?thesis by (simp add: fill_cache_def)
qed

section \<open>The generators as sources\<close>

lemma regenerate_shift:
  assumes "half_way a MT_N b"
  shows "mt_seq b k = mt_seq a (MT_N + k)"
proof (induction k rule: less_induct)
  case (less k)
  show ?case
  proof (cases "k < MT_N")
    case True
    with half_way_nth [OF assms True] show ?thesis by simp
  next
    case False
    then obtain m where m: "k = MT_N + m" by (metis le_iff_add not_less)
    have "mt_seq b k = twist_word (mt_seq b (m + MT_M)) (mt_seq b m) (mt_seq b (m + 1))"
      unfolding m by (rule mt_seq_step)
    also have "\<dots> = twist_word (mt_seq a (k + MT_M)) (mt_seq a k) (mt_seq a (k + 1))"
      using less [of "m + MT_M"] less [of m] less [of "m + 1"] by (simp add: m add.assoc)
    also have "\<dots> = mt_seq a (MT_N + k)" by (simp only: mt_seq_step)
    finally show ?thesis .
  qed
qed

definition mt_inv :: "mtdata \<Rightarrow> bool" where
  "mt_inv d \<longleftrightarrow> length (mt d) = MT_N \<and> mti d \<le> MT_N"

definition sse_inv :: "mtdata \<Rightarrow> bool" where
  "sse_inv d \<longleftrightarrow> mt_inv d \<and> length (cache d) = MT_N \<and>
     (mti d < MT_N \<longrightarrow> cache d = map temper (mt d))"

definition mt_out :: "mtdata \<Rightarrow> nat \<Rightarrow> u32" where
  "mt_out d n = temper (mt_seq (mt d) (mti d + n))"

lemma genrand_int32_ok:
  assumes "mt_inv d"
  shows "\<exists>d'. genrand_int32 d = Some (mt_out d 0, d') \<and> mt_inv d' \<and>
    (\<forall>n. mt_out d' n = mt_out d (Suc n))"
proof (cases "mti d = MT_N")
  case True
  obtain b where b: "regenerate (mt d) = Some b" "half_way (mt d) MT_N b"
    using regenerate_ok assms by (auto simp: mt_inv_def)
  have "temper (b ! 0) = mt_out d 0"
    using regenerate_shift [OF b(2), of 0] half_way_length [OF b(2)] by (simp add: mt_out_def True)
  with b half_way_length [OF b(2)] show ?thesis
    by (simp add: genrand_int32_def True mt_inv_def mt_out_def regenerate_shift [OF b(2)])
next
  case False
  with assms show ?thesis
    by (simp add: genrand_int32_def mt_inv_def mt_out_def)
qed

lemma genrand_int32_sse_ok:
  assumes "sse_inv d"
  shows "\<exists>d'. genrand_int32_sse d = Some (mt_out d 0, d') \<and> sse_inv d' \<and>
    (\<forall>n. mt_out d' n = mt_out d (Suc n))"
proof (cases "mti d = MT_N")
  case True
  obtain b where b: "regenerate_sse (mt d) = Some b" "half_way (mt d) MT_N b"
    using regenerate_sse_ok assms by (auto simp: sse_inv_def mt_inv_def)
  have "temper (b ! 0) = mt_out d 0"
    using regenerate_shift [OF b(2), of 0] half_way_length [OF b(2)] by (simp add: mt_out_def True)
  with b half_way_length [OF b(2)] assms show ?thesis
    by (simp add: genrand_int32_sse_def True sse_inv_def mt_inv_def mt_out_def
        fill_cache_ok regenerate_shift [OF b(2)])
next
  case False
  with assms show ?thesis
    by (simp add: genrand_int32_sse_def sse_inv_def mt_inv_def mt_out_def)
qed

interpretation scalar: described_source genrand_int32 mt_inv mt_out
  by unfold_locales (use genrand_int32_ok in force)+

interpretation sse: described_source genrand_int32_sse sse_inv mt_out
  by unfold_locales (use genrand_int32_sse_ok in force)+

definition same_stream :: "mtdata \<Rightarrow> mtdata \<Rightarrow> bool" where
  "same_stream d e \<longleftrightarrow> mt_inv d \<and> sse_inv e \<and> mt_out d = mt_out e"

interpretation builds: simulation genrand_int32 genrand_int32_sse same_stream
proof
  fix d e assume "same_stream d e"
  then have de: "mt_inv d" "sse_inv e" "mt_out d = mt_out e" by (simp_all add: same_stream_def)
  obtain d' where d': "genrand_int32 d = Some (mt_out d 0, d')" "mt_inv d'"
      "\<forall>n. mt_out d' n = mt_out d (Suc n)"
    using genrand_int32_ok [OF de(1)] by blast
  obtain e' where e': "genrand_int32_sse e = Some (mt_out e 0, e')" "sse_inv e'"
      "\<forall>n. mt_out e' n = mt_out e (Suc n)"
    using genrand_int32_sse_ok [OF de(2)] by blast
  have "mt_out d' = mt_out e'" using d'(3) e'(3) de(3) by auto
  with d' e' de show "\<exists>x s' t'. genrand_int32 d = Some (x, s') \<and>
      genrand_int32_sse e = Some (x, t') \<and> same_stream s' t'"
    by (auto simp: same_stream_def)
qed

section \<open>Seeding\<close>

fun seed_seq :: "u32 \<Rightarrow> nat \<Rightarrow> u32" where
  "seed_seq s 0 = s"
| "seed_seq s (Suc n) = seed_step (seed_seq s n) (Suc n)"

lemma init_loop_ok:
  assumes "length a = MT_N" "a ! 0 = s"
  shows "init_loop a = Some (map (seed_seq s) [0..<MT_N])"
proof -
  define P where "P = (\<lambda>i b. length b = MT_N \<and> 0 < i \<and> i \<le> MT_N \<and> (\<forall>j<i. b ! j = seed_seq s j))"
  let ?body = "\<lambda>i a. do { p \<leftarrow> rd a (i - 1); wr a i (seed_step p i) }"
  have "P 1 a" using assms by (simp add: P_def)
  moreover have "\<exists>b'. ?body k b = Some b' \<and> P (Suc k) b'" if "1 \<le> k" "k < MT_N" "P k b" for k b
  proof -
    from that obtain m where "k = Suc m" by (cases k) auto
    with that show ?thesis by (auto simp: P_def nth_list_update less_Suc_eq)
  qed
  ultimately obtain b where b: "for_loop 1 MT_N ?body a = Some b" "P MT_N b"
    using for_loop_rule [of P 1 a MT_N ?body] by auto
  have "b = map (seed_seq s) [0..<MT_N]"
    using b(2) by (auto simp: P_def intro!: nth_equalityI)
  with b(1) show ?thesis by (simp add: init_loop_def)
qed

lemma init_genrand_ok:
  assumes "length (mt r) = MT_N"
  shows "init_genrand (Some r) s =
    Some (Some (r\<lparr>mt := map (seed_seq s) [0..<MT_N], mti := MT_N\<rparr>))"
  using assms by (simp add: init_genrand_def init_loop_ok)

section \<open>Tempering can be undone\<close>

lemma xor_left_shift_inj:
  fixes x y :: "'a::len word"
  assumes "0 < k" and eq: "x XOR (push_bit k x AND c) = y XOR (push_bit k y AND c)"
  shows "x = y"
proof (rule bit_word_eqI)
  fix n
  show "n < LENGTH('a) \<Longrightarrow> bit x n = bit y n"
  proof (induction n rule: less_induct)
    case (less n)
    have "bit (x XOR (push_bit k x AND c)) n = bit (y XOR (push_bit k y AND c)) n"
      by (simp only: eq)
    moreover have "k \<le> n \<Longrightarrow> bit x (n - k) = bit y (n - k)"
      using less \<open>0 < k\<close> by simp
    ultimately show ?case using less.prems by (auto simp: bit_simps)
  qed
qed

lemma xor_right_shift_inj:
  fixes x y :: "'a::len word"
  assumes "0 < k" and eq: "x XOR drop_bit k x = y XOR drop_bit k y"
  shows "x = y"
proof (rule bit_word_eqI)
  fix n
  show "n < LENGTH('a) \<Longrightarrow> bit x n = bit y n"
  proof (induction "LENGTH('a) - n" arbitrary: n rule: less_induct)
    case less
    have "bit (x XOR drop_bit k x) n = bit (y XOR drop_bit k y) n"
      by (simp only: eq)
    moreover have "bit x (n + k) = bit y (n + k)"
    proof (cases "n + k < LENGTH('a)")
      case True
      with less \<open>0 < k\<close> show ?thesis by simp
    qed (metis bit_imp_le_length not_less)
    ultimately show ?case using less.prems by (auto simp: bit_simps add.commute)
  qed
qed

lemma temper_inj_iff: "temper x = temper y \<longleftrightarrow> x = y"
proof
  assume "temper x = temper y"
  then have e1: "t3 XOR drop_bit 18 t3 = u3 XOR drop_bit 18 u3"
    if "t1 = x XOR drop_bit 11 x" "t2 = t1 XOR (push_bit 7 t1 AND 0x9d2c5680)"
      "t3 = t2 XOR (push_bit 15 t2 AND 0xefc60000)"
      "u1 = y XOR drop_bit 11 y" "u2 = u1 XOR (push_bit 7 u1 AND 0x9d2c5680)"
      "u3 = u2 XOR (push_bit 15 u2 AND 0xefc60000)" for t1 t2 t3 u1 u2 u3
    unfolding temper_def Let_def that .
  have "x XOR drop_bit 11 x = y XOR drop_bit 11 y"
    by (rule xor_left_shift_inj [of 7 _ "0x9d2c5680"], simp,
        rule xor_left_shift_inj [of 15 _ "0xefc60000"], simp,
        rule xor_right_shift_inj [of 18], simp, rule e1) (rule refl)+
  then show "x = y" by (rule xor_right_shift_inj [rotated]) simp
qed simp

section \<open>What clients may rely on\<close>

text \<open>Two sources with equal next \<open>N\<close> words of an MT stream agree for ever.\<close>

lemma mt_seq_determined:
  assumes "\<And>j. j < MT_N \<Longrightarrow> mt_seq a (i + j) = mt_seq b (m + j)"
  shows "mt_seq a (i + k) = mt_seq b (m + k)"
proof (induction k rule: less_induct)
  case (less k)
  show ?case
  proof (cases "k < MT_N")
    case False
    then obtain l where l: "k = MT_N + l" by (metis le_iff_add not_less)
    have "mt_seq a (i + k) = twist_word (mt_seq a (i + (l + MT_M))) (mt_seq a (i + l)) (mt_seq a (i + (l + 1)))"
      using mt_seq_step [of a "i + l"] by (simp add: l ac_simps)
    also have "\<dots> = twist_word (mt_seq b (m + (l + MT_M))) (mt_seq b (m + l)) (mt_seq b (m + (l + 1)))"
      using less [of "l + MT_M"] less [of l] less [of "l + 1"] by (simp add: l)
    also have "\<dots> = mt_seq b (m + k)"
      using mt_seq_step [of b "m + l"] by (simp add: l ac_simps)
    finally show ?thesis .
  qed (use assms in simp)
qed

context random_source begin

lemma real2_range:
  assumes "inv s"
  shows "\<exists>r s'. genrand_real2 gen s = Some (r, s') \<and> inv s' \<and> 0 \<le> r \<and> r < 1"
proof -
  obtain x s' where "gen s = Some (x, s')" "inv s'" using gen_total [OF assms] by blast
  moreover define n where "n = unat x"
  moreover from calculation have "genrand_real2 gen s = Some (real n / 4294967296, s')"
    by (simp add: genrand_real2_def n_def)
  moreover have "n < 4294967296" using unat_bound [of x] by (simp add: n_def)
  then have "real n < 4294967296" by linarith
  then have "0 \<le> real n / 4294967296" "real n / 4294967296 < 1" by auto
  ultimately show ?thesis by blast
qed

lemma real3_range:
  assumes "inv s"
  shows "\<exists>r s'. genrand_real3 gen s = Some (r, s') \<and> inv s' \<and> 0 < r \<and> r < 1"
proof -
  obtain x s' where "gen s = Some (x, s')" "inv s'" using gen_total [OF assms] by blast
  moreover define n where "n = unat x"
  moreover from calculation have "genrand_real3 gen s = Some ((real n + 1 / 2) / 4294967296, s')"
    by (simp add: genrand_real3_def n_def)
  moreover have "n \<le> 4294967295" using unat_bound [of x] by (simp add: n_def)
  then have "real n \<le> 4294967295" by linarith
  then have "0 < (real n + 1 / 2) / 4294967296" "(real n + 1 / 2) / 4294967296 < 1"
    by auto
  ultimately show ?thesis by blast
qed

lemma res53_range:
  assumes "inv s"
  shows "\<exists>k s'. genrand_res53 gen s = Some (real k / 2 ^ 53, s') \<and> inv s' \<and> k < 2 ^ 53"
proof -
  obtain x s1 where g1: "gen s = Some (x, s1)" "inv s1" using gen_total [OF assms] by blast
  obtain y s2 where g2: "gen s1 = Some (y, s2)" "inv s2" using gen_total [OF g1(2)] by blast
  define k where "k = unat (drop_bit 5 x) * 67108864 + unat (drop_bit 6 y)"
  have "unat (drop_bit 5 x) = unat x div 2 ^ 5" "unat (drop_bit 6 y) = unat y div 2 ^ 6"
    by (subst unat_drop_bit_eq, rule drop_bit_eq_div)+
  then have "unat (drop_bit 5 x) < 2 ^ 27" "unat (drop_bit 6 y) < 2 ^ 26"
    using unat_bound [of x] unat_bound [of y] by simp_all
  then have "k < 2 ^ 53" by (simp add: k_def)
  moreover have "genrand_res53 gen s = Some (real k / 2 ^ 53, s2)"
    using g1 g2 by (simp add: genrand_res53_def k_def Let_def)
  ultimately show ?thesis using g2(2) by blast
qed

lemma int64_halves:
  assumes "inv s"
  shows "\<exists>a b r s'. draws gen 2 s = Some ([a, b], s') \<and> genrand_int64 gen hf s = Some (r, s') \<and>
    inv s' \<and> ucast (drop_bit 32 r) = (if hf then a else b) \<and> ucast r = (if hf then b else a)"
proof -
  obtain x s1 where g1: "gen s = Some (x, s1)" "inv s1" using gen_total [OF assms] by blast
  obtain y s2 where g2: "gen s1 = Some (y, s2)" "inv s2" using gen_total [OF g1(2)] by blast
  have "ucast (drop_bit 32 (push_bit 32 (ucast h :: u64) OR ucast l)) = h"
    "ucast (push_bit 32 (ucast h :: u64) OR ucast l) = l" for h l :: u32
    by (rule bit_word_eqI, auto simp: bit_simps dest: bit_imp_le_length)+
  with g1 g2 show ?thesis
    by (cases hf) (simp_all add: genrand_int64_def numeral_2_eq_2)
qed

end

section \<open>Evaluating the seed sequence\<close>

text \<open>The seed sequence as a fold, which evaluates from the left.\<close>

definition seed_run :: "nat \<Rightarrow> nat \<Rightarrow> u32 \<Rightarrow> u32" where
  "seed_run i n p = fold (\<lambda>i p. seed_step p i) [i..<i + n] p"

lemma seed_seq_run: "seed_seq s (i + n) = seed_run (Suc i) n (seed_seq s i)"
  by (induction n) (simp_all add: seed_run_def)

lemma seed_run_Suc [simp]:
  "seed_run i 0 p = p"
  "seed_run i (Suc n) p = seed_run (Suc i) n (seed_step p i)"
  by (simp_all add: seed_run_def upt_conv_Cons del: upt_Suc)

lemma seed_run_numeral [simp]:
  "seed_run (numeral i) (numeral n) p =
     seed_run (numeral (Num.inc i)) (pred_numeral n) (seed_step p (numeral i))"
  by (simp add: numeral_eq_Suc add_One)


lemma seed_seq_5489:
  "seed_seq 5489 1 = 1301868182" "seed_seq 5489 397 = 3183906156"
proof -
  show 1: "seed_seq 5489 1 = 1301868182"
    by (simp add: seed_step_def)
  have "seed_seq 5489 200 = seed_run 2 199 (seed_seq 5489 1)"
    using seed_seq_run [of 5489 1 199] by (simp only: numeral_2_eq_2) simp
  also have "\<dots> = 123512128"
    unfolding 1 by (simp add: seed_step_def)
  finally have 200: "seed_seq 5489 200 = 123512128" .
  have "seed_seq 5489 397 = seed_run 201 197 (seed_seq 5489 200)"
    using seed_seq_run [of 5489 200 197] by simp
  also have "\<dots> = 3183906156"
    unfolding 200 by (simp add: seed_step_def)
  finally show "seed_seq 5489 397 = 3183906156" .
qed


section \<open>Properties\<close>

text \<open>
  C2. From any state whose arrays have length N and whose index is at most N, any number of
  calls of \<open>genrand_int32\<close> succeed without an access out of range, and return in order the
  tempered terms of the recurrence \<open>X(k+N) = X(k+M) xor twist(X(k), X(k+1))\<close> that the
  state words start, from the position of the index.
\<close>

theorem genrand_int32_stream:
  assumes "length (mt d) = MT_N" and "mti d \<le> MT_N"
  shows "\<exists>d'. draws genrand_int32 n d =
      Some (map (\<lambda>k. temper (mt_seq (mt d) (mti d + k))) [0..<n], d')"
proof -
  have "mt_inv d" using assms by (simp add: mt_inv_def)
  from scalar.draws_seq [OF this, of n] show ?thesis
    by (auto simp: mt_out_def [abs_def])
qed

theorem genrand_int32_stream_witness:
  "\<exists>d'. draws genrand_int32 3 \<lparr>mt = replicate MT_N 7, cache = [], mti = MT_N\<rparr> =
      Some (map (\<lambda>k. temper (mt_seq (replicate MT_N 7) (MT_N + k))) [0..<3], d')"
  using genrand_int32_stream [of "\<lparr>mt = replicate MT_N 7, cache = [], mti = MT_N\<rparr>" 3] by simp

text \<open>
  C3. The SSE2 build and the scalar build generate the same numbers: from whatever block
  \<open>align_malloc\<close> returned (only its arrays' lengths matter), seeding succeeds, and any
  number of draws gives the same words in both, with no aligned vector access at an unaligned
  address and none out of range.
\<close>

theorem sse_build_equals_scalar_build:
  assumes "length (mt r) = MT_N" and "length (cache r) = MT_N"
  shows "\<exists>d xs d1 d2. init_genrand (Some r) s = Some (Some d) \<and>
    draws genrand_int32 n d = Some (xs, d1) \<and> draws genrand_int32_sse n d = Some (xs, d2)"
proof -
  obtain d where d: "init_genrand (Some r) s = Some (Some d)" "mt_inv d" "sse_inv d"
    using assms by (simp add: init_genrand_ok mt_inv_def sse_inv_def)
  then have "same_stream d d" by (simp add: same_stream_def)
  from builds.rel_draws [OF this, of n] d(1) show ?thesis by blast
qed

theorem sse_build_equals_scalar_build_witness:
  "\<exists>d xs d1 d2. init_genrand (Some \<lparr>mt = replicate MT_N 1, cache = replicate MT_N 2, mti = 0\<rparr>) 9
      = Some (Some d) \<and>
    draws genrand_int32 700 d = Some (xs, d1) \<and> draws genrand_int32_sse 700 d = Some (xs, d2)"
  using sse_build_equals_scalar_build
    [of "\<lparr>mt = replicate MT_N 1, cache = replicate MT_N 2, mti = 0\<rparr>" 9 700] by simp

text \<open>
  Seed 5489, the reference implementation's default: the first number drawn is
  3499211612, the published first output of MT19937, whatever the block held before.
\<close>

theorem mt19937_known_answer:
  assumes "length (mt r) = MT_N"
  shows "\<exists>d d'. init_genrand (Some r) 5489 = Some (Some d) \<and>
    genrand_int32 d = Some (3499211612, d')"
proof -
  let ?d = "r\<lparr>mt := map (seed_seq 5489) [0..<MT_N], mti := MT_N\<rparr>"
  have "mt_out ?d 0 = temper (twist_word 3183906156 5489 1301868182)"
    using mt_seq_step [of "mt ?d" 0] seed_seq_5489 by (simp add: mt_out_def)
  also have "\<dots> = 3499211612"
    by (simp add: temper_def twist_word_def mix_bits_def UPPER_MASK_def LOWER_MASK_def
        mag01_def MATRIX_A_def)
  finally have "mt_out ?d 0 = 3499211612" .
  with genrand_int32_ok [of ?d] init_genrand_ok [OF assms, of 5489] show ?thesis
    by (auto simp: mt_inv_def)
qed

theorem mt19937_known_answer_witness:
  "\<exists>d d'. init_genrand (Some \<lparr>mt = replicate MT_N 0, cache = [], mti = 0\<rparr>) 5489 = Some (Some d) \<and>
    genrand_int32 d = Some (3499211612, d')"
  using mt19937_known_answer [of "\<lparr>mt = replicate MT_N 0, cache = [], mti = 0\<rparr>"] by simp

text \<open>
  C4. The tempering loses nothing: two states whose first \<open>N\<close> outputs agree give the
  same outputs for ever, so what a test draws is settled by the first 624 words.
\<close>

theorem outputs_determine_stream:
  assumes "length (mt d) = MT_N" and "length (mt e) = MT_N"
    and "mti d \<le> MT_N" and "mti e \<le> MT_N"
    and "map_option fst (draws genrand_int32 MT_N d) = map_option fst (draws genrand_int32 MT_N e)"
  shows "map_option fst (draws genrand_int32 n d) = map_option fst (draws genrand_int32 n e)"
proof -
  have inv: "mt_inv d" "mt_inv e" using assms by (simp_all add: mt_inv_def)
  have out: "map_option fst (draws genrand_int32 m f) = Some (map (mt_out f) [0..<m])"
    if "mt_inv f" for m f
    using scalar.draws_seq [OF that, of m] by auto
  have "mt_out d j = mt_out e j" if "j < MT_N" for j
    using assms(5) that unfolding out [OF inv(1)] out [OF inv(2)] by simp
  then have "mt_seq (mt d) (mti d + j) = mt_seq (mt e) (mti e + j)" if "j < MT_N" for j
    using that by (simp add: mt_out_def temper_inj_iff)
  from mt_seq_determined [of "mt d" "mti d" "mt e" "mti e", OF this]
  have "mt_out d k = mt_out e k" for k by (simp add: mt_out_def)
  then show ?thesis by (simp add: out inv)
qed

theorem outputs_determine_stream_witness:
  "map_option fst (draws genrand_int32 2000 \<lparr>mt = replicate MT_N 7, cache = [], mti = 0\<rparr>) =
   map_option fst (draws genrand_int32 2000 \<lparr>mt = replicate MT_N 7, cache = [5], mti = 0\<rparr>)"
proof -
  let ?d = "\<lparr>mt = replicate MT_N 7, cache = [], mti = 0\<rparr>"
    and ?e = "\<lparr>mt = replicate MT_N 7, cache = [5], mti = 0\<rparr>"
  have "mt_inv ?d" "mt_inv ?e" "mt_out ?d = mt_out ?e"
    by (simp_all add: mt_inv_def mt_out_def fun_eq_iff)
  then have "map_option fst (draws genrand_int32 MT_N ?d) = map_option fst (draws genrand_int32 MT_N ?e)"
    using scalar.draws_seq [of ?d MT_N] scalar.draws_seq [of ?e MT_N] by auto
  with outputs_determine_stream [of ?d ?e 2000] show ?thesis by simp
qed



text \<open>
  \<open>genrand_int64\<close> is two draws of 32 bits, one in each half, whichever of its
  two unsequenced calls the compiler makes first.
\<close>

theorem genrand_int64_halves:
  assumes "length (mt d) = MT_N" and "mti d \<le> MT_N"
  shows "\<exists>a b r d'. draws genrand_int32 2 d = Some ([a, b], d') \<and>
    genrand_int64 genrand_int32 high_first d = Some (r, d') \<and>
    ucast (drop_bit 32 r) = (if high_first then a else b) \<and>
    ucast r = (if high_first then b else a)"
proof -
  have "mt_inv d" using assms by (simp add: mt_inv_def)
  from scalar.int64_halves [OF this, of high_first] show ?thesis by blast
qed

theorem genrand_int64_halves_witness:
  "\<exists>a b r d'. draws genrand_int32 2 \<lparr>mt = replicate MT_N 7, cache = [], mti = MT_N\<rparr> = Some ([a, b], d') \<and>
    genrand_int64 genrand_int32 True \<lparr>mt = replicate MT_N 7, cache = [], mti = MT_N\<rparr> = Some (r, d') \<and>
    ucast (drop_bit 32 r) = (if True then a else b) \<and> ucast r = (if True then b else a)"
  by (rule genrand_int64_halves) simp_all

end
