(* ===== verification/FpLib.thy ===== *)
theory FpLib
  imports Prelude
begin

text \<open>
  The integer to single-precision conversions of
  \<^verbatim>\<open>test_conformance/conversions/fplib.cpp\<close>, the references the conversion tests use
  for the rounding modes a host compiler does not offer. A float is its bit pattern; \<open>f32_val\<close>
  reads it as a real. The lemmas show that each directed mode returns the correctly rounded
  float: the order of the patterns is the order of the values, and the pattern that the shifts
  build is the one just below the magnitude.

  \<^verbatim>\<open>-data\<close> overflows for the least \<^verbatim>\<open>int64_t\<close> in the RTZ case (undefined
  in C++); it wraps here, as on every two's complement host.
\<close>

section \<open>Single-precision patterns\<close>

definition f32_sign :: "u32 \<Rightarrow> bool" where "f32_sign b \<longleftrightarrow> bit b 31"
definition f32_mag :: "u32 \<Rightarrow> nat" where "f32_mag b = unat (b AND 0x7fffffff)"
definition f32_finite :: "u32 \<Rightarrow> bool" where "f32_finite b \<longleftrightarrow> f32_mag b < 0x7f800000"

text \<open>The magnitude in units of the least subnormal, \<open>2^-149\<close>.\<close>

definition mag_units :: "nat \<Rightarrow> nat" where
  "mag_units n =
     (let e = n div 2 ^ 23; m = n mod 2 ^ 23
      in if e = 0 then m else (2 ^ 23 + m) * 2 ^ (e - 1))"

definition f32_val :: "u32 \<Rightarrow> real" where
  "f32_val b = (if f32_sign b then - 1 else 1) * (real (mag_units (f32_mag b)) / 2 ^ 149)"

text \<open>
  C's \<^verbatim>\<open>nextafterf\<close> on finite arguments, and the conversion \<^verbatim>\<open>(float)\<close> of
  an integer, which rounds to nearest, ties to even.
\<close>

definition nextafterf :: "u32 \<Rightarrow> u32 \<Rightarrow> u32" where
  "nextafterf x y =
     (if f32_val x = f32_val y then y
      else if f32_mag x = 0 then (y AND 0x80000000) OR 1
      else if f32_val x < f32_val y \<longleftrightarrow> \<not> f32_sign x then x + 1 else x - 1)"

fun ilog2 :: "nat \<Rightarrow> nat" where
  "ilog2 n = (if n < 2 then 0 else Suc (ilog2 (n div 2)))"

declare ilog2.simps [simp del]

definition round_even_f32 :: "nat \<Rightarrow> u32" where
  "round_even_f32 n =
     (if n = 0 then 0
      else
        let k = ilog2 n; base = (127 + k) * 2 ^ 23
        in if k \<le> 23 then word_of_nat (base + (n * 2 ^ (23 - k) - 2 ^ 23))
           else
             let q = n div 2 ^ (k - 23); r = n mod 2 ^ (k - 23); half = 2 ^ (k - 24);
                 up = r > half \<or> r = half \<and> odd q
             in word_of_nat (base + (q - 2 ^ 23) + (if up then 1 else 0)))"

section \<open>The conversions\<close>

datatype roundingMode = qcomRTZ | qcomRTE | qcomRTP | qcomRTN | qcomRoundingModeCount

function clz_loop :: "u64 \<Rightarrow> nat \<Rightarrow> nat" where
  "clz_loop v i =
     (if i < 64 then
        if 0x8000000000000000 AND push_bit i v \<noteq> 0 then i else clz_loop v (i + 1)
      else i)"
  by pat_completeness auto
termination
  by (relation "measure (\<lambda>(_, i). 64 - i)") auto

declare clz_loop.simps [simp del]

definition clz :: "u64 \<Rightarrow> nat" where "clz v = clz_loop v 0"

text \<open>The three blocks that every case of both functions repeats.\<close>

definition exponent_bits :: "u64 \<Rightarrow> u32" where
  "exponent_bits d = push_bit 23 (word_of_nat (127 + 64 - clz d - 1))"

definition mantShift :: "u64 \<Rightarrow> int" where
  "mantShift d = 40 - int (clz d)"

definition mantissa_bits :: "u64 \<Rightarrow> u32" where
  "mantissa_bits d =
     (if 0 \<le> mantShift d then ucast (drop_bit (nat (mantShift d)) d)
      else ucast (push_bit (nat (- mantShift d)) d)) AND 0x7fffff"

definition inExact :: "u64 \<Rightarrow> bool" where
  "inExact d \<longleftrightarrow> 0 \<le> mantShift d \<and>
     push_bit (nat (mantShift d)) (drop_bit (nat (mantShift d)) d) \<noteq> d"

definition qcom_s64_2_f32 :: "u64 \<Rightarrow> bool \<Rightarrow> roundingMode \<Rightarrow> u32" where
  "qcom_s64_2_f32 data sat rnd = (case rnd of
     qcomRTZ \<Rightarrow>
       (if data = 0 then 0
        else
          let sign = sint data < 0;
              data = (if sign then - data else data);
              result = exponent_bits data OR mantissa_bits data
          in if sign then result OR 0x80000000 else result)
   | qcomRTE \<Rightarrow>
       (if sint data < 0 then round_even_f32 (nat (- sint data)) OR 0x80000000
        else round_even_f32 (nat (sint data)))
   | qcomRTP \<Rightarrow>
       (if data = 0 then 0
        else if data = 0x8000000000000000 then 0xdf000000
        else
          let sign = sint data < 0;
              data = (if sign then - data else data);
              result = exponent_bits data OR mantissa_bits data;
              result = (if sign then result OR 0x80000000 else result)
          in if sign then result
             else if inExact data then nextafterf result 0x7f7fffff
             else result)
   | qcomRTN \<Rightarrow>
       (if data = 0 then 0
        else if data = 0x8000000000000000 then 0xdf000000
        else
          let sign = sint data < 0;
              data = (if sign then - data else data);
              result = exponent_bits data OR mantissa_bits data;
              result = (if sign then result OR 0x80000000 else result)
          in if \<not> sign then result
             else if inExact data then nextafterf result 0xff7fffff
             else result)
   | qcomRoundingModeCount \<Rightarrow> 0)"

definition qcom_u64_2_f32 :: "u64 \<Rightarrow> bool \<Rightarrow> roundingMode \<Rightarrow> u32" where
  "qcom_u64_2_f32 data sat rnd = (case rnd of
     qcomRTZ \<Rightarrow>
       (if data = 0 then 0 else exponent_bits data OR mantissa_bits data)
   | qcomRTE \<Rightarrow> round_even_f32 (unat data)
   | qcomRTP \<Rightarrow>
       (if data = 0 then 0
        else
          let result = exponent_bits data OR mantissa_bits data
          in if inExact data then nextafterf result 0x7f7fffff else result)
   | qcomRTN \<Rightarrow>
       (if data = 0 then 0 else exponent_bits data OR mantissa_bits data)
   | qcomRoundingModeCount \<Rightarrow> 0)"

section \<open>The order of the patterns\<close>

lemma mag_units_Suc: "mag_units n < mag_units (Suc n)"
proof -
  let ?e = "n div 2 ^ 23" and ?m = "n mod 2 ^ 23"
  show ?thesis
  proof (cases "Suc ?m = 2 ^ 23")
    case True
    then have "Suc n div 2 ^ 23 = Suc ?e" "Suc n mod 2 ^ 23 = 0"
      by (simp_all add: div_Suc mod_Suc)
    with True show ?thesis
      by (cases ?e) (simp_all add: mag_units_def Let_def)
  next
    case False
    then have "Suc n div 2 ^ 23 = ?e" "Suc n mod 2 ^ 23 = Suc ?m"
      by (simp_all add: div_Suc mod_Suc)
    then show ?thesis by (simp add: mag_units_def Let_def)
  qed
qed

lemma mag_units_mono_iff: "mag_units a < mag_units b \<longleftrightarrow> a < b"
  by (rule strict_mono_less) (simp add: strict_mono_Suc_iff mag_units_Suc)

lemma mag_units_normal:
  assumes "m < 2 ^ 23"
  shows "mag_units (Suc e * 2 ^ 23 + m) = (2 ^ 23 + m) * 2 ^ e"
proof -
  have "(Suc e * 2 ^ 23 + m) div 2 ^ 23 = Suc e" "(Suc e * 2 ^ 23 + m) mod 2 ^ 23 = m"
    using assms by (simp_all only: div_mult_self3 mod_mult_self3) simp_all
  then show ?thesis by (simp only: mag_units_def Let_def) simp
qed

lemma mag_units_next:
  "m < 2 ^ 23 \<Longrightarrow> mag_units (Suc (Suc e * 2 ^ 23 + m)) = (2 ^ 23 + m + 1) * 2 ^ e"
proof (cases "Suc m = 2 ^ 23")
  case True
  then have "Suc (Suc e * 2 ^ 23 + m) = Suc (Suc e) * 2 ^ 23 + 0" by simp
  with True show ?thesis by (simp only: mag_units_normal) simp
next
  case False
  moreover assume "m < 2 ^ 23"
  ultimately have "Suc m < 2 ^ 23" by simp
  from mag_units_normal [OF this, of e] show ?thesis by simp
qed

section \<open>Correct rounding\<close>

definition rounds_down :: "u32 \<Rightarrow> real \<Rightarrow> bool" where
  "rounds_down b x \<longleftrightarrow> f32_finite b \<and> f32_val b \<le> x \<and>
     (\<forall>c. f32_finite c \<longrightarrow> f32_val c \<le> x \<longrightarrow> f32_val c \<le> f32_val b)"

definition rounds_up :: "u32 \<Rightarrow> real \<Rightarrow> bool" where
  "rounds_up b x \<longleftrightarrow> f32_finite b \<and> x \<le> f32_val b \<and>
     (\<forall>c. f32_finite c \<longrightarrow> x \<le> f32_val c \<longrightarrow> f32_val b \<le> f32_val c)"

definition rounds_to_zero :: "u32 \<Rightarrow> real \<Rightarrow> bool" where
  "rounds_to_zero b x \<longleftrightarrow> (if 0 \<le> x then rounds_down b x else rounds_up b x)"

section \<open>What the shifts build\<close>


lemma highest_bit:
  assumes "(d :: u64) \<noteq> 0"
  obtains k where "k < 64" "2 ^ k \<le> unat d" "unat d < 2 ^ Suc k"
proof -
  from assms have "0 < unat d" by (simp add: unat_gt_0)
  then obtain k where "2 ^ k \<le> unat d" "unat d < 2 ^ (k + 1)"
    by (metis ex_power_ivl1 One_nat_def Suc_leI lessI numeral_2_eq_2)
  moreover have "k < 64"
  proof (rule ccontr)
    assume "\<not> k < 64"
    then have "(2::nat) ^ 64 \<le> 2 ^ k" by (intro power_increasing) auto
    with \<open>2 ^ k \<le> unat d\<close> unat_bound [of d] show False by simp
  qed
  ultimately show thesis using that by simp
qed

lemma clz_loop_eq:
  assumes "k < 64" "2 ^ k \<le> unat d" "unat d < 2 ^ Suc k" "i \<le> 63 - k"
  shows "clz_loop d i = 63 - k"
proof -
  have top: "bit d k" and above: "k < j \<Longrightarrow> \<not> bit d j" for j
  proof -
    from assms(2,3) have "unat d div 2 ^ k = 1"
      by (simp add: div_nat_eqI)
    then show "bit d k" by (simp add: bit_unat)
    assume "k < j"
    then have "(2::nat) ^ Suc k \<le> 2 ^ j" by (intro power_increasing) auto
    with assms(3) show "\<not> bit d j" by (simp add: bit_unat)
  qed
  have test: "0x8000000000000000 AND push_bit i d \<noteq> 0 \<longleftrightarrow> bit d (63 - i)" if "i < 64" for i
  proof -
    have "(0x8000000000000000 :: u64) = 2 ^ 63" by simp
    then have "0x8000000000000000 AND push_bit i d \<noteq> 0 \<longleftrightarrow> bit (push_bit i d) 63"
      by (simp only: and.commute [of "2 ^ 63"] and_exp_eq_0_iff_not_bit not_not)
    also have "\<dots> \<longleftrightarrow> bit d (63 - i)" using that by (simp add: bit_push_bit_iff)
    finally show ?thesis .
  qed
  show ?thesis
    using assms(4)
  proof (induction "63 - k - i" arbitrary: i)
    case 0
    with top assms(1) have "i = 63 - k" by simp
    with top assms(1) show ?case
      by (subst clz_loop.simps) (simp only: test, simp)
  next
    case (Suc n)
    then have "i < 63 - k" by simp
    with above have "\<not> bit d (63 - i)" by simp
    with Suc show ?case
      by (subst clz_loop.simps) (simp only: test, simp)
  qed
qed

lemma unat_ucast_mask23:
  "unat (ucast (x :: u64) AND 0x7fffff :: u32) = unat x mod 2 ^ 23"
proof -
  have "(0x7fffff :: u32) = mask 23" by (simp add: mask_eq_exp_minus_1)
  moreover have "ucast x AND mask 23 = (ucast (take_bit 23 x) :: u32)"
    by (rule bit_word_eqI) (auto simp: bit_simps)
  ultimately have "ucast x AND 0x7fffff = (ucast (take_bit 23 x) :: u32)" by simp
  then show ?thesis
    by (simp add: unsigned_ucast_eq unsigned_take_bit_eq) (simp add: take_bit_eq_mod)
qed

lemma exponent_or_mantissa:
  "unat m < 2 ^ 23 \<Longrightarrow> push_bit 23 x OR m = push_bit 23 x + (m :: u32)"
proof -
  assume m: "unat m < 2 ^ 23"
  have "\<not> bit m n" if "23 \<le> n" for n
  proof -
    have "(2::nat) ^ 23 \<le> 2 ^ n" using that by (intro power_increasing) auto
    with m show ?thesis by (simp add: bit_unat)
  qed
  then have "push_bit 23 x AND m = 0"
    by (intro bit_word_eqI) (auto simp: bit_simps)
  then show ?thesis by (simp add: disjunctive_add_eq_or)
qed

lemma significand:
  assumes k: "k < 64" "2 ^ k \<le> unat d" "unat d < 2 ^ Suc k"
  shows "mantShift d = int k - 23"
    and "\<exists>q. 2 ^ 23 \<le> q \<and> q < 2 ^ 24 \<and> unat (mantissa_bits d) = q - 2 ^ 23 \<and>
      q * 2 ^ k \<le> unat d * 2 ^ 23 \<and> unat d * 2 ^ 23 < (q + 1) * 2 ^ k \<and>
      (inExact d \<longleftrightarrow> q * 2 ^ k \<noteq> unat d * 2 ^ 23)"
proof -
  have "clz d = 63 - k" using clz_loop_eq [OF k] by (simp add: clz_def)
  with k(1) show ms: "mantShift d = int k - 23" by (simp add: mantShift_def)
  show "\<exists>q. 2 ^ 23 \<le> q \<and> q < 2 ^ 24 \<and> unat (mantissa_bits d) = q - 2 ^ 23 \<and>
      q * 2 ^ k \<le> unat d * 2 ^ 23 \<and> unat d * 2 ^ 23 < (q + 1) * 2 ^ k \<and>
      (inExact d \<longleftrightarrow> q * 2 ^ k \<noteq> unat d * 2 ^ 23)"
  proof (cases "23 \<le> k")
    case True
    define s where "s = k - 23"
    define q where "q = unat d div 2 ^ s"
    have ks: "k = s + 23" using True by (simp add: s_def)
    have "2 ^ 23 \<le> q" "q < 2 ^ 24"
      using k(2,3) by (simp_all add: q_def ks power_add div_le_mono less_eq_div_iff_mult_less_eq div_less_iff_less_mult)
    moreover have "q mod 2 ^ 23 = q - 2 ^ 23"
      using calculation by (simp add: le_mod_geq)
    moreover have d: "unat (drop_bit s d) = q"
      unfolding q_def by (rule unat_drop)
    moreover have "nat (mantShift d) = s" "0 \<le> mantShift d" using ms ks by simp_all
    moreover have qd: "q * 2 ^ s \<le> unat d" by (simp add: q_def)
    moreover have "unat d < (q + 1) * 2 ^ s"
      by (simp add: q_def) (metis add.commute dividend_less_div_times pos2 zero_less_power)
    moreover have "unat (push_bit s (drop_bit s d)) = q * 2 ^ s"
      using qd unat_bound [of d] by (simp add: unat_push d)
    then have "push_bit s (drop_bit s d) = d \<longleftrightarrow> q * 2 ^ s = unat d"
      by (metis word_unat_eq_iff)
    ultimately have "unat (mantissa_bits d) = q - 2 ^ 23"
        "inExact d \<longleftrightarrow> q * 2 ^ k \<noteq> unat d * 2 ^ 23"
        "q * 2 ^ k \<le> unat d * 2 ^ 23" "unat d * 2 ^ 23 < (q + 1) * 2 ^ k"
      by (simp_all add: mantissa_bits_def inExact_def unat_ucast_mask23 ks power_add)
    with \<open>2 ^ 23 \<le> q\<close> \<open>q < 2 ^ 24\<close> show ?thesis by blast
  next
    case False
    define s where "s = 23 - k"
    define q where "q = unat d * 2 ^ s"
    have ks: "s + k = 23" using False by (simp add: s_def)
    have "(2::nat) ^ s * 2 ^ k = 2 ^ 23" by (simp flip: power_add add: ks)
    then have qk: "q * 2 ^ k = unat d * 2 ^ 23" by (simp add: q_def mult.assoc)
    have "2 ^ 23 \<le> q"
      using k(2) ks mult_le_mono1 [OF k(2), of "2 ^ s"] by (simp add: q_def flip: power_add add: add.commute)
    moreover have "q < 2 ^ 24"
      using k(3) mult_less_mono1 [OF k(3), of "2 ^ s"] ks
      by (simp add: q_def flip: power_add power_Suc add: add.commute)
    moreover have "q mod 2 ^ 23 = q - 2 ^ 23"
      using calculation by (simp add: le_mod_geq)
    moreover have "nat (- mantShift d) = s" "\<not> 0 \<le> mantShift d" using ms ks False by simp_all
    moreover have "unat (push_bit s d) = q"
      using \<open>q < 2 ^ 24\<close> by (simp add: unat_push q_def)
    ultimately have "unat (mantissa_bits d) = q - 2 ^ 23" "\<not> inExact d"
      by (simp_all add: mantissa_bits_def inExact_def unat_ucast_mask23)
    with \<open>2 ^ 23 \<le> q\<close> \<open>q < 2 ^ 24\<close> qk show ?thesis
      by (intro exI [of _ q]) simp
  qed
qed

lemma truncated_pattern:
  assumes "d \<noteq> 0"
  defines "f \<equiv> exponent_bits d OR mantissa_bits d"
  shows "unat f + 1 < 0x7f800000" "0 < unat f"
    and "mag_units (unat f) \<le> unat d * 2 ^ 149"
    and "unat d * 2 ^ 149 < mag_units (Suc (unat f))"
    and "inExact d \<longleftrightarrow> mag_units (unat f) \<noteq> unat d * 2 ^ 149"
proof -
  obtain k where k: "k < 64" "2 ^ k \<le> unat d" "unat d < 2 ^ Suc k"
    using highest_bit [OF \<open>d \<noteq> 0\<close>] .
  obtain q where q: "2 ^ 23 \<le> q" "q < 2 ^ 24" "unat (mantissa_bits d) = q - 2 ^ 23"
      "q * 2 ^ k \<le> unat d * 2 ^ 23" "unat d * 2 ^ 23 < (q + 1) * 2 ^ k"
      "inExact d \<longleftrightarrow> q * 2 ^ k \<noteq> unat d * 2 ^ 23"
    using significand(2) [OF k] by blast
  define m where "m = q - 2 ^ 23"
  have m: "m < 2 ^ 23" "q = 2 ^ 23 + m" using q(1,2) by (simp_all add: m_def)
  define e where "e = 126 + k"
  have ex: "unat (exponent_bits d) = Suc e * 2 ^ 23"
  proof -
    have "clz d = 63 - k" using clz_loop_eq [OF k] by (simp add: clz_def)
    then have "127 + 64 - clz d - 1 = Suc e" using k(1) by (simp add: e_def)
    moreover have w: "unat (word_of_nat (Suc e) :: u32) = Suc e"
      using k(1) by (intro unat_word_of_nat) (simp add: e_def)
    moreover have "Suc e * 2 ^ 23 < 2 ^ LENGTH(32)" using k(1) by (simp add: e_def)
    then have "unat (push_bit 23 (word_of_nat (Suc e) :: u32)) = Suc e * 2 ^ 23"
      by (subst unat_push) (simp_all only: w)
    ultimately show ?thesis by (simp only: exponent_bits_def)
  qed
  have "f = exponent_bits d + mantissa_bits d"
    unfolding f_def exponent_bits_def
  proof (rule exponent_or_mantissa)
    show "unat (mantissa_bits d) < 2 ^ 23" using q(2) by (simp add: q(3))
  qed
  moreover have "Suc e * 2 ^ 23 + m < 2 ^ LENGTH(32)" using k(1) m(1) by (simp add: e_def)
  moreover have "unat (mantissa_bits d) = m" using q(3) by (simp only: m_def)
  ultimately have f: "unat f = Suc e * 2 ^ 23 + m"
    by (simp only: unat_word_ariths ex) simp
  show "unat f + 1 < 0x7f800000" "0 < unat f"
    using k(1) m(1) by (simp_all add: f e_def)
  have lo: "mag_units (unat f) = q * 2 ^ k * 2 ^ 126"
    using mag_units_normal [OF m(1), of e] by (simp add: f m(2) e_def power_add)
  have hi: "mag_units (Suc (unat f)) = (q + 1) * 2 ^ k * 2 ^ 126"
    using mag_units_next [OF m(1), of e] by (simp add: f m(2) e_def power_add)
  have d: "unat d * 2 ^ 149 = unat d * 2 ^ 23 * 2 ^ 126" by simp
  have pos: "0 < (2::nat) ^ 126" by simp
  show "mag_units (unat f) \<le> unat d * 2 ^ 149"
    unfolding lo d using q(4) by (rule mult_le_mono1)
  show "unat d * 2 ^ 149 < mag_units (Suc (unat f))"
    unfolding hi d using q(5) pos by (rule mult_less_mono1)
  show "inExact d \<longleftrightarrow> mag_units (unat f) \<noteq> unat d * 2 ^ 149"
    unfolding lo d q(6) mult_cancel2 by simp
qed

lemma f32_pos:
  assumes "unat b < 2 ^ 31"
  shows "\<not> f32_sign b" "f32_mag b = unat b"
    and "f32_sign (b OR 0x80000000)" "f32_mag (b OR 0x80000000) = unat b"
proof -
  have top: "(0x80000000 :: u32) = push_bit 31 1" by simp
  have low: "(0x7fffffff :: u32) = mask 31" by (simp add: mask_eq_exp_minus_1)
  have b: "take_bit 31 b = b"
    using assms by (simp add: word_unat_eq_iff unsigned_take_bit_eq) (simp add: take_bit_eq_mod)
  then have nb: "\<not> bit b n" if "31 \<le> n" for n
    using that by (metis bit_take_bit_iff not_less)
  then show "\<not> f32_sign b" by (simp add: f32_sign_def)
  have "b AND 0x7fffffff = b" unfolding low using b by (simp add: take_bit_eq_mask)
  then show "f32_mag b = unat b" by (simp add: f32_mag_def)
  have bt: "bit (push_bit 31 1 :: u32) n \<longleftrightarrow> n = 31" for n
    by (subst bit_push_bit_iff) (auto simp: bit_1_iff)
  then show "f32_sign (b OR 0x80000000)"
    unfolding f32_sign_def top bit_or_iff by simp
  have "(b OR push_bit 31 1) AND mask 31 = b"
    by (rule bit_word_eqI, simp only: bit_or_iff bit_and_iff bt bit_mask_iff) (use nb not_less in auto)
  then show "f32_mag (b OR 0x80000000) = unat b"
    unfolding f32_mag_def top low by simp
qed

lemma f32_val_pos: "unat b < 2 ^ 31 \<Longrightarrow> f32_val b = real (mag_units (unat b)) / 2 ^ 149"
  by (simp add: f32_val_def f32_pos)

lemma f32_val_neg:
  "unat b < 2 ^ 31 \<Longrightarrow> f32_val (b OR 0x80000000) = - (real (mag_units (unat b)) / 2 ^ 149)"
  by (simp add: f32_val_def f32_pos)

text \<open>A magnitude between two neighbours.\<close>

definition between :: "nat \<Rightarrow> nat \<Rightarrow> bool" where
  "between n y \<longleftrightarrow> n + 1 < 0x7f800000 \<and> mag_units n \<le> y \<and> y < mag_units (Suc n)"

lemma real_units_le_iff [simp]:
  "real a / 2 ^ 149 \<le> real b / 2 ^ 149 \<longleftrightarrow> a \<le> b"
  by (simp add: divide_le_cancel)

lemma between_le: "between n y \<Longrightarrow> mag_units m \<le> y \<Longrightarrow> mag_units m \<le> mag_units n"
  using mag_units_mono_iff [of m "Suc n"] mag_units_mono_iff [of n m]
  by (auto simp: between_def not_less [symmetric])

lemma between_ge:
  "between n y \<Longrightarrow> y \<le> mag_units m \<Longrightarrow> mag_units n < y \<Longrightarrow> mag_units (Suc n) \<le> mag_units m"
  using mag_units_mono_iff [of n m] mag_units_mono_iff [of m "Suc n"]
  by (auto simp: between_def not_less [symmetric])

lemma finite_pos: "unat b < 0x7f800000 \<Longrightarrow> f32_finite b \<and> f32_finite (b OR 0x80000000)"
  using f32_pos [of b] by (simp add: f32_finite_def)

lemma f32_val_cases:
  obtains "f32_val c = real (mag_units (f32_mag c)) / 2 ^ 149" "\<not> f32_sign c"
  | "f32_val c = - (real (mag_units (f32_mag c)) / 2 ^ 149)" "f32_sign c"
  by (cases "f32_sign c") (simp_all add: f32_val_def)

lemma rounds_down_trunc:
  assumes "between (unat f) y"
  shows "rounds_down f (real y / 2 ^ 149)"
proof -
  have f: "unat f < 2 ^ 31" "unat f < 0x7f800000" using assms by (simp_all add: between_def)
  have "f32_val c \<le> f32_val f" if "f32_val c \<le> real y / 2 ^ 149" for c
    using that between_le [OF assms, of "f32_mag c"]
    by (cases c rule: f32_val_cases) (auto simp: f32_val_pos [OF f(1)] intro: order_trans [of _ 0])
  with finite_pos [OF f(2)] assms show ?thesis
    by (simp add: rounds_down_def f32_val_pos [OF f(1)] between_def)
qed

lemma rounds_up_next:
  assumes "between (unat f) y" and "mag_units (unat f) \<noteq> y"
  shows "rounds_up (f + 1) (real y / 2 ^ 149)"
proof -
  have lt: "mag_units (unat f) < y" using assms by (simp add: between_def)
  have f: "unat f + 1 < 0x7f800000" using assms by (simp add: between_def)
  have s: "unat (f + 1) = Suc (unat f)" using f by (simp add: unat_word_ariths)
  then have s': "unat (f + 1) < 2 ^ 31" "unat (f + 1) < 0x7f800000" using f by simp_all
  have "f32_val (f + 1) \<le> f32_val c" if c: "real y / 2 ^ 149 \<le> f32_val c" for c
  proof (cases c rule: f32_val_cases)
    case 1
    with c between_ge [OF assms(1) _ lt, of "f32_mag c"] show ?thesis
      by (simp add: f32_val_pos [OF s'(1)] s)
  next
    case 2
    have "0 < real y / 2 ^ 149" using lt by simp
    with c 2 show ?thesis by (smt (verit) divide_nonneg_nonneg of_nat_0_le_iff zero_le_power)
  qed
  with finite_pos [OF s'(2)] assms(1) show ?thesis
    by (simp add: rounds_up_def f32_val_pos [OF s'(1)] between_def s less_imp_le)
qed

text \<open>The lower half of the order mirrors the upper.\<close>

lemma bit_top: "bit (0x80000000 :: u32) n \<longleftrightarrow> n = 31"
proof -
  have "(0x80000000 :: u32) = push_bit 31 1" by simp
  then show ?thesis by (simp only: bit_push_bit_iff) (auto simp: bit_1_iff)
qed

lemma f32_val_flip:
  "\<exists>c'. f32_val c' = - f32_val c \<and> (f32_finite c' \<longleftrightarrow> f32_finite c)"
proof -
  let ?c = "c XOR 0x80000000"
  have low: "(0x7fffffff :: u32) = mask 31" by (simp add: mask_eq_exp_minus_1)
  have "?c AND mask 31 = c AND mask 31"
    by (rule bit_word_eqI) (simp only: bit_xor_iff bit_and_iff bit_top bit_mask_iff, auto)
  then have "f32_mag ?c = f32_mag c" unfolding f32_mag_def low by simp
  moreover have "f32_sign ?c \<longleftrightarrow> \<not> f32_sign c"
    by (simp only: f32_sign_def bit_xor_iff bit_top) simp
  ultimately show ?thesis
    by (intro exI [of _ ?c]) (simp add: f32_val_def f32_finite_def)
qed

lemma rounds_mirror:
  assumes "unat b < 2 ^ 31"
  shows "rounds_up (b OR 0x80000000) (- x) \<longleftrightarrow> rounds_down b x"
    and "rounds_down (b OR 0x80000000) (- x) \<longleftrightarrow> rounds_up b x"
proof -
  have v: "f32_val (b OR 0x80000000) = - f32_val b"
    using assms by (simp add: f32_val_pos f32_val_neg)
  have fin: "f32_finite (b OR 0x80000000) \<longleftrightarrow> f32_finite b"
    using assms by (simp add: f32_finite_def f32_pos)
  show "rounds_up (b OR 0x80000000) (- x) \<longleftrightarrow> rounds_down b x"
    unfolding rounds_up_def rounds_down_def v fin
    by (metis f32_val_flip neg_le_iff_le minus_minus)
  show "rounds_down (b OR 0x80000000) (- x) \<longleftrightarrow> rounds_up b x"
    unfolding rounds_up_def rounds_down_def v fin
    by (metis f32_val_flip neg_le_iff_le minus_minus)
qed

lemma or_top: "unat b < 2 ^ 31 \<Longrightarrow> b OR 0x80000000 = b + (0x80000000 :: u32)"
proof -
  assume "unat b < 2 ^ 31"
  then have "\<not> bit b 31" by (simp add: bit_unat)
  then have "b AND 0x80000000 = 0"
    by (intro bit_word_eqI) (simp only: bit_and_iff bit_top, auto)
  then show ?thesis by (simp add: disjunctive_add_eq_or)
qed

text \<open>One step of \<open>nextafterf\<close> towards the largest float.\<close>

lemma nextafter_away:
  assumes f: "between (unat f) y" "0 < unat f"
  shows "nextafterf f 0x7f7fffff = f + 1"
    and "nextafterf (f OR 0x80000000) 0xff7fffff = (f + 1) OR 0x80000000"
proof -
  have lt: "unat f < 2 ^ 31" "unat f < 0x7f7fffff" using f by (simp_all add: between_def)
  have big: "unat (0x7f7fffff :: u32) < 2 ^ 31" by simp
  have neg: "(0xff7fffff :: u32) = 0x7f7fffff OR 0x80000000" by (simp add: or_top)
  have m: "mag_units (unat f) < mag_units (unat (0x7f7fffff :: u32))"
    using lt(2) by (simp add: mag_units_mono_iff)
  then have "real (mag_units (unat f)) / 2 ^ 149 < real (mag_units (unat (0x7f7fffff :: u32))) / 2 ^ 149"
    by (intro divide_strict_right_mono) (simp_all only: of_nat_less_iff, simp)
  then show "nextafterf f 0x7f7fffff = f + 1"
      "nextafterf (f OR 0x80000000) 0xff7fffff = (f + 1) OR 0x80000000"
    unfolding neg nextafterf_def f32_val_pos [OF lt(1)] f32_val_pos [OF big] f32_val_neg [OF lt(1)]
      f32_val_neg [OF big] f32_pos [OF lt(1)]
    using f(2) f32_pos [OF lt(1)] lt by (simp_all add: or_top unat_word_ariths)
qed

lemma exact_rounds:
  assumes "f32_finite b" "f32_val b = x"
  shows "rounds_down b x" "rounds_up b x"
  using assms by (auto simp: rounds_down_def rounds_up_def)

text \<open>The truncated pattern, and its successor, are the neighbours of the integer.\<close>

lemma trunc_rounds:
  assumes "d \<noteq> 0"
  defines "f \<equiv> exponent_bits d OR mantissa_bits d"
  shows "rounds_down f (real (unat d))" and "unat f < 2 ^ 31"
    and "rounds_up (if inExact d then nextafterf f 0x7f7fffff else f) (real (unat d))"
    and "inExact d \<Longrightarrow> nextafterf (f OR 0x80000000) 0xff7fffff = nextafterf f 0x7f7fffff OR 0x80000000"
    and "unat (nextafterf f 0x7f7fffff) < 2 ^ 31"
proof -
  note t = truncated_pattern [OF assms(1), folded f_def]
  define y where "y = unat d * 2 ^ 149"
  have b: "between (unat f) y" using t(1,3,4) by (simp add: between_def y_def)
  have y: "real (unat d) = real y / 2 ^ 149" unfolding y_def of_nat_mult by simp
  show "unat f < 2 ^ 31" using t(1) by simp
  show "rounds_down f (real (unat d))" unfolding y by (rule rounds_down_trunc [OF b])
  show "rounds_up (if inExact d then nextafterf f 0x7f7fffff else f) (real (unat d))"
  proof (cases "inExact d")
    case True
    with t(5) have "mag_units (unat f) \<noteq> y" by (simp add: y_def)
    from rounds_up_next [OF b this] True show ?thesis
      unfolding y by (simp add: nextafter_away [OF b t(2)])
  next
    case False
    with t(5) have "mag_units (unat f) = y" by (simp add: y_def)
    then have "f32_val f = real y / 2 ^ 149"
      using f32_val_pos [of f] t(1) by simp
    with False finite_pos [of f] t(1) show ?thesis
      unfolding y by (simp add: exact_rounds)
  qed
  show "nextafterf (f OR 0x80000000) 0xff7fffff = nextafterf f 0x7f7fffff OR 0x80000000"
    by (simp add: nextafter_away [OF b t(2)])
  show "unat (nextafterf f 0x7f7fffff) < 2 ^ 31"
    using t(1) by (simp add: nextafter_away [OF b t(2)] unat_word_ariths)
qed

lemma zero_rounds: "rounds_down 0 0" "rounds_up 0 0"
  by (rule exact_rounds; simp add: f32_finite_def f32_val_def f32_mag_def mag_units_def)+

lemma unat_minus_sint:
  assumes "sint (d :: u64) < 0"
  shows "real (unat (- d)) = - real_of_int (sint d)"
proof -
  have "- (2 ^ 63) \<le> sint d" using sint_greater_eq [of d] by simp
  then have "uint (word_of_int (- sint d) :: u64) = - sint d"
    using assms by (subst uint_word_of_int_eq, intro take_bit_int_eq_self) simp_all
  moreover have "word_of_int (- sint d) = - d" by (simp flip: wi_hom_neg)
  ultimately have "int (unat (- d)) = - sint d" by simp
  then show ?thesis by (metis of_int_minus of_int_of_nat_eq)
qed

lemma unat_sint_nonneg: "0 \<le> sint (d :: u64) \<Longrightarrow> real (unat d) = real_of_int (sint d)"
proof -
  assume "0 \<le> sint d"
  moreover have "sint d < 2 ^ 63" using sint_less [of d] by simp
  ultimately have "take_bit 64 (sint d) = sint d"
    by (intro take_bit_int_eq_self) simp_all
  moreover have "uint d = take_bit LENGTH(64) (sint d)" by (rule uint_sint)
  ultimately have "int (unat d) = sint d" by simp
  then show ?thesis by (metis of_int_of_nat_eq)
qed

section \<open>Properties\<close>

text \<open>
  C6. \<open>qcom_u64_2_f32\<close> rounds correctly in every directed mode: for each of the 2^64
  inputs the RTZ and RTN results are the greatest finite float not above the integer, and the
  RTP result is the least one not below it.
\<close>

theorem qcom_u64_2_f32_correct:
  "rounds_to_zero (qcom_u64_2_f32 d sat qcomRTZ) (real (unat d)) \<and>
   rounds_up (qcom_u64_2_f32 d sat qcomRTP) (real (unat d)) \<and>
   rounds_down (qcom_u64_2_f32 d sat qcomRTN) (real (unat d))"
proof (cases "d = 0")
  case True
  then show ?thesis by (simp add: qcom_u64_2_f32_def rounds_to_zero_def zero_rounds)
next
  case False
  define x where "x = real (unat d)"
  have "0 \<le> x" unfolding x_def by (rule of_nat_0_le_iff)
  with trunc_rounds [OF False, folded x_def] False show ?thesis
    unfolding x_def [symmetric] by (simp add: qcom_u64_2_f32_def rounds_to_zero_def Let_def)
qed

text \<open>
  \<open>qcom_s64_2_f32\<close> rounds correctly in every directed mode, for each of the 2^64
  inputs, the least \<^verbatim>\<open>int64_t\<close> included: RTZ towards zero, RTP up, RTN down.
\<close>

theorem qcom_s64_2_f32_correct:
  "rounds_to_zero (qcom_s64_2_f32 d sat qcomRTZ) (real_of_int (sint d)) \<and>
   rounds_up (qcom_s64_2_f32 d sat qcomRTP) (real_of_int (sint d)) \<and>
   rounds_down (qcom_s64_2_f32 d sat qcomRTN) (real_of_int (sint d))"
proof -
  have least: "rounds_down 0xdf000000 (real_of_int (sint d))" "rounds_up 0xdf000000 (real_of_int (sint d))"
    if "d = 0x8000000000000000"
  proof -
    have "f32_val 0xdf000000 = real_of_int (sint d)"
      using f32_val_neg [of "0x5f000000"] that
      by (simp add: or_top mag_units_def)
    moreover have "f32_finite 0xdf000000" using finite_pos [of "0x5f000000"] by (simp add: or_top)
    ultimately show "rounds_down 0xdf000000 (real_of_int (sint d))"
      "rounds_up 0xdf000000 (real_of_int (sint d))" by (rule exact_rounds [rotated])+
  qed
  define x where "x = real_of_int (sint d)"
  note least = least [folded x_def]
  consider "d = 0" | "d \<noteq> 0" "sint d < 0" | "d \<noteq> 0" "0 \<le> sint d" by linarith
  then show ?thesis
  proof cases
    case 1
    then have "x = 0" by (simp add: x_def)
    with 1 show ?thesis unfolding x_def [symmetric] by (simp add: qcom_s64_2_f32_def rounds_to_zero_def zero_rounds)
  next
    case 2
    have "- d \<noteq> 0" using 2 by simp
    have "x < 0" unfolding x_def of_int_less_0_iff by (rule 2(2))
    note t = trunc_rounds [OF \<open>- d \<noteq> 0\<close>, unfolded unat_minus_sint [OF 2(2)], folded x_def]
    show ?thesis unfolding x_def [symmetric]
      using t rounds_mirror [OF t(2), of "- x"] rounds_mirror [OF t(5), of "- x"] 2 least \<open>x < 0\<close>
      by (cases "inExact (- d)") (simp_all add: qcom_s64_2_f32_def rounds_to_zero_def Let_def)
  next
    case 3
    have "0 \<le> x" unfolding x_def of_int_0_le_iff by (rule 3(2))
    note t = trunc_rounds [OF 3(1), unfolded unat_sint_nonneg [OF 3(2)], folded x_def]
    from t 3 least \<open>0 \<le> x\<close> show ?thesis unfolding x_def [symmetric]
      by (cases "inExact d") (simp_all add: qcom_s64_2_f32_def rounds_to_zero_def Let_def)
  qed
qed

end
