(* ===== verification/IntegerVerify.thy ===== *)
theory IntegerVerify
  imports Prelude
begin

text \<open>
  The checkers of \<^verbatim>\<open>integer_ops/verification_and_generation_functions.cpp\<close>:
  \<^verbatim>\<open>verify_long\<close> to \<^verbatim>\<open>verify_uchar\<close>, which recompute 23
  integer operators on the host and compare the device's results. The eight functions have one
  shape and differ in the C type they compute in: the narrow types are promoted to
  \<^verbatim>\<open>int\<close> first. A \<open>ctype\<close> holds those differences; the locale
  \<open>c_integer\<close> says what makes one right, proves the checker against the operators of
  OpenCL C on unbounded integers (\<open>cl_ref\<close>), and is interpreted on all eight types.

  Overflow of signed \<^verbatim>\<open>+ - * <<\<close> is undefined in C++; it wraps here, as
  the device results the checker compares with do. The messages it prints are not modelled.
\<close>

section \<open>Types and operators\<close>

text \<open>
  \<open>promote\<close> is the integer promotion, \<open>psigned\<close> says whether the promoted type is
  signed, \<open>undef\<close> is the test that makes \<^verbatim>\<open>/\<close> and \<^verbatim>\<open>%\<close> skip an
  element, \<open>shift_bits\<close> the number of bits of \<open>shift_mask\<close> at a vector size.
\<close>

record ('a, 'p) ctype =
  promote :: "'a \<Rightarrow> 'p"
  psigned :: bool
  undef :: "'a \<Rightarrow> 'a \<Rightarrow> bool"
  shift_bits :: "nat \<Rightarrow> nat"

definition CL_MIN :: "'a::len word" where "CL_MIN = push_bit (LENGTH('a) - 1) 1"

definition signed_undef :: "'a::len word \<Rightarrow> 'a word \<Rightarrow> bool" where
  "signed_undef a b \<longleftrightarrow> b = 0 \<or> b = - 1 \<and> a = CL_MIN"

definition unsigned_undef :: "'a::len word \<Rightarrow> 'a word \<Rightarrow> bool" where
  "unsigned_undef a b \<longleftrightarrow> b = 0"

definition long_type :: "(u64, u64) ctype" where
  "long_type = \<lparr>promote = id, psigned = True, undef = signed_undef, shift_bits = (\<lambda>_. 6)\<rparr>"

definition ulong_type :: "(u64, u64) ctype" where
  "ulong_type = \<lparr>promote = id, psigned = False, undef = unsigned_undef, shift_bits = (\<lambda>_. 6)\<rparr>"

definition int_type :: "(u32, u32) ctype" where
  "int_type = \<lparr>promote = id, psigned = True, undef = signed_undef, shift_bits = (\<lambda>_. 5)\<rparr>"

definition uint_type :: "(u32, u32) ctype" where
  "uint_type = \<lparr>promote = id, psigned = False, undef = unsigned_undef, shift_bits = (\<lambda>_. 5)\<rparr>"

definition short_type :: "(u16, u32) ctype" where
  "short_type = \<lparr>promote = scast, psigned = True, undef = signed_undef,
     shift_bits = (\<lambda>vector_size. if vector_size = 1 then 5 else 4)\<rparr>"

definition ushort_type :: "(u16, u32) ctype" where
  "ushort_type = \<lparr>promote = ucast, psigned = True, undef = unsigned_undef,
     shift_bits = (\<lambda>vector_size. if vector_size = 1 then 5 else 4)\<rparr>"

definition char_type :: "(u8, u32) ctype" where
  "char_type = \<lparr>promote = scast, psigned = True, undef = signed_undef,
     shift_bits = (\<lambda>vector_size. if vector_size = 1 then 5 else 3)\<rparr>"

definition uchar_type :: "(u8, u32) ctype" where
  "uchar_type = \<lparr>promote = ucast, psigned = True, undef = unsigned_undef,
     shift_bits = (\<lambda>vector_size. if vector_size = 1 then 5 else 3)\<rparr>"

text \<open>The operators of the promoted type.\<close>

definition c_div :: "bool \<Rightarrow> 'p::len word \<Rightarrow> 'p word \<Rightarrow> 'p word" where
  "c_div s a b = (if s then c_sdiv a b else a div b)"

definition c_mod :: "bool \<Rightarrow> 'p::len word \<Rightarrow> 'p word \<Rightarrow> 'p word" where
  "c_mod s a b = (if s then c_srem a b else a mod b)"

definition c_shr :: "bool \<Rightarrow> 'p::len word \<Rightarrow> 'p word \<Rightarrow> 'p word" where
  "c_shr s a k = (if s then signed_drop_bit (unat k) a else drop_bit (unat k) a)"

definition c_less :: "bool \<Rightarrow> 'p::len word \<Rightarrow> 'p word \<Rightarrow> bool" where
  "c_less s a b \<longleftrightarrow> (if s then sint a < sint b else a < b)"

section \<open>One element\<close>

text \<open>What the switch does: assign \<open>r\<close>, go to the next element, or return -1.\<close>

datatype 'a elem = Assign 'a | Continue | Invalid

text \<open>Comparisons give 1/0, which vectors turn into -1/0.\<close>

definition truth :: "nat \<Rightarrow> bool \<Rightarrow> 'a::len word" where
  "truth vector_size c =
     (let r = (if c then 1 else 0) in if vector_size \<noteq> 1 \<and> r \<noteq> 0 then - 1 else r)"

definition elem_result ::
  "('a::len word, 'p::len word) ctype \<Rightarrow> int \<Rightarrow> nat \<Rightarrow> 'a word list \<Rightarrow> 'a word list \<Rightarrow> nat \<Rightarrow> nat \<Rightarrow> 'a word elem option" where
  "elem_result T test vector_size inptrA inptrB j i =
     (let p = promote T; s = psigned T; shift_mask = mask (shift_bits T vector_size);
          value = (\<lambda>f. do { a \<leftarrow> rd inptrA i; b \<leftarrow> rd inptrB i; Some (Assign (ucast (f (p a) (p b)))) });
          divide = (\<lambda>f. do { a \<leftarrow> rd inptrA i; b \<leftarrow> rd inptrB i;
            Some (if undef T a b then Continue else Assign (ucast (f (p a) (p b)))) });
          by_scalar = (\<lambda>f. do { a \<leftarrow> rd inptrA i; b \<leftarrow> rd inptrB j;
            Some (Assign (ucast (f (p a) (p b AND shift_mask)))) });
          compare = (\<lambda>f. do { a \<leftarrow> rd inptrA i; b \<leftarrow> rd inptrB i;
            Some (Assign (truth vector_size (f (p a) (p b)))) })
      in if test = 0 then value (+)
         else if test = 1 then value (-)
         else if test = 2 then value (*)
         else if test = 3 then divide (c_div s)
         else if test = 4 then divide (c_mod s)
         else if test = 5 then value (AND)
         else if test = 6 then value (OR)
         else if test = 7 then value (XOR)
         else if test = 8 then value (\<lambda>a b. c_shr s a (b AND shift_mask))
         else if test = 9 then value (\<lambda>a b. push_bit (unat (b AND shift_mask)) a)
         else if test = 10 then by_scalar (c_shr s)
         else if test = 11 then by_scalar (\<lambda>a k. push_bit (unat k) a)
         else if test = 12 then do { a \<leftarrow> rd inptrA i; Some (Assign (ucast (NOT (p a)))) }
         else if test = 13 then do {
           a \<leftarrow> rd inptrA j; b \<leftarrow> rd inptrB j;
           r \<leftarrow> (if c_less s (p a) (p b) then rd inptrA i else rd inptrB i);
           Some (Assign r) }
         else if test = 14 then do {
           a \<leftarrow> rd inptrA i;
           c \<leftarrow> (if a \<noteq> 0 then do { b \<leftarrow> rd inptrB i; Some (b \<noteq> 0) } else Some False);
           Some (Assign (truth vector_size c)) }
         else if test = 15 then do {
           a \<leftarrow> rd inptrA i;
           c \<leftarrow> (if a \<noteq> 0 then Some True else do { b \<leftarrow> rd inptrB i; Some (b \<noteq> 0) });
           Some (Assign (truth vector_size c)) }
         else if test = 16 then compare (c_less s)
         else if test = 17 then compare (\<lambda>a b. c_less s b a)
         else if test = 18 then compare (\<lambda>a b. \<not> c_less s b a)
         else if test = 19 then compare (\<lambda>a b. \<not> c_less s a b)
         else if test = 20 then compare (=)
         else if test = 21 then compare (\<noteq>)
         else if test = 22 then do { a \<leftarrow> rd inptrA i; Some (Assign (truth vector_size (a = 0))) }
         else Some Invalid)"

section \<open>The loops\<close>

definition MAX_ERRORS_TO_PRINT :: nat where "MAX_ERRORS_TO_PRINT = 10"

text \<open>
  The inner loop over one vector: \<open>Inl\<close> an early return, \<open>Inr\<close> the error count it
  leaves. In the outer loop a vector size of 0 never advances: the function does not return,
  which is \<open>None\<close> like an access out of range.
\<close>

function verify_vector ::
  "(nat \<Rightarrow> 'a elem option) \<Rightarrow> 'a list \<Rightarrow> nat \<Rightarrow> nat \<Rightarrow> nat \<Rightarrow> (int + nat) option" where
  "verify_vector el outptr hi i count =
     (if i < hi then do {
        e \<leftarrow> el i;
        (case e of
           Invalid \<Rightarrow> Some (Inl (- 1))
         | Continue \<Rightarrow> verify_vector el outptr hi (i + 1) count
         | Assign r \<Rightarrow> do {
             out \<leftarrow> rd outptr i;
             if r \<noteq> out then
               if count + 1 \<ge> MAX_ERRORS_TO_PRINT then Some (Inl (- 1))
               else verify_vector el outptr hi (i + 1) (count + 1)
             else verify_vector el outptr hi (i + 1) count })
      } else Some (Inr count))"
  by pat_completeness auto
termination
  by (relation "measure (\<lambda>(_, _, hi, i, _). hi - i)") auto

function verify_loop ::
  "(nat \<Rightarrow> nat \<Rightarrow> 'a elem option) \<Rightarrow> 'a list \<Rightarrow> nat \<Rightarrow> nat \<Rightarrow> nat \<Rightarrow> nat \<Rightarrow> int option" where
  "verify_loop el outptr vector_size n j count =
     (if j < n then
        if vector_size = 0 then None
        else do {
          x \<leftarrow> verify_vector (el j) outptr (j + vector_size) j count;
          (case x of
             Inl r \<Rightarrow> Some r
           | Inr count \<Rightarrow> verify_loop el outptr vector_size n (j + vector_size) count)
        }
      else Some (if count \<noteq> 0 then - 1 else 0))"
  by pat_completeness auto
termination
  by (relation "measure (\<lambda>(_, _, _, n, j, _). n - j)") auto

declare verify_vector.simps [simp del] verify_loop.simps [simp del]

definition verify ::
  "('a::len word, 'p::len word) ctype \<Rightarrow> int \<Rightarrow> nat \<Rightarrow> 'a word list \<Rightarrow> 'a word list \<Rightarrow> 'a word list \<Rightarrow> nat \<Rightarrow> int option" where
  "verify T test vector_size inptrA inptrB outptr n =
     verify_loop (elem_result T test vector_size inptrA inptrB) outptr vector_size n 0 0"

definition verify_long where "verify_long = verify long_type"
definition verify_ulong where "verify_ulong = verify ulong_type"
definition verify_int where "verify_int = verify int_type"
definition verify_uint where "verify_uint = verify uint_type"
definition verify_short where "verify_short = verify short_type"
definition verify_ushort where "verify_ushort = verify ushort_type"
definition verify_char where "verify_char = verify char_type"
definition verify_uchar where "verify_uchar = verify uchar_type"

section \<open>The operators of OpenCL C\<close>

text \<open>
  The value of an element, and each operator on values; \<open>None\<close> where OpenCL leaves the
  result undefined. \<open>k\<close> is the width that shift amounts are reduced to.
\<close>

definition ival :: "bool \<Rightarrow> 'a::len word \<Rightarrow> int" where
  "ival s a = (if s then sint a else uint a)"

definition cl_ref ::
  "bool \<Rightarrow> nat \<Rightarrow> int \<Rightarrow> nat \<Rightarrow> 'a::len word \<Rightarrow> 'a word \<Rightarrow> 'a word \<Rightarrow> 'a word \<Rightarrow> 'a word option" where
  "cl_ref s k test vector_size a b aj bj =
     (let x = ival s a; y = ival s b; w = (\<lambda>v. Some (word_of_int v));
          t = (\<lambda>c. Some (if c then if vector_size = 1 then 1 else - 1 else 0));
          undefined_quotient = (y = 0 \<or> s \<and> y = - 1 \<and> x = - (2 ^ (LENGTH('a) - 1)))
      in if test = 0 then w (x + y)
         else if test = 1 then w (x - y)
         else if test = 2 then w (x * y)
         else if test = 3 then if undefined_quotient then None else w (x sdiv y)
         else if test = 4 then if undefined_quotient then None else w (x smod y)
         else if test = 5 then w (x AND y)
         else if test = 6 then w (x OR y)
         else if test = 7 then w (x XOR y)
         else if test = 8 then w (x div 2 ^ nat (y mod 2 ^ k))
         else if test = 9 then w (x * 2 ^ nat (y mod 2 ^ k))
         else if test = 10 then w (x div 2 ^ nat (ival s bj mod 2 ^ k))
         else if test = 11 then w (x * 2 ^ nat (ival s bj mod 2 ^ k))
         else if test = 12 then w (- x - 1)
         else if test = 13 then Some (if ival s aj < ival s bj then a else b)
         else if test = 14 then t (x \<noteq> 0 \<and> y \<noteq> 0)
         else if test = 15 then t (x \<noteq> 0 \<or> y \<noteq> 0)
         else if test = 16 then t (x < y)
         else if test = 17 then t (x > y)
         else if test = 18 then t (x \<le> y)
         else if test = 19 then t (x \<ge> y)
         else if test = 20 then t (x = y)
         else if test = 21 then t (x \<noteq> y)
         else t (x = 0))"

text \<open>A device result that is right at every element of the \<open>n\<close>.\<close>

definition conforms ::
  "bool \<Rightarrow> nat \<Rightarrow> int \<Rightarrow> nat \<Rightarrow> 'a::len word list \<Rightarrow> 'a word list \<Rightarrow> 'a word list \<Rightarrow> nat \<Rightarrow> bool" where
  "conforms s k test vector_size A B out n \<longleftrightarrow>
     (\<forall>i<n. let j = i - i mod vector_size in
        case cl_ref s k test vector_size (A ! i) (B ! i) (A ! j) (B ! j) of
          None \<Rightarrow> True | Some r \<Rightarrow> out ! i = r)"

section \<open>Machine operators on values\<close>

named_theorems value_simps

lemma word_of_ival [simp]: "word_of_int (ival s a) = a"
  by (simp add: ival_def)

lemma ival_eq_iff: "ival s a = ival s b \<longleftrightarrow> a = b"
  by (metis word_of_ival)

lemma ival_0 [simp]: "ival s 0 = 0"
  by (simp add: ival_def)

lemma ival_eq_0_iff: "ival s a = 0 \<longleftrightarrow> a = 0"
  using ival_eq_iff [of s a 0] by simp

lemma c_div_value: "c_div s a b = word_of_int (ival s a sdiv ival s b)"
proof (cases s)
  case False
  have "uint a sdiv uint b = uint a div uint b"
    by (auto simp: signed_divide_int_def sgn_if order_less_le)
  then show ?thesis by (simp add: False c_div_def ival_def word_div_def)
qed (simp add: c_div_def c_sdiv_def ival_def)

lemma c_mod_value: "c_mod s a b = word_of_int (ival s a smod ival s b)"
proof (cases s)
  case False
  have "uint a smod uint b = uint a mod uint b"
    by (auto simp: signed_modulo_int_def signed_divide_int_def sgn_if minus_div_mult_eq_mod order_less_le)
  then show ?thesis by (simp add: False c_mod_def ival_def word_mod_def)
qed (simp add: c_mod_def c_srem_def ival_def)

lemma c_shr_value: "c_shr s a k = word_of_int (ival s a div 2 ^ unat k)"
proof -
  have "uint (drop_bit n a) = uint a div 2 ^ n" for n
    by (subst unsigned_drop_bit_eq, subst drop_bit_eq_div) (simp add: take_bit_int_eq_self)
  moreover have "sint (signed_drop_bit n a) = sint a div 2 ^ n" for n
    by (simp only: sint_signed_drop_bit_eq drop_bit_eq_div)
  ultimately have "ival s (c_shr s a k) = ival s a div 2 ^ unat k"
    by (simp only: c_shr_def ival_def split: if_split) simp
  then show ?thesis by (metis word_of_ival)
qed

lemma push_bit_value: "push_bit k a = word_of_int (ival s a * 2 ^ k)"
proof -
  have "push_bit k a = a * 2 ^ k" by (rule push_bit_eq_mult)
  also have "\<dots> = word_of_int (ival s a) * word_of_int (2 ^ k)" by simp
  finally show ?thesis by (simp only: wi_hom_mult)
qed

lemma c_less_value: "c_less s a b \<longleftrightarrow> ival s a < ival s b"
  by (simp add: c_less_def ival_def word_less_def)

lemma shift_amount_value:
  assumes "m \<le> LENGTH('p)"
  shows "unat ((b :: 'p::len word) AND mask m) = nat (ival s b mod 2 ^ m)"
proof -
  have "b AND mask m = take_bit m b" by (simp add: take_bit_eq_mask)
  moreover have "uint (take_bit m b) = take_bit m (ival s b)"
  proof -
    have "uint (take_bit m b) = take_bit m (uint b)" by (simp add: unsigned_take_bit_eq)
    also have "\<dots> = take_bit m (ival s b)"
    proof (cases s)
      case True
      have "uint b = take_bit LENGTH('p) (sint b)" by (rule uint_sint)
      with assms True show ?thesis by (simp add: ival_def take_bit_take_bit min_def)
    qed (simp add: ival_def)
    finally show ?thesis .
  qed
  ultimately show ?thesis by (simp only: unat_eq_nat_uint) (simp add: take_bit_eq_mod)
qed

section \<open>What makes a type right\<close>

locale c_integer =
  fixes T :: "('a::len word, 'p::len word) ctype" and s :: bool
  assumes wide: "LENGTH('a) \<le> LENGTH('p)"
    and promote_value: "ival (psigned T) (promote T a) = ival s a"
    and undef_value: "undef T a b \<longleftrightarrow>
      ival s b = 0 \<or> s \<and> ival s b = - 1 \<and> ival s a = - (2 ^ (LENGTH('a) - 1))"
    and shift_bits_fit: "shift_bits T vector_size \<le> LENGTH('p)"
begin

lemma narrow: "ucast (word_of_int x :: 'p word) = (word_of_int x :: 'a word)"
  using wide by (intro bit_word_eqI) (auto simp: bit_simps)

lemma promote_word: "promote T a = word_of_int (ival s a)"
  by (metis promote_value word_of_ival)

lemma promote_eq_iff: "promote T a = promote T b \<longleftrightarrow> ival s a = ival s b"
  by (metis promote_value ival_eq_iff)

lemmas ops = c_div_value c_mod_value c_shr_value c_less_value promote_value
  shift_amount_value [OF shift_bits_fit, where s = "psigned T"]
  push_bit_value [where s = "psigned T"] promote_eq_iff narrow

lemma arith:
  "ucast (promote T a + promote T b) = (word_of_int (ival s a + ival s b) :: 'a word)"
  "ucast (promote T a - promote T b) = (word_of_int (ival s a - ival s b) :: 'a word)"
  "ucast (promote T a * promote T b) = (word_of_int (ival s a * ival s b) :: 'a word)"
  "ucast (promote T a AND promote T b) = (word_of_int (ival s a AND ival s b) :: 'a word)"
  "ucast (promote T a OR promote T b) = (word_of_int (ival s a OR ival s b) :: 'a word)"
  "ucast (promote T a XOR promote T b) = (word_of_int (ival s a XOR ival s b) :: 'a word)"
  "ucast (promote T a * 2 ^ n) = (a * 2 ^ n :: 'a word)"
  "ucast (NOT (promote T a)) = (word_of_int (- ival s a - 1) :: 'a word)"
proof -
  have "word_of_int (ival s a) * 2 ^ n = (word_of_int (ival s a * 2 ^ n) :: 'p word)"
    "word_of_int (ival s a) * 2 ^ n = (word_of_int (ival s a * 2 ^ n) :: 'a word)" by simp_all
  then show "ucast (promote T a * 2 ^ n) = (a * 2 ^ n :: 'a word)"
    unfolding promote_word by (simp only: narrow) simp
qed (unfold promote_word, simp_all only: wi_hom_add wi_hom_sub wi_hom_mult narrow of_int_and_eq [symmetric]
      of_int_or_eq [symmetric] of_int_xor_eq [symmetric] of_int_not_eq [symmetric] not_int_def)

definition expected :: "int \<Rightarrow> nat \<Rightarrow> 'a word list \<Rightarrow> 'a word list \<Rightarrow> nat \<Rightarrow> nat \<Rightarrow> 'a word option" where
  "expected test vector_size A B j i =
     cl_ref s (shift_bits T vector_size) test vector_size (A ! i) (B ! i) (A ! j) (B ! j)"

lemma elem_result_ref:
  assumes "i < length A" "i < length B" "j < length A" "j < length B" "0 \<le> test" "test \<le> 22"
  shows "elem_result T test vector_size A B j i =
    Some (case expected test vector_size A B j i of None \<Rightarrow> Continue | Some r \<Rightarrow> Assign r)"
proof -
  have "test = 0 \<or> test = 1 \<or> test = 2 \<or> test = 3 \<or> test = 4 \<or> test = 5 \<or> test = 6 \<or> test = 7 \<or>
      test = 8 \<or> test = 9 \<or> test = 10 \<or> test = 11 \<or> test = 12 \<or> test = 13 \<or> test = 14 \<or>
      test = 15 \<or> test = 16 \<or> test = 17 \<or> test = 18 \<or> test = 19 \<or> test = 20 \<or> test = 21 \<or> test = 22"
    using assms(5,6) by presburger
  then show ?thesis
    unfolding expected_def
    by (elim disjE; cases s)
      (simp_all add: elem_result_def cl_ref_def assms(1-4) arith ops undef_value
        truth_def ival_eq_0_iff not_less Let_def)
qed

text \<open>The loops: an error code exactly when some element is wrong.\<close>

definition wrong :: "int \<Rightarrow> nat \<Rightarrow> 'a word list \<Rightarrow> 'a word list \<Rightarrow> 'a word list \<Rightarrow> nat \<Rightarrow> nat \<Rightarrow> bool" where
  "wrong test vector_size A B out j i \<longleftrightarrow>
     (case expected test vector_size A B j i of None \<Rightarrow> False | Some r \<Rightarrow> r \<noteq> out ! i)"

lemma verify_vector_ok:
  assumes "hi \<le> length A" "hi \<le> length B" "hi \<le> length out" "j < hi" "0 \<le> test" "test \<le> 22" "i \<le> hi"
  shows "\<exists>x. verify_vector (elem_result T test vector_size A B j) out hi i count = Some x \<and>
    (x = Inl (- 1) \<and> (\<exists>m. i \<le> m \<and> m < hi \<and> wrong test vector_size A B out j m) \<or>
     (\<exists>c. x = Inr c \<and> count \<le> c \<and>
        (c = count \<longleftrightarrow> (\<forall>m. i \<le> m \<and> m < hi \<longrightarrow> \<not> wrong test vector_size A B out j m))))"
  using assms(7)
proof (induction "hi - i" arbitrary: i count)
  case 0
  then show ?case by (subst verify_vector.simps) auto
next
  case (Suc n)
  then have i: "i < hi" "n = hi - (i + 1)" "i + 1 \<le> hi" by simp_all
  have el: "elem_result T test vector_size A B j i =
      Some (case expected test vector_size A B j i of None \<Rightarrow> Continue | Some r \<Rightarrow> Assign r)"
    using assms i by (intro elem_result_ref) auto
  have split: "(\<forall>m. i \<le> m \<and> m < hi \<longrightarrow> P m) \<longleftrightarrow> P i \<and> (\<forall>m. i + 1 \<le> m \<and> m < hi \<longrightarrow> P m)" for P
    using i by (metis Suc_eq_plus1 Suc_le_eq le_eq_less_or_eq)
  let ?v = "verify_vector (elem_result T test vector_size A B j) out hi"
  have v: "?v i count =
    (if wrong test vector_size A B out j i then
       if count + 1 \<ge> MAX_ERRORS_TO_PRINT then Some (Inl (- 1)) else ?v (i + 1) (count + 1)
     else ?v (i + 1) count)"
    using i assms(3) by (subst verify_vector.simps) (auto simp: el wrong_def split: option.splits)
  show ?case
    using Suc.hyps(1) [OF i(2,3), of count] Suc.hyps(1) [OF i(2,3), of "count + 1"] i(1)
    unfolding v split [of "\<lambda>m. \<not> wrong test vector_size A B out j m"]
    by (auto split: if_splits) (use Suc_leD le_antisym in fastforce)+
qed

lemma verify_loop_ok:
  assumes "n \<le> length A" "n \<le> length B" "n \<le> length out" "0 \<le> test" "test \<le> 22"
    and "0 < vector_size" "vector_size dvd n" "vector_size dvd j" "j \<le> n"
  shows "verify_loop (elem_result T test vector_size A B) out vector_size n j count =
    Some (if count = 0 \<and> (\<forall>i. j \<le> i \<and> i < n \<longrightarrow>
        \<not> wrong test vector_size A B out (i - i mod vector_size) i) then 0 else - 1)"
  using assms(8,9)
proof (induction "n - j" arbitrary: j count rule: less_induct)
  case less
  show ?case
  proof (cases "j < n")
    case False
    then show ?thesis by (subst verify_loop.simps) auto
  next
    case True
    let ?hi = "j + vector_size"
    have hi: "?hi \<le> n"
      using True \<open>vector_size dvd j\<close> assms(7)
      by (metis add_diff_inverse_nat dvd_diff_nat dvd_imp_le nat_add_left_cancel_le not_less_iff_gr_or_eq zero_less_diff)
    have base: "m - m mod vector_size = j" if "j \<le> m" "m < ?hi" for m
    proof -
      obtain q d where "j = vector_size * q" "m = j + d"
        using \<open>vector_size dvd j\<close> \<open>j \<le> m\<close> by (metis dvdE le_iff_add)
      with that show ?thesis by simp
    qed
    have split: "(\<forall>i. j \<le> i \<and> i < n \<longrightarrow> \<not> wrong test vector_size A B out (i - i mod vector_size) i) \<longleftrightarrow>
        (\<forall>m. j \<le> m \<and> m < ?hi \<longrightarrow> \<not> wrong test vector_size A B out j m) \<and>
        (\<forall>i. ?hi \<le> i \<and> i < n \<longrightarrow> \<not> wrong test vector_size A B out (i - i mod vector_size) i)"
      using all_range_split [of j ?hi n "\<lambda>i. \<not> wrong test vector_size A B out (i - i mod vector_size) i"] hi
      by (simp add: base cong: imp_cong)
    obtain x where x: "verify_vector (elem_result T test vector_size A B j) out ?hi j count = Some x"
      "x = Inl (- 1) \<and> (\<exists>m. j \<le> m \<and> m < ?hi \<and> wrong test vector_size A B out j m) \<or>
       (\<exists>c. x = Inr c \<and> count \<le> c \<and>
          (c = count \<longleftrightarrow> (\<forall>m. j \<le> m \<and> m < ?hi \<longrightarrow> \<not> wrong test vector_size A B out j m)))"
      using verify_vector_ok [of ?hi A B out j test j vector_size count] assms hi True by auto
    from x(2) show ?thesis
    proof (elim disjE exE conjE)
      fix m assume "x = Inl (- 1)" "j \<le> m" "m < ?hi" "wrong test vector_size A B out j m"
      then show ?thesis
        using x(1) True assms(6) unfolding split by (subst verify_loop.simps) auto
    next
      fix c assume c: "x = Inr c" "count \<le> c"
        "c = count \<longleftrightarrow> (\<forall>m. j \<le> m \<and> m < ?hi \<longrightarrow> \<not> wrong test vector_size A B out j m)"
      have "verify_loop (elem_result T test vector_size A B) out vector_size n j count =
          verify_loop (elem_result T test vector_size A B) out vector_size n ?hi c"
        using x(1) c(1) True assms(6) by (subst verify_loop.simps) simp
      also have "\<dots> = Some (if c = 0 \<and> (\<forall>i. ?hi \<le> i \<and> i < n \<longrightarrow>
          \<not> wrong test vector_size A B out (i - i mod vector_size) i) then 0 else - 1)"
        using True assms(6) \<open>vector_size dvd j\<close> hi by (intro less.hyps) auto
      finally show ?thesis
        using c(2,3) unfolding split by auto
    qed
  qed
qed

theorem verify_ok:
  assumes "n \<le> length A" "n \<le> length B" "n \<le> length out" "0 \<le> test" "test \<le> 22"
    and "0 < vector_size" "vector_size dvd n"
  shows "verify T test vector_size A B out n =
    Some (if conforms s (shift_bits T vector_size) test vector_size A B out n then 0 else - 1)"
proof -
  have "(\<forall>i. 0 \<le> i \<and> i < n \<longrightarrow> \<not> wrong test vector_size A B out (i - i mod vector_size) i) \<longleftrightarrow>
      conforms s (shift_bits T vector_size) test vector_size A B out n"
    unfolding conforms_def wrong_def expected_def Let_def
    by (auto split: option.splits)
  with verify_loop_ok [of n A B out test vector_size 0 0] assms show ?thesis
    by (simp add: verify_def)
qed

end

text \<open>Any test number outside 0..22 is reported, once there is an element.\<close>

lemma elem_result_invalid: "\<not> (0 \<le> test \<and> test \<le> 22) \<Longrightarrow> elem_result T test v A B j i = Some Invalid"
  by (auto simp: elem_result_def)

section \<open>The eight types\<close>

lemma CL_MIN_value: "a = CL_MIN \<longleftrightarrow> sint (a :: 'a::len word) = - (2 ^ (LENGTH('a) - 1))"
proof -
  let ?n = "LENGTH('a) - Suc 0"
  have n: "LENGTH('a) = Suc ?n" by simp
  have "uint (CL_MIN :: 'a word) = 2 ^ ?n"
    unfolding CL_MIN_def by (subst unsigned_push_bit_eq) (simp add: take_bit_eq_mod push_bit_eq_mult)
  then have "sint (CL_MIN :: 'a word) = take_bit (Suc ?n) (2 ^ ?n + 2 ^ ?n) - 2 ^ ?n"
    by (simp only: sint_uint signed_take_bit_eq_take_bit_shift)
  also have "\<dots> = - (2 ^ ?n)"
    by (simp only: mult_2 [symmetric] power_Suc [symmetric] take_bit_eq_mod) simp
  finally have "sint (CL_MIN :: 'a word) = - (2 ^ (LENGTH('a) - 1))" by simp
  then show ?thesis using ival_eq_iff [of True a CL_MIN] by (simp add: ival_def)
qed

lemma undef_values:
  "signed_undef a b \<longleftrightarrow> ival True b = 0 \<or> True \<and> ival True b = - 1 \<and> ival True a = - (2 ^ (LENGTH('a) - 1))"
  "unsigned_undef a b \<longleftrightarrow> ival False b = 0 \<or> False \<and> ival False b = - 1 \<and> ival False a = - (2 ^ (LENGTH('a) - 1))"
  for a b :: "'a::len word"
proof -
  have "ival True b = - 1 \<longleftrightarrow> b = - 1"
    using ival_eq_iff [of True b "- 1"] by (simp add: ival_def)
  then show "signed_undef a b \<longleftrightarrow> ival True b = 0 \<or> True \<and> ival True b = - 1 \<and> ival True a = - (2 ^ (LENGTH('a) - 1))"
    by (simp add: signed_undef_def ival_eq_0_iff) (simp add: ival_def CL_MIN_value)
qed (simp add: unsigned_undef_def ival_eq_0_iff)

interpretation long: c_integer long_type True
  by unfold_locales (simp_all only: long_type_def ctype.simps undef_values, simp_all)

interpretation ulong: c_integer ulong_type False
  by unfold_locales (simp_all only: ulong_type_def ctype.simps undef_values, simp_all)

lemma promoted_values:
  "ival True (scast (a :: u16) :: u32) = ival True a"
  "ival True (ucast (a :: u16) :: u32) = ival False a"
  "ival True (scast (b :: u8) :: u32) = ival True b"
  "ival True (ucast (b :: u8) :: u32) = ival False b"
proof -
  have narrow: "signed_take_bit 31 x = x" if "0 \<le> x" "x < 2 ^ 16" for x :: int
    using that by (intro signed_take_bit_int_eq_self) auto
  have "uint a < 2 ^ 16" "uint b < 2 ^ 16"
    using unsigned_less [of a, where 'a = int] unsigned_less [of b, where 'a = int] by simp_all
  then show "ival True (ucast a :: u32) = ival False a" "ival True (ucast b :: u32) = ival False b"
    by (simp_all add: ival_def signed_ucast_eq narrow)
qed (simp_all add: ival_def sint_up_scast is_up)

interpretation int32: c_integer int_type True
  by unfold_locales (simp_all only: int_type_def ctype.simps undef_values, simp_all)

interpretation uint32: c_integer uint_type False
  by unfold_locales (simp_all only: uint_type_def ctype.simps undef_values, simp_all)

interpretation short: c_integer short_type True
  by unfold_locales (simp_all only: short_type_def ctype.simps undef_values promoted_values, simp_all)

interpretation ushort: c_integer ushort_type False
  by unfold_locales (simp_all only: ushort_type_def ctype.simps undef_values promoted_values, simp_all)

interpretation char: c_integer char_type True
  by unfold_locales (simp_all only: char_type_def ctype.simps undef_values promoted_values, simp_all)

interpretation uchar: c_integer uchar_type False
  by unfold_locales (simp_all only: uchar_type_def ctype.simps undef_values promoted_values, simp_all)

text \<open>\<open>conforms\<close> over the list of indices, for evaluation.\<close>

lemma conforms_upt:
  "conforms s k test vector_size A B out n \<longleftrightarrow>
     list_all (\<lambda>i. let j = i - i mod vector_size in
        case cl_ref s k test vector_size (A ! i) (B ! i) (A ! j) (B ! j) of
          None \<Rightarrow> True | Some r \<Rightarrow> out ! i = r) [0..<n]"
  by (auto simp: conforms_def list_all_iff)

section \<open>Properties\<close>

text \<open>
  C7. \<open>verify_long\<close> and \<open>verify_ulong\<close> are exact: for each of the 23 tests, every
  vector size and every element count that is a multiple of it, they return 0 exactly when each
  of the \<open>n\<close> results is what the operator of OpenCL C gives on 64-bit values (any result
  passes where the quotient is undefined), and -1 otherwise.
\<close>

theorem verify_64_correct:
  assumes "n \<le> length A" "n \<le> length B" "n \<le> length out" "0 \<le> test" "test \<le> 22"
    and "0 < vector_size" "vector_size dvd n"
  shows "verify_long test vector_size A B out n =
      Some (if conforms True 6 test vector_size A B out n then 0 else - 1) \<and>
    verify_ulong test vector_size A B out n =
      Some (if conforms False 6 test vector_size A B out n then 0 else - 1)"
  using long.verify_ok [OF assms] ulong.verify_ok [OF assms]
  by (simp add: verify_long_def verify_ulong_def long_type_def ulong_type_def)

text \<open>Division of the least value by -1 passes whatever the device returned; 7/-2 is -3.\<close>

theorem verify_64_correct_witness:
  "verify_long 3 2 [0x8000000000000000, 7] [0xffffffffffffffff, 0xfffffffffffffffe] [5, 0xfffffffffffffffd] 2 = Some 0 \<and>
   verify_ulong 3 2 [0x8000000000000000, 7] [0xffffffffffffffff, 0xfffffffffffffffe] [5, 0xfffffffffffffffd] 2 = Some (- 1)"
  using verify_64_correct [of 2 "[0x8000000000000000, 7]" "[0xffffffffffffffff, 0xfffffffffffffffe]" "[5, 0xfffffffffffffffd]" 3 2]
  by (simp add: conforms_upt cl_ref_def ival_def upt_rec [of _ "numeral _"] signed_divide_int_def Let_def)

text \<open>
  \<open>verify_int\<close> and \<open>verify_uint\<close> are exact in the same sense on 32-bit values.
\<close>

theorem verify_32_correct:
  assumes "n \<le> length A" "n \<le> length B" "n \<le> length out" "0 \<le> test" "test \<le> 22"
    and "0 < vector_size" "vector_size dvd n"
  shows "verify_int test vector_size A B out n =
      Some (if conforms True 5 test vector_size A B out n then 0 else - 1) \<and>
    verify_uint test vector_size A B out n =
      Some (if conforms False 5 test vector_size A B out n then 0 else - 1)"
  using int32.verify_ok [OF assms] uint32.verify_ok [OF assms]
  by (simp add: verify_int_def verify_uint_def int_type_def uint_type_def)

theorem verify_32_correct_witness:
  "verify_int 10 2 [8, 12] [33, 7] [4, 6] 2 = Some 0 \<and> verify_uint 10 2 [8, 12] [33, 7] [4, 6] 2 = Some 0"
  using verify_32_correct [of 2 "[8, 12]" "[33, 7]" "[4, 6]" 10 2]
  by (simp add: conforms_upt cl_ref_def ival_def upt_rec [of _ "numeral _"] signed_divide_int_def Let_def)

text \<open>
  \<open>verify_short\<close> and \<open>verify_ushort\<close> compute in the promoted 32-bit
  \<^verbatim>\<open>int\<close>, yet are exact on 16-bit values: promotion and the cut back to 16 bits
  change no result. Shift amounts are reduced modulo 32 for scalars, 16 for vectors.
\<close>

theorem verify_16_correct:
  assumes "n \<le> length A" "n \<le> length B" "n \<le> length out" "0 \<le> test" "test \<le> 22"
    and "0 < vector_size" "vector_size dvd n"
  shows "verify_short test vector_size A B out n =
      Some (if conforms True (if vector_size = 1 then 5 else 4) test vector_size A B out n then 0 else - 1) \<and>
    verify_ushort test vector_size A B out n =
      Some (if conforms False (if vector_size = 1 then 5 else 4) test vector_size A B out n then 0 else - 1)"
  using short.verify_ok [OF assms] ushort.verify_ok [OF assms]
  by (simp add: verify_short_def verify_ushort_def short_type_def ushort_type_def)

theorem verify_16_correct_witness:
  "verify_short 8 1 [0xff00, 12] [20, 1] [0xffff, 6] 2 = Some 0 \<and>
   verify_ushort 8 1 [0xff00, 12] [20, 1] [0xffff, 6] 2 = Some (- 1)"
  using verify_16_correct [of 2 "[0xff00, 12]" "[20, 1]" "[0xffff, 6]" 8 1]
  by (simp add: conforms_upt cl_ref_def ival_def upt_rec [of _ "numeral _"] signed_divide_int_def Let_def)

text \<open>
  The same for \<open>verify_char\<close> and \<open>verify_uchar\<close>: exact on 8-bit values, shift
  amounts reduced modulo 32 for scalars and 8 for vectors.
\<close>

theorem verify_8_correct:
  assumes "n \<le> length A" "n \<le> length B" "n \<le> length out" "0 \<le> test" "test \<le> 22"
    and "0 < vector_size" "vector_size dvd n"
  shows "verify_char test vector_size A B out n =
      Some (if conforms True (if vector_size = 1 then 5 else 3) test vector_size A B out n then 0 else - 1) \<and>
    verify_uchar test vector_size A B out n =
      Some (if conforms False (if vector_size = 1 then 5 else 3) test vector_size A B out n then 0 else - 1)"
  using char.verify_ok [OF assms] uchar.verify_ok [OF assms]
  by (simp add: verify_char_def verify_uchar_def char_type_def uchar_type_def)

theorem verify_8_correct_witness:
  "verify_char 16 4 [1, 2, 3, 0x80] [2, 1, 4, 0] [255, 0, 255, 255] 4 = Some 0 \<and>
   verify_uchar 16 4 [1, 2, 3, 0x80] [2, 1, 4, 0] [255, 0, 255, 255] 4 = Some (- 1)"
  using verify_8_correct [of 4 "[1, 2, 3, 0x80]" "[2, 1, 4, 0]" "[255, 0, 255, 255]" 16 4]
  by (simp add: conforms_upt cl_ref_def ival_def upt_rec [of _ "numeral _"] signed_divide_int_def Let_def)

text \<open>
  A test number outside 0..22 is reported as -1 by every checker as soon as there is an
  element to check, and passes silently when there is none.
\<close>

theorem verify_invalid_test:
  assumes "\<not> (0 \<le> test \<and> test \<le> 22)" "0 < vector_size"
  shows "verify T test vector_size A B out n = Some (if n = 0 then 0 else - 1)"
proof -
  have "verify_vector (elem_result T test vector_size A B 0) out vector_size 0 0 = Some (Inl (- 1))"
    using assms by (subst verify_vector.simps) (simp add: elem_result_invalid)
  then show ?thesis
    using assms(2) by (cases "n = 0") (subst verify_def, subst verify_loop.simps, simp)+
qed

theorem verify_invalid_test_witness:
  "verify long_type 23 4 [] [] [] 4 = Some (if (4::nat) = 0 then 0 else - 1)"
  using verify_invalid_test [of 23 4 long_type "[]" "[]" "[]" 4] by simp

end
