(* ===== verification/IntegerData.thy ===== *)
theory IntegerData
  imports MT19937
begin

text \<open>
  The inputs of the integer tests: \<^verbatim>\<open>fill_test_values\<close>
  (\<^verbatim>\<open>integer_ops/main.cpp\<close>) and \<^verbatim>\<open>init_long_data\<close> to
  \<^verbatim>\<open>init_uchar_data\<close> (\<^verbatim>\<open>verification_and_generation_functions.cpp\<close>),
  over any source of 32-bit words. Buffers are lists; a write past the end is \<open>None\<close>.
  The lemmas show which pairs of special operands the buffers hold.
\<close>

section \<open>64-bit data\<close>

definition sUniqueValues :: "u64 list" where
  "sUniqueValues =
    [0x3333333333333333, 0x5555555555555555, 0x9999999999999999, 0xaaaaaaaaaaaaaaaa, 0xcccccccccccccccc,
     0x3030303030303030, 0x5050505050505050, 0x9090909090909090, 0xa0a0a0a0a0a0a0a0, 0xc0c0c0c0c0c0c0c0, 0xf0f0f0f0f0f0f0f0,
     0x0303030303030303, 0x0505050505050505, 0x0909090909090909, 0x0a0a0a0a0a0a0a0a, 0x0c0c0c0c0c0c0c0c, 0x0f0f0f0f0f0f0f0f,
     0x3300330033003300, 0x5500550055005500, 0x9900990099009900, 0xaa00aa00aa00aa00, 0xcc00cc00cc00cc00, 0xff00ff00ff00ff00,
     0x0033003300330033, 0x0055005500550055, 0x0099009900990099, 0x00aa00aa00aa00aa, 0x00cc00cc00cc00cc, 0x00ff00ff00ff00ff,
     0x3333333300000000, 0x5555555500000000, 0x9999999900000000, 0xaaaaaaaa00000000, 0xcccccccc00000000, 0xffffffff00000000,
     0x0000000033333333, 0x0000000055555555, 0x0000000099999999, 0x00000000aaaaaaaa, 0x00000000cccccccc, 0x00000000ffffffff,
     0x3333000000003333, 0x5555000000005555, 0x9999000000009999, 0xaaaa00000000aaaa, 0xcccc00000000cccc, 0xffff00000000ffff]"

text \<open>
  The static table as the first call builds it; \<^verbatim>\<open>1LL << 63\<close> and the
  sums at the ends of the range wrap.
\<close>

definition special_step :: "nat \<Rightarrow> u64 list \<Rightarrow> u64 list option" where
  "special_step i v = do {
     v \<leftarrow> wr v i (push_bit i 1);
     v \<leftarrow> wr v (i + 64) (push_bit i (- 1));
     x \<leftarrow> rd v i;
     v \<leftarrow> wr v (i + 128) (x - 1);
     v \<leftarrow> wr v (i + 128 + 64) (x - 1);
     v \<leftarrow> wr v (i + 256) (x + 1);
     wr v (i + 256 + 64) (x + 1) }"

definition sSpecialValues :: "u64 list option" where
  "sSpecialValues = do {
     let n = 128 + 128 + 128;
     v \<leftarrow> for_loop 0 64 special_step (replicate (n + length sUniqueValues) 0);
     Some (take n v @ sUniqueValues) }"

text \<open>The loop over pairs; the \<^verbatim>\<open>break\<close> leaves \<open>i\<close> at the pair just written.\<close>

function fill_pairs :: "u64 list \<Rightarrow> nat \<Rightarrow> nat \<Rightarrow> nat \<Rightarrow> nat \<Rightarrow> u64 list \<Rightarrow> u64 list \<Rightarrow>
    (nat \<times> u64 list \<times> u64 list) option" where
  "fill_pairs sp numElements i aIdx bIdx A B =
     (if i < numElements then do {
        x \<leftarrow> rd sp aIdx; y \<leftarrow> rd sp bIdx;
        A \<leftarrow> wr A i x; B \<leftarrow> wr B i y;
        (if bIdx + 1 = length sp then
           if aIdx + 1 = length sp then Some (i, A, B)
           else fill_pairs sp numElements (i + 1) (aIdx + 1) 0 A B
         else fill_pairs sp numElements (i + 1) aIdx (bIdx + 1) A B)
      } else Some (i, A, B))"
  by pat_completeness auto
termination
  by (relation "measure (\<lambda>(_, n, i, _). n - i)") auto

declare fill_pairs.simps [simp del]

definition random_long :: "('s \<Rightarrow> (u32 \<times> 's) option) \<Rightarrow> 's \<Rightarrow> (u64 \<times> 's) option" where
  "random_long gen d = do {
     (a, d) \<leftarrow> gen d; (b, d) \<leftarrow> gen d;
     Some ((push_bit 33 (scast a) OR scast b) XOR push_bit 16 (scast b), d) }"

definition fill_test_values ::
  "('s \<Rightarrow> (u32 \<times> 's) option) \<Rightarrow> nat \<Rightarrow> u64 list \<times> u64 list \<times> 's \<Rightarrow> (u64 list \<times> u64 list \<times> 's) option" where
  "fill_test_values gen numElements = (\<lambda>(A, B, d). do {
     sp \<leftarrow> sSpecialValues;
     (i, A, B) \<leftarrow> fill_pairs sp numElements 0 0 0 A B;
     for_loop i numElements (\<lambda>i (A, B, d). do {
       (x, d) \<leftarrow> random_long gen d; A \<leftarrow> wr A i x;
       (y, d) \<leftarrow> random_long gen d; B \<leftarrow> wr B i y;
       Some (A, B, d) }) (A, B, d) })"

definition join_halves :: "('s \<Rightarrow> (u32 \<times> 's) option) \<Rightarrow> 's \<Rightarrow> (u64 \<times> 's) option" where
  "join_halves gen d = do {
     (a, d) \<leftarrow> gen d; (b, d) \<leftarrow> gen d;
     Some (push_bit 32 (ucast a) OR ucast b, d) }"

definition init_long_data ::
  "('s \<Rightarrow> (u32 \<times> 's) option) \<Rightarrow> nat \<Rightarrow> nat \<Rightarrow> u64 list \<times> u64 list \<times> 's \<Rightarrow> (u64 list \<times> u64 list \<times> 's) option" where
  "init_long_data gen indx num_elements = (\<lambda>(A, B, d).
     if indx = 0 then fill_test_values gen num_elements (A, B, d)
     else do {
       (A, d) \<leftarrow> for_loop 0 num_elements
         (\<lambda>j (p, d). do { (x, d) \<leftarrow> join_halves gen d; p \<leftarrow> wr p j x; Some (p, d) }) (A, d);
       (B, d) \<leftarrow> for_loop 0 num_elements
         (\<lambda>j (p, d). do { (x, d) \<leftarrow> join_halves gen d; p \<leftarrow> wr p j x; Some (p, d) }) (B, d);
       Some (A, B, d) })"

text \<open>Signed and unsigned 64-bit data are the same bits.\<close>

definition init_ulong_data where "init_ulong_data = init_long_data"

section \<open>Narrower data\<close>

text \<open>
  The six functions for the narrower types: random elements first, then all pairs of special
  values over the first of them, however few elements were asked for.
\<close>

definition two_draws :: "('s \<Rightarrow> (u32 \<times> 's) option) \<Rightarrow> 's \<Rightarrow> ((u32 \<times> u32) \<times> 's) option" where
  "two_draws gen d = do { (x, d) \<leftarrow> gen d; (y, d) \<leftarrow> gen d; Some ((x, y), d) }"

definition split_draw :: "('s \<Rightarrow> (u32 \<times> 's) option) \<Rightarrow> 's \<Rightarrow> (('a::len word \<times> 'a word) \<times> 's) option" where
  "split_draw gen d = do {
     (bits, d) \<leftarrow> gen d; Some ((ucast bits, ucast (drop_bit 16 bits)), d) }"

definition fill_random :: "('s \<Rightarrow> (('a \<times> 'a) \<times> 's) option) \<Rightarrow> nat \<Rightarrow> 'a list \<times> 'a list \<times> 's \<Rightarrow>
    ('a list \<times> 'a list \<times> 's) option" where
  "fill_random draw num_elements = for_loop 0 num_elements
     (\<lambda>j (A, B, d). do {
        ((x, y), d) \<leftarrow> draw d; A \<leftarrow> wr A j x; B \<leftarrow> wr B j y; Some (A, B, d) })"

definition fill_special :: "'a list \<Rightarrow> 'a list \<times> 'a list \<Rightarrow> ('a list \<times> 'a list) option" where
  "fill_special sp AB = do {
     (A, B, index) \<leftarrow> for_loop 0 (length sp)
       (\<lambda>x. for_loop 0 (length sp)
          (\<lambda>y (A, B, index). do {
             A \<leftarrow> wr A index (sp ! x); B \<leftarrow> wr B index (sp ! y); Some (A, B, index + 1) }))
       (fst AB, snd AB, 0);
     Some (A, B) }"

definition init_data ::
  "('s \<Rightarrow> (('a \<times> 'a) \<times> 's) option) \<Rightarrow> 'a list \<Rightarrow> nat \<Rightarrow> 'a list \<times> 'a list \<times> 's \<Rightarrow> ('a list \<times> 'a list \<times> 's) option" where
  "init_data draw specialCaseList num_elements s = do {
     (A, B, d) \<leftarrow> fill_random draw num_elements s;
     (A, B) \<leftarrow> fill_special specialCaseList (A, B);
     Some (A, B, d) }"

definition int_cases :: "u32 list" where
  "int_cases = [0, - 1, 1, 0x80000000, 0x80000001, 0x7fffffff]"

definition uint_cases :: "u32 list" where
  "uint_cases = [0, 0x7fffffff, 0x80000000, 0xfffffffe, 0xffffffff]"

definition short_cases :: "u16 list" where
  "short_cases = [0, - 1, 1, 0x8000, 0x8001, 0x7fff]"

definition ushort_cases :: "u16 list" where
  "ushort_cases = [0, - 1, 1, 0x7fff, 0x8000, 0xffff]"

definition char_cases :: "u8 list" where
  "char_cases = [0, - 1, 1, 0x80, 0x81, 0x7f]"

definition uchar_cases :: "u8 list" where
  "uchar_cases = [0, - 1, 1, 0x7f, 0x80, 0xff]"

definition init_int_data where "init_int_data gen = init_data (two_draws gen) int_cases"
definition init_uint_data where "init_uint_data gen = init_data (two_draws gen) uint_cases"
definition init_short_data where "init_short_data gen = init_data (split_draw gen) short_cases"
definition init_ushort_data where "init_ushort_data gen = init_data (split_draw gen) ushort_cases"
definition init_char_data where "init_char_data gen = init_data (split_draw gen) char_cases"
definition init_uchar_data where "init_uchar_data gen = init_data (split_draw gen) uchar_cases"

section \<open>The table of special values\<close>

definition pow2 :: "nat \<Rightarrow> u64" where "pow2 i = push_bit i 1"

lemma special_step_ok:
  assumes "i < 64" "length v = 431"
  shows "special_step i v = Some (v[i := pow2 i, i + 64 := - pow2 i, i + 128 := pow2 i - 1,
    i + 128 + 64 := pow2 i - 1, i + 256 := pow2 i + 1, i + 256 + 64 := pow2 i + 1])"
  using assms by (simp add: special_step_def pow2_def nth_list_update minus_exp_eq_not_mask)

definition special_table :: "u64 list" where
  "special_table =
     map pow2 [0..<64] @ map (\<lambda>i. - pow2 i) [0..<64] @
     map (\<lambda>i. pow2 i - 1) [0..<64] @ map (\<lambda>i. pow2 i - 1) [0..<64] @
     map (\<lambda>i. pow2 i + 1) [0..<64] @ map (\<lambda>i. pow2 i + 1) [0..<64] @ sUniqueValues"

lemma length_unique: "length sUniqueValues = 47"
  by (simp add: sUniqueValues_def)

lemma sSpecialValues_eq: "sSpecialValues = Some special_table"
proof -
  define P where "P = (\<lambda>i v. length v = 431 \<and> (\<forall>k<i. v ! k = pow2 k \<and> v ! (k + 64) = - pow2 k \<and>
    v ! (k + 128) = pow2 k - 1 \<and> v ! (k + 192) = pow2 k - 1 \<and>
    v ! (k + 256) = pow2 k + 1 \<and> v ! (k + 320) = pow2 k + 1))"
  have "P 0 (replicate 431 0)" by (simp add: P_def)
  moreover have "\<exists>v'. special_step k v = Some v' \<and> P (Suc k) v'" if "k < 64" "P k v" for k v
    using that by (auto simp: P_def special_step_ok nth_list_update less_Suc_eq)
  ultimately obtain v where v: "for_loop 0 64 special_step (replicate 431 0) = Some v" "P 64 v"
    using for_loop_rule [of P 0 "replicate 431 0" 64 special_step] by auto
  have "take 384 v @ sUniqueValues = special_table"
  proof (rule nth_equalityI)
    show "length (take 384 v @ sUniqueValues) = length special_table"
      using v(2) by (simp add: P_def special_table_def)
  next
    fix j assume "j < length (take 384 v @ sUniqueValues)"
    have pv: "k < 64 \<Longrightarrow> v ! k = pow2 k \<and> v ! (k + 64) = - pow2 k \<and>
      v ! (k + 128) = pow2 k - 1 \<and> v ! (k + 192) = pow2 k - 1 \<and>
      v ! (k + 256) = pow2 k + 1 \<and> v ! (k + 320) = pow2 k + 1" for k
      using v(2) by (simp add: P_def)
    have len: "length v = 431" using v(2) by (simp add: P_def)
    define Q where "Q = (\<lambda>j. (take 384 v @ sUniqueValues) ! j = special_table ! j)"
    have Q: "Q k" "Q (64 + k)" "Q (128 + k)" "Q (192 + k)" "Q (256 + k)" "Q (320 + k)" if "k < 64" for k
      using pv [OF that] that
      by (simp_all add: Q_def special_table_def nth_append len add.commute [of _ k])
    have off: "Q j" if "m \<le> j" "j < m + 64" "\<And>k. k < 64 \<Longrightarrow> Q (m + k)" for m
      using that by (metis le_add_diff_inverse nat_add_left_cancel_less)
    have "Q (384 + k)" for k by (simp add: Q_def special_table_def nth_append len)
    then have "Q j" if "384 \<le> j" using that by (metis le_add_diff_inverse)
    moreover have "j < 64 \<or> 64 \<le> j \<and> j < 128 \<or> 128 \<le> j \<and> j < 192 \<or> 192 \<le> j \<and> j < 256 \<or>
        256 \<le> j \<and> j < 320 \<or> 320 \<le> j \<and> j < 384 \<or> 384 \<le> j" by linarith
    ultimately have "Q j"
      using Q off [of 64] off [of 128] off [of 192] off [of 256] off [of 320] by auto
    then show "(take 384 v @ sUniqueValues) ! j = special_table ! j" by (simp add: Q_def)
  qed
  with v(1) show ?thesis by (simp add: sSpecialValues_def length_unique Let_def)
qed

section \<open>The pairs of special values\<close>

lemma fill_pairs_ok:
  assumes "n \<le> length A" "n \<le> length B"
    and "i = a * length sp + b" "a < length sp" "b < length sp" "i \<le> n"
  shows "\<exists>A' B'. fill_pairs sp n i a b A B = Some (min n (length sp * length sp - 1), A', B') \<and>
    length A' = length A \<and> length B' = length B \<and>
    (\<forall>k<i. A' ! k = A ! k \<and> B' ! k = B ! k) \<and>
    (\<forall>k. i \<le> k \<and> k < n \<and> k < length sp * length sp \<longrightarrow>
       A' ! k = sp ! (k div length sp) \<and> B' ! k = sp ! (k mod length sp))"
  using assms
proof (induction sp n i a b A B rule: fill_pairs.induct)
  case (1 sp n i a b A B)
  let ?L = "length sp"
  note p = 1(3-)
  have L: "0 < ?L" using p(4) by (rule le_less_trans [OF le0])
  have idx: "i div ?L = a" "i mod ?L = b"
    using p(5) L by (simp_all add: p(3))
  have "i < Suc a * ?L" using p by simp
  also have "\<dots> \<le> ?L * ?L" using p(4) by (intro mult_le_mono1) simp
  finally have lt: "i < ?L * ?L" .
  show ?case
  proof (cases "i < n")
    case False
    with p(6) lt show ?thesis by (subst fill_pairs.simps) (auto simp: min_def)
  next
    case True
    let ?A = "A[i := sp ! a]" and ?B = "B[i := sp ! b]"
    have step: "fill_pairs sp n i a b A B =
        (if b + 1 = ?L then if a + 1 = ?L then Some (i, ?A, ?B) else fill_pairs sp n (i + 1) (a + 1) 0 ?A ?B
         else fill_pairs sp n (i + 1) a (b + 1) ?A ?B)"
      using True p by (subst fill_pairs.simps) simp
    have ext: ?thesis
      if r: "fill_pairs sp n i a b A B = Some (min n (?L * ?L - 1), A', B')"
        "length A' = length ?A" "length B' = length ?B"
        "\<forall>k<i + 1. A' ! k = ?A ! k \<and> B' ! k = ?B ! k"
        "\<forall>k. i + 1 \<le> k \<and> k < n \<and> k < ?L * ?L \<longrightarrow> A' ! k = sp ! (k div ?L) \<and> B' ! k = sp ! (k mod ?L)"
      for A' B'
    proof (intro exI conjI allI impI)
      show "fill_pairs sp n i a b A B = Some (min n (?L * ?L - 1), A', B')" by (rule r(1))
      show "A' ! k = A ! k" "B' ! k = B ! k" if "k < i" for k using that r(4) by auto
      have "A' ! i = sp ! a" "B' ! i = sp ! b" using r(4) True p(1,2) by auto
      then show "A' ! k = sp ! (k div ?L)" "B' ! k = sp ! (k mod ?L)"
        if "i \<le> k \<and> k < n \<and> k < ?L * ?L" for k
        using that r(5) idx by (cases "k = i"; simp)+
    qed (use r(2,3) in simp_all)
    consider "b + 1 = ?L" "a + 1 = ?L" | "b + 1 = ?L" "a + 1 \<noteq> ?L" | "b + 1 \<noteq> ?L" by blast
    then show ?thesis
    proof cases
      case 1
      then have "i = ?L * ?L - 1" using p(3)
        by (metis (no_types, opaque_lifting) Suc_eq_plus1 add_diff_cancel_left' add_diff_cancel_right' diff_Suc_1 mult.commute mult_Suc_right mult_Suc add.assoc)
      moreover from this have "min n (?L * ?L - 1) = i" using True by simp
      ultimately show ?thesis using step 1 by (intro ext [of ?A ?B]) auto
    next
      case 2
      then have i: "i + 1 = (a + 1) * ?L + 0" using p(3) by simp
      have st: "fill_pairs sp n i a b A B = fill_pairs sp n (i + 1) (a + 1) 0 ?A ?B"
        using step 2 by simp
      have "\<exists>A' B'. fill_pairs sp n (i + 1) (a + 1) 0 ?A ?B = Some (min n (?L * ?L - 1), A', B') \<and>
        length A' = length ?A \<and> length B' = length ?B \<and>
        (\<forall>k<i + 1. A' ! k = ?A ! k \<and> B' ! k = ?B ! k) \<and>
        (\<forall>k. i + 1 \<le> k \<and> k < n \<and> k < ?L * ?L \<longrightarrow> A' ! k = sp ! (k div ?L) \<and> B' ! k = sp ! (k mod ?L))"
        by (rule 1(1) [of "sp ! a" "sp ! b" ?A ?B]) (use True p(1,2,4-6) 2 L i in simp_all)
      then show ?thesis unfolding st [symmetric] by (elim exE conjE) (rule ext)
    next
      case 3
      then have i: "i + 1 = a * ?L + (b + 1)" using p(3) by simp
      have st: "fill_pairs sp n i a b A B = fill_pairs sp n (i + 1) a (b + 1) ?A ?B"
        using step 3 by simp
      have "\<exists>A' B'. fill_pairs sp n (i + 1) a (b + 1) ?A ?B = Some (min n (?L * ?L - 1), A', B') \<and>
        length A' = length ?A \<and> length B' = length ?B \<and>
        (\<forall>k<i + 1. A' ! k = ?A ! k \<and> B' ! k = ?B ! k) \<and>
        (\<forall>k. i + 1 \<le> k \<and> k < n \<and> k < ?L * ?L \<longrightarrow> A' ! k = sp ! (k div ?L) \<and> B' ! k = sp ! (k mod ?L))"
        by (rule 1(2) [of "sp ! a" "sp ! b" ?A ?B]) (use True p(1,2,4-6) 3 L i in simp_all)
      then show ?thesis unfolding st [symmetric] by (elim exE conjE) (rule ext)
    qed
  qed
qed

section \<open>Random remainder and narrow data\<close>

context random_source begin

lemma random_long_total: "inv d \<Longrightarrow> \<exists>x d'. random_long gen d = Some (x, d') \<and> inv d'"
proof -
  assume "inv d"
  then obtain a d1 where 1: "gen d = Some (a, d1)" "inv d1" using gen_total by blast
  from 1(2) obtain b d2 where "gen d1 = Some (b, d2)" "inv d2" using gen_total by blast
  with 1 show ?thesis by (simp add: random_long_def)
qed

lemma random_fill_ok:
  fixes i n :: nat
  assumes "inv d" "n \<le> length A" "n \<le> length B" "i \<le> n"
  defines "body \<equiv> (\<lambda>i (A, B, d). do {
       (x, d) \<leftarrow> random_long gen d; A \<leftarrow> wr A i x;
       (y, d) \<leftarrow> random_long gen d; B \<leftarrow> wr B i y;
       Some (A, B, d) })"
  shows "\<exists>A' B' d'. for_loop i n body (A, B, d) = Some (A', B', d') \<and> inv d' \<and>
    length A' = length A \<and> length B' = length B \<and> (\<forall>k<i. A' ! k = A ! k \<and> B' ! k = B ! k)"
    and "i < n \<Longrightarrow> \<exists>A' B' d' d1 d2. for_loop i n body (A, B, d) = Some (A', B', d') \<and>
      random_long gen d = Some (A' ! i, d1) \<and> random_long gen d1 = Some (B' ! i, d2)"
proof -
  have *: "\<exists>A' B' d'. for_loop m n body (X, Y, e) = Some (A', B', d') \<and> inv d' \<and>
      length A' = length X \<and> length B' = length Y \<and> (\<forall>k<m. A' ! k = X ! k \<and> B' ! k = Y ! k)"
    if e: "inv e" "m \<le> n" "length X = length A" "length Y = length B" for m X Y e
  proof -
    define P where "P = (\<lambda>(k::nat) (A', B', d'). inv d' \<and> length A' = length X \<and> length B' = length Y \<and>
      (\<forall>k<m. A' ! k = X ! k \<and> B' ! k = Y ! k))"
    have "P m (X, Y, e)" using e by (simp add: P_def)
    moreover have "\<exists>t'. body k t = Some t' \<and> P (Suc k) t'" if "m \<le> k" "k < n" "P k t" for k t
    proof -
      obtain A1 B1 d1 where t: "t = (A1, B1, d1)" by (cases t)
      with that have "inv d1" by (simp add: P_def)
      then obtain x d2 where x: "random_long gen d1 = Some (x, d2)" "inv d2"
        using random_long_total by blast
      then obtain y d3 where y: "random_long gen d2 = Some (y, d3)" "inv d3"
        using random_long_total by blast
      with x that e assms(2,3) t show ?thesis by (simp add: body_def P_def)
    qed
    ultimately show ?thesis
      using for_loop_rule [of P m "(X, Y, e)" n body] e(2) by (auto simp: P_def)
  qed
  from * [of d i A B] assms show "\<exists>A' B' d'. for_loop i n body (A, B, d) = Some (A', B', d') \<and> inv d' \<and>
    length A' = length A \<and> length B' = length B \<and> (\<forall>k<i. A' ! k = A ! k \<and> B' ! k = B ! k)" by simp
  assume i: "i < n"
  obtain x d1 where x: "random_long gen d = Some (x, d1)" "inv d1" using random_long_total assms(1) by blast
  obtain y d2 where y: "random_long gen d1 = Some (y, d2)" "inv d2" using random_long_total x(2) by blast
  have "for_loop i n body (A, B, d) = for_loop (Suc i) n body (A[i := x], B[i := y], d2)"
    using i assms(2,3) x y by (simp add: for_loop_step body_def)
  moreover obtain A' B' d' where "for_loop (Suc i) n body (A[i := x], B[i := y], d2) = Some (A', B', d')"
      "\<forall>k<Suc i. A' ! k = A[i := x] ! k \<and> B' ! k = B[i := y] ! k"
    using * [of d2 "Suc i" "A[i := x]" "B[i := y]"] i y(2) by auto
  ultimately show "\<exists>A' B' d' d1 d2. for_loop i n body (A, B, d) = Some (A', B', d') \<and>
      random_long gen d = Some (A' ! i, d1) \<and> random_long gen d1 = Some (B' ! i, d2)"
    using x y i assms(2,3) by auto
qed

lemma fill_test_values_ok:
  assumes "inv d" "n \<le> length A" "n \<le> length B"
  shows "\<exists>A' B' d'. fill_test_values gen n (A, B, d) = Some (A', B', d') \<and> inv d' \<and>
    length A' = length A \<and> length B' = length B \<and>
    (\<forall>k. k < n \<and> k < 431 * 431 - 1 \<longrightarrow>
       A' ! k = special_table ! (k div 431) \<and> B' ! k = special_table ! (k mod 431)) \<and>
    (431 * 431 \<le> n \<longrightarrow> (\<exists>d1 d2. random_long gen d = Some (A' ! (431 * 431 - 1), d1) \<and>
       random_long gen d1 = Some (B' ! (431 * 431 - 1), d2)))"
proof -
  have len: "length special_table = 431" by (simp add: special_table_def length_unique)
  define i where "i = min n (431 * 431 - 1)"
  obtain X Y where f: "fill_pairs special_table n 0 0 0 A B = Some (i, X, Y)"
    "length X = length A" "length Y = length B"
    "\<forall>k. k < n \<and> k < 431 * 431 \<longrightarrow> X ! k = special_table ! (k div 431) \<and> Y ! k = special_table ! (k mod 431)"
    using fill_pairs_ok [of n A B 0 0 special_table 0] assms by (auto simp: len i_def)
  have i: "i \<le> n" "n \<le> length X" "n \<le> length Y" using assms f by (simp_all add: i_def)
  obtain A' B' d' where g: "fill_test_values gen n (A, B, d) = Some (A', B', d')" "inv d'"
    "length A' = length A" "length B' = length B" "\<forall>k<i. A' ! k = X ! k \<and> B' ! k = Y ! k"
    using random_fill_ok(1) [OF assms(1) i(2,3,1)] f(1-3)
    by (auto simp: fill_test_values_def sSpecialValues_eq)
  have "\<exists>d1 d2. random_long gen d = Some (A' ! (431 * 431 - 1), d1) \<and>
       random_long gen d1 = Some (B' ! (431 * 431 - 1), d2)" if "431 * 431 \<le> n"
  proof -
    have "i = 431 * 431 - 1" "i < n" using that by (simp_all add: i_def)
    with random_fill_ok(2) [OF assms(1) i(2,3,1)] f(1) g(1) show ?thesis
      by (auto simp: fill_test_values_def sSpecialValues_eq)
  qed
  moreover have "A' ! k = special_table ! (k div 431) \<and> B' ! k = special_table ! (k mod 431)"
    if "k < n \<and> k < 431 * 431 - 1" for k
    using that f(4) g(5) by (auto simp: i_def)
  ultimately show ?thesis using g by blast
qed

end

section \<open>All pairs of special values\<close>

definition pairs_upto :: "'a list \<Rightarrow> 'a list \<times> 'a list \<Rightarrow> nat \<Rightarrow> 'a list \<times> 'a list \<times> nat \<Rightarrow> bool" where
  "pairs_upto sp AB i = (\<lambda>(A, B, index). index = i \<and> length A = length (fst AB) \<and> length B = length (snd AB) \<and>
     (\<forall>k<i. A ! k = sp ! (k div length sp) \<and> B ! k = sp ! (k mod length sp)) \<and>
     (\<forall>k\<ge>i. A ! k = fst AB ! k \<and> B ! k = snd AB ! k))"

lemma pairs_upto_step:
  assumes "pairs_upto sp AB (x * length sp + y) (A, B, index)" "y < length sp"
    and "x * length sp + y < length (fst AB)" "x * length sp + y < length (snd AB)"
  shows "pairs_upto sp AB (Suc (x * length sp + y)) (A[index := sp ! x], B[index := sp ! y], index + 1)"
proof -
  have "(x * length sp + y) div length sp = x" "(x * length sp + y) mod length sp = y"
    using assms(2) by (cases "length sp = 0"; simp)+
  with assms show ?thesis
    unfolding pairs_upto_def by (auto simp: nth_list_update less_Suc_eq)
qed

definition special_body :: "'a list \<Rightarrow> nat \<Rightarrow> nat \<Rightarrow> 'a list \<times> 'a list \<times> nat \<Rightarrow> ('a list \<times> 'a list \<times> nat) option" where
  "special_body sp x y = (\<lambda>(A, B, index). do {
     A \<leftarrow> wr A index (sp ! x); B \<leftarrow> wr B index (sp ! y); Some (A, B, index + 1) })"

lemma pair_index_less: "x < L \<Longrightarrow> y < L \<Longrightarrow> x * L + y < L * (L :: nat)"
  by (metis (no_types, lifting) add_less_cancel_left less_le_trans mult_Suc Suc_leI mult_le_mono1 add.commute)

lemma fill_special_ok:
  assumes "length sp * length sp \<le> length A" "length sp * length sp \<le> length B"
  shows "\<exists>A' B'. fill_special sp (A, B) = Some (A', B') \<and> length A' = length A \<and> length B' = length B \<and>
    (\<forall>k < length sp * length sp. A' ! k = sp ! (k div length sp) \<and> B' ! k = sp ! (k mod length sp)) \<and>
    (\<forall>k \<ge> length sp * length sp. A' ! k = A ! k \<and> B' ! k = B ! k)"
proof -
  let ?L = "length sp" and ?P = "pairs_upto sp (A, B)"
  have body: "\<exists>t'. special_body sp x y t = Some t' \<and> ?P (x * ?L + Suc y) t'"
    if "x < ?L" "y < ?L" "?P (x * ?L + y) t" for x y t
  proof -
    obtain X Y i where t: "t = (X, Y, i)" by (cases t)
    have lt: "x * ?L + y < length A" "x * ?L + y < length B"
      using pair_index_less [OF that(1,2)] assms by auto
    have "i = x * ?L + y" "length X = length A" "length Y = length B"
      using that(3) by (simp_all add: t pairs_upto_def)
    with pairs_upto_step [of sp "(A, B)" x y X Y i] that lt show ?thesis
      by (simp add: t special_body_def)
  qed
  have inner: "\<exists>t'. for_loop 0 ?L (special_body sp x) t = Some t' \<and> ?P (Suc x * ?L) t'"
    if "x < ?L" "?P (x * ?L) t" for x t
  proof -
    have "\<exists>t'. for_loop 0 ?L (special_body sp x) t = Some t' \<and> ?P (x * ?L + ?L) t'"
      using that body [OF that(1)] by (intro for_loop_rule [where P = "\<lambda>y. ?P (x * ?L + y)"]) auto
    then show ?thesis by (simp add: add.commute)
  qed
  have "\<exists>t. for_loop 0 ?L (\<lambda>x. for_loop 0 ?L (special_body sp x)) (A, B, 0) = Some t \<and> ?P (?L * ?L) t"
    using inner by (intro for_loop_rule [where P = "\<lambda>x. ?P (x * ?L)"]) (auto simp: pairs_upto_def)
  then show ?thesis
    by (auto simp: fill_special_def pairs_upto_def special_body_def [abs_def])
qed

text \<open>With less room than that the function writes past the end.\<close>

lemma fill_special_overrun:
  assumes "length A < length sp * length sp"
  shows "fill_special sp (A, B) = None"
proof (rule ccontr)
  let ?L = "length sp"
  define P where "P = (\<lambda>i (X :: 'a list, Y :: 'a list, j). j = i \<and> length X = length A \<and> i \<le> length A)"
  assume "fill_special sp (A, B) \<noteq> None"
  then obtain t where t: "for_loop 0 ?L (\<lambda>x. for_loop 0 ?L (special_body sp x)) (A, B, 0) = Some t"
    by (auto simp: fill_special_def special_body_def [abs_def] bind_eq_Some_conv)
  have body: "P (x * ?L + Suc y) v" if "P (x * ?L + y) u" "special_body sp x y u = Some v" for x y u v
    using that by (auto simp: P_def special_body_def wr_def bind_eq_Some_conv split: if_splits)
  have inner: "P (Suc x * ?L) v" if "P (x * ?L) u" "for_loop 0 ?L (special_body sp x) u = Some v" for x u v
    using for_loop_partial [OF that(2), of "\<lambda>y. P (x * ?L + y)"] that(1) body
    by (simp add: add.commute)
  have "P (?L * ?L) t"
    using for_loop_partial [OF t, of "\<lambda>x. P (x * ?L)"] inner by (simp add: P_def)
  with assms show False by (auto simp: P_def)
qed

lemma fill_random_ok:
  fixes A B :: "'a list"
  assumes "\<And>d. I d \<Longrightarrow> \<exists>p d'. draw d = Some (p, d') \<and> I d'"
    and "I d" "n \<le> length A" "n \<le> length B"
  shows "\<exists>A' B' d'. fill_random draw n (A, B, d) = Some (A', B', d') \<and> I d' \<and>
    length A' = length A \<and> length B' = length B"
proof -
  let ?body = "\<lambda>j (A, B, d). do {
        ((x, y), d) \<leftarrow> draw d; A \<leftarrow> wr A j x; B \<leftarrow> wr B j y; Some (A, B, d) }"
  define P where "P = (\<lambda>(j::nat) (X :: 'a list, Y :: 'a list, e). I e \<and> length X = length A \<and> length Y = length B)"
  have "P 0 (A, B, d)" using assms by (simp add: P_def)
  moreover have "\<exists>t'. ?body k t = Some t' \<and> P (Suc k) t'" if "k < n" "P k t" for k t
  proof -
    obtain X Y e where t: "t = (X, Y, e)" by (cases t)
    with that have "I e" by (simp add: P_def)
    then obtain x y e' where "draw e = Some ((x, y), e')" "I e'" using assms(1) by fastforce
    with that t assms(3,4) show ?thesis by (simp add: P_def)
  qed
  ultimately show ?thesis
    using for_loop_rule [of P 0 "(A, B, d)" n ?body] by (auto simp: fill_random_def P_def)
qed

lemma init_data_ok:
  assumes "\<And>d. I d \<Longrightarrow> \<exists>p d'. draw d = Some (p, d') \<and> I d'"
    and "I d" "n \<le> length A" "n \<le> length B"
    and "length sp * length sp \<le> length A" "length sp * length sp \<le> length B"
  shows "\<exists>A' B' d'. init_data draw sp n (A, B, d) = Some (A', B', d') \<and> I d' \<and>
    (\<forall>x < length sp. \<forall>y < length sp.
       A' ! (x * length sp + y) = sp ! x \<and> B' ! (x * length sp + y) = sp ! y)"
proof -
  obtain X Y d' where r: "fill_random draw n (A, B, d) = Some (X, Y, d')" "I d'"
      "length X = length A" "length Y = length B"
    using fill_random_ok [where I = I and draw = draw, OF assms(1-4)] by blast
  obtain A' B' where s: "fill_special sp (X, Y) = Some (A', B')"
      "\<forall>k < length sp * length sp. A' ! k = sp ! (k div length sp) \<and> B' ! k = sp ! (k mod length sp)"
    using fill_special_ok [of sp X Y] assms(5,6) r(3,4) by auto
  have "A' ! (x * length sp + y) = sp ! x \<and> B' ! (x * length sp + y) = sp ! y"
    if "x < length sp" "y < length sp" for x y
    using s(2) pair_index_less [OF that] that by (cases "length sp = 0") auto
  with r s show ?thesis by (simp add: init_data_def)
qed

lemma fill_random_length:
  assumes "fill_random draw n (X, Y, d) = Some (X', Y', d')"
  shows "length X' = length X"
proof -
  have "(\<lambda>_ (X', _, _). length X' = length X) n (X', Y', d')"
    using assms unfolding fill_random_def
    by (rule for_loop_partial) (auto simp: bind_eq_Some_conv wr_def split: if_splits)
  then show ?thesis by simp
qed

lemma init_data_short:
  "length X < length sp * length sp \<Longrightarrow> init_data draw sp n (X, Y, d) = None"
  by (cases "fill_random draw n (X, Y, d)")
    (auto simp: init_data_def fill_special_overrun dest: fill_random_length)

context random_source begin

lemma two_draws_total: "inv d \<Longrightarrow> \<exists>p d'. two_draws gen d = Some (p, d') \<and> inv d'"
proof -
  assume "inv d"
  then obtain a d1 where 1: "gen d = Some (a, d1)" "inv d1" using gen_total by blast
  from 1(2) obtain b d2 where "gen d1 = Some (b, d2)" "inv d2" using gen_total by blast
  with 1 show ?thesis by (simp add: two_draws_def)
qed

lemma split_draw_total: "inv d \<Longrightarrow> \<exists>p d'. split_draw gen d = Some (p, d') \<and> inv d'"
  using gen_total [of d] by (auto simp: split_draw_def)

end

text \<open>Every ordered pair of special values, at the position of its indices.\<close>

definition all_pairs :: "'a list \<Rightarrow> ('a list \<times> 'a list \<times> 's) option \<Rightarrow> bool" where
  "all_pairs sp r \<longleftrightarrow> (case r of None \<Rightarrow> False | Some (A, B, d) \<Rightarrow>
     \<forall>x < length sp. \<forall>y < length sp.
       A ! (x * length sp + y) = sp ! x \<and> B ! (x * length sp + y) = sp ! y)"

section \<open>Properties\<close>

text \<open>
  \<open>fill_test_values\<close> enumerates the pairs of special values in order, the second
  operand fastest, as far as the buffer goes, and stays inside its buffers; but when the buffer
  has room for all 431 * 431 pairs the last one does not survive: the loop leaves by
  \<^verbatim>\<open>break\<close> before advancing \<open>i\<close>, so the fill with random values starts on it.
\<close>

theorem fill_test_values_pairs:
  assumes "length (mt d) = MT_N" "mti d \<le> MT_N" and "n \<le> length A" "n \<le> length B"
  shows "\<exists>sp A' B' d'. sSpecialValues = Some sp \<and> length sp = 431 \<and>
    fill_test_values genrand_int32 n (A, B, d) = Some (A', B', d') \<and>
    (\<forall>k. k < n \<and> k < 431 * 431 - 1 \<longrightarrow> A' ! k = sp ! (k div 431) \<and> B' ! k = sp ! (k mod 431)) \<and>
    (431 * 431 \<le> n \<longrightarrow> (\<exists>d1 d2. random_long genrand_int32 d = Some (A' ! (431 * 431 - 1), d1) \<and>
       random_long genrand_int32 d1 = Some (B' ! (431 * 431 - 1), d2)))"
proof -
  have "mt_inv d" using assms by (simp add: mt_inv_def)
  moreover have "length special_table = 431" by (simp add: special_table_def length_unique)
  ultimately show ?thesis
    using scalar.fill_test_values_ok [OF _ assms(3,4)] sSpecialValues_eq by blast
qed

theorem fill_test_values_pairs_witness:
  "\<exists>sp A' B' d'. sSpecialValues = Some sp \<and> length sp = 431 \<and>
    fill_test_values genrand_int32 2 ([0, 0], [0, 0], \<lparr>mt = replicate MT_N 7, cache = [], mti = 0\<rparr>) =
      Some (A', B', d') \<and>
    A' ! 1 = sp ! 0 \<and> B' ! 1 = sp ! 1"
  using fill_test_values_pairs [of "\<lparr>mt = replicate MT_N 7, cache = [], mti = 0\<rparr>" 2 "[0, 0]" "[0, 0]"]
  by force

text \<open>
  The table holds every power of two and its negative, and the neighbours of the powers of
  two; but the neighbours of the negative powers, for which it has two ranges of its own, are
  in neither: those ranges repeat the neighbours of the positive powers, and \<open>-(2^2) - 1\<close>,
  for one, is nowhere in the table.
\<close>

theorem special_values_table:
  "\<exists>sp. sSpecialValues = Some sp \<and>
     (\<forall>k<64. {2 ^ k, - (2 ^ k), 2 ^ k - 1, 2 ^ k + 1} \<subseteq> set sp \<and>
        sp ! (k + 128 + 64) = 2 ^ k - 1 \<and> sp ! (k + 256 + 64) = 2 ^ k + 1) \<and>
     - (2 ^ 2) - 1 \<notin> set sp"
proof -
  have "{2 ^ k, - (2 ^ k), 2 ^ k - 1, 2 ^ k + 1} \<subseteq> set special_table" if "k < 64" for k
    using that by (auto simp: special_table_def pow2_def)
  moreover have "special_table ! (k + 128 + 64) = 2 ^ k - 1 \<and> special_table ! (k + 256 + 64) = 2 ^ k + 1"
    if "k < 64" for k
    using that by (simp add: special_table_def nth_append pow2_def)
  moreover have "- (2 ^ 2) - 1 \<notin> set special_table"
    by (simp add: special_table_def pow2_def sUniqueValues_def upt_rec [of _ "numeral _"])
  ultimately show ?thesis by (intro exI [of _ special_table]) (simp add: sSpecialValues_eq)
qed

theorem special_values_table_witness:
  "\<exists>sp. sSpecialValues = Some sp \<and> - (2 ^ 63) \<in> set sp \<and> sp ! (5 + 128 + 64) = 2 ^ 5 - 1 \<and>
     - (2 ^ 2) - 1 \<notin> set sp"
proof -
  obtain sp where sp: "sSpecialValues = Some sp" "- (2 ^ 2) - 1 \<notin> set sp"
    and all: "\<forall>k<64. {2 ^ k, - (2 ^ k), 2 ^ k - 1, 2 ^ k + 1} \<subseteq> set sp \<and>
        sp ! (k + 128 + 64) = 2 ^ k - 1 \<and> sp ! (k + 256 + 64) = 2 ^ k + 1"
    using special_values_table by blast
  have "- (2 ^ 63) \<in> set sp" "sp ! (5 + 128 + 64) = 2 ^ 5 - 1"
    using all [THEN spec, of 63] all [THEN spec, of 5] by (simp_all only: insert_subset)
  with sp show ?thesis by blast
qed

text \<open>
  C8. Given buffers of at least 36 elements, \<open>init_int_data\<close>, \<open>init_short_data\<close>,
  \<open>init_ushort_data\<close>, \<open>init_char_data\<close> and \<open>init_uchar_data\<close>, and
  \<open>init_uint_data\<close> with its five values, put every ordered pair of their special values in
  the buffers, at the position of its two indices, for any valid generator state.
\<close>

theorem init_data_covers_pairs:
  assumes "length (mt d) = MT_N" "mti d \<le> MT_N"
    and "n \<le> m" "36 \<le> m" "length A = m" "length B = m"
    and "length C = m" "length D = m" "length E = m" "length F = m"
  shows "all_pairs int_cases (init_int_data genrand_int32 n (A, B, d)) \<and>
    all_pairs uint_cases (init_uint_data genrand_int32 n (A, B, d)) \<and>
    all_pairs short_cases (init_short_data genrand_int32 n (C, D, d)) \<and>
    all_pairs ushort_cases (init_ushort_data genrand_int32 n (C, D, d)) \<and>
    all_pairs char_cases (init_char_data genrand_int32 n (E, F, d)) \<and>
    all_pairs uchar_cases (init_uchar_data genrand_int32 n (E, F, d))"
proof -
  have d: "mt_inv d" using assms by (simp add: mt_inv_def)
  have two: "all_pairs sp (init_data (two_draws genrand_int32) sp n (A, B, d))"
    if "length sp * length sp \<le> 36" for sp
    using init_data_ok [of mt_inv "two_draws genrand_int32", OF scalar.two_draws_total d, of n A B sp] assms that
    by (auto simp: all_pairs_def)
  have split: "all_pairs sp (init_data (split_draw genrand_int32) sp n (X, Y, d))"
    if "length sp * length sp \<le> 36" "length X = m" "length Y = m" for sp and X Y :: "'z::len word list"
    using init_data_ok [of mt_inv "split_draw genrand_int32", OF scalar.split_draw_total d, of n X Y sp] assms that
    by (auto simp: all_pairs_def)
  show ?thesis
    by (simp add: init_int_data_def init_uint_data_def init_short_data_def init_ushort_data_def
        init_char_data_def init_uchar_data_def two split assms int_cases_def uint_cases_def
        short_cases_def ushort_cases_def char_cases_def uchar_cases_def)
qed

theorem init_data_covers_pairs_witness:
  "all_pairs char_cases (init_char_data genrand_int32 5
     (replicate 36 0, replicate 36 0, \<lparr>mt = replicate MT_N 7, cache = [], mti = 0\<rparr>))"
  using init_data_covers_pairs [of "\<lparr>mt = replicate MT_N 7, cache = [], mti = 0\<rparr>" 5 36
      "replicate 36 0" "replicate 36 0" "replicate 36 0" "replicate 36 0" "replicate 36 0" "replicate 36 0"]
  by simp

text \<open>
  The special values are written whatever \<open>num_elements\<close> is: with fewer than 36
  elements in the first buffer these functions write past its end, even when asked for no more
  elements than it has.
\<close>

theorem init_data_overrun:
  assumes "length A < 36" "length C < 36" "length E < 36"
  shows "init_int_data gen n (A, B, d) = None \<and>
    init_short_data gen n (C, D, d) = None \<and> init_ushort_data gen n (C, D, d) = None \<and>
    init_char_data gen n (E, F, d) = None \<and> init_uchar_data gen n (E, F, d) = None"
  using assms
  by (simp add: init_data_short init_int_data_def init_short_data_def init_ushort_data_def
      init_char_data_def init_uchar_data_def int_cases_def short_cases_def ushort_cases_def
      char_cases_def uchar_cases_def)

theorem init_data_overrun_witness:
  "init_int_data genrand_int32 4 (replicate 16 0, replicate 16 0, \<lparr>mt = replicate MT_N 7, cache = [], mti = 0\<rparr>) = None"
  using init_data_overrun [of "replicate 16 0" "[]" "[]" genrand_int32 4 "replicate 16 0"] by simp

end
