(* ===== verification/Select.thy ===== *)
theory Select
  imports Prelude
begin

text \<open>
  The reference of the select test, \<^verbatim>\<open>test_conformance/select/util_select.cpp\<close>:
  22 scalar and 22 vector implementations of \<^verbatim>\<open>select\<close>, the functions that
  compare the device's results with them, and the tables that dispatch on the element type. The
  C functions take \<^verbatim>\<open>void *\<close> and cast; a buffer here is a list of words of one
  width, and reading it at another width or past its end is \<open>None\<close>.

  The buffers of one call are distinct, as they are in the test. The messages of the checkers
  are not modelled.
\<close>

section \<open>Types and buffers\<close>

datatype Type = kuchar | kchar | kushort | kshort | khalf | kuint | kint | kfloat | kulong | klong | kdouble

definition type_name :: "Type \<Rightarrow> string" where
  "type_name t = (case t of
     kuchar \<Rightarrow> ''uchar'' | kchar \<Rightarrow> ''char'' | kushort \<Rightarrow> ''ushort'' | kshort \<Rightarrow> ''short''
   | khalf \<Rightarrow> ''half'' | kuint \<Rightarrow> ''uint'' | kint \<Rightarrow> ''int'' | kfloat \<Rightarrow> ''float''
   | kulong \<Rightarrow> ''ulong'' | klong \<Rightarrow> ''long'' | kdouble \<Rightarrow> ''double'')"

definition type_size :: "Type \<Rightarrow> nat" where
  "type_size t = (case t of
     kuchar \<Rightarrow> 1 | kchar \<Rightarrow> 1 | kushort \<Rightarrow> 2 | kshort \<Rightarrow> 2 | khalf \<Rightarrow> 2 | kuint \<Rightarrow> 4
   | kint \<Rightarrow> 4 | kfloat \<Rightarrow> 4 | kulong \<Rightarrow> 8 | klong \<Rightarrow> 8 | kdouble \<Rightarrow> 8)"

fun ctype_of :: "Type \<Rightarrow> nat \<Rightarrow> Type" where
  "ctype_of kuchar k = (if k = 0 then kuchar else kchar)"
| "ctype_of kchar k = (if k = 0 then kuchar else kchar)"
| "ctype_of kushort k = (if k = 0 then kushort else kshort)"
| "ctype_of kshort k = (if k = 0 then kushort else kshort)"
| "ctype_of khalf k = (if k = 0 then kushort else kshort)"
| "ctype_of kuint k = (if k = 0 then kuint else kint)"
| "ctype_of kint k = (if k = 0 then kuint else kint)"
| "ctype_of kfloat k = (if k = 0 then kuint else kint)"
| "ctype_of kulong k = (if k = 0 then kulong else klong)"
| "ctype_of klong k = (if k = 0 then kulong else klong)"
| "ctype_of kdouble k = (if k = 0 then kulong else klong)"

datatype buffer = B8 "u8 list" | B16 "u16 list" | B32 "u32 list" | B64 "u64 list"

text \<open>Destination, \<open>src1\<close>, \<open>src2\<close>, \<open>cmp\<close>, count; the result is the destination.\<close>

type_synonym Select = "buffer \<Rightarrow> buffer \<Rightarrow> buffer \<Rightarrow> buffer \<Rightarrow> nat \<Rightarrow> buffer option"

section \<open>Reference functions\<close>

definition select_loop :: "('a \<Rightarrow> bool) \<Rightarrow> 'a list \<Rightarrow> 'a list \<Rightarrow> 'a list \<Rightarrow> 'a list \<Rightarrow> nat \<Rightarrow> 'a list option" where
  "select_loop c d x y m count = for_loop 0 count
     (\<lambda>i d. do {
        mi \<leftarrow> rd m i;
        v \<leftarrow> (if c mi then rd y i else rd x i);
        wr d i v }) d"

fun sel8 :: "(u8 \<Rightarrow> bool) \<Rightarrow> Select" where
  "sel8 c (B8 d) (B8 x) (B8 y) (B8 m) count = map_option B8 (select_loop c d x y m count)"
| "sel8 c _ _ _ _ count = None"

fun sel16 :: "(u16 \<Rightarrow> bool) \<Rightarrow> Select" where
  "sel16 c (B16 d) (B16 x) (B16 y) (B16 m) count = map_option B16 (select_loop c d x y m count)"
| "sel16 c _ _ _ _ count = None"

fun sel32 :: "(u32 \<Rightarrow> bool) \<Rightarrow> Select" where
  "sel32 c (B32 d) (B32 x) (B32 y) (B32 m) count = map_option B32 (select_loop c d x y m count)"
| "sel32 c _ _ _ _ count = None"

fun sel64 :: "(u64 \<Rightarrow> bool) \<Rightarrow> Select" where
  "sel64 c (B64 d) (B64 x) (B64 y) (B64 m) count = map_option B64 (select_loop c d x y m count)"
| "sel64 c _ _ _ _ count = None"

text \<open>
  In the narrow vector functions the mask is promoted to \<^verbatim>\<open>int\<close> before the test of
  its sign bit.
\<close>

definition refselect_1i8 :: Select where
  "refselect_1i8 = sel8 (\<lambda>m. m \<noteq> 0)"

definition refselect_1u8 :: Select where
  "refselect_1u8 = sel8 (\<lambda>m. m \<noteq> 0)"

definition refselect_1i16 :: Select where
  "refselect_1i16 = sel16 (\<lambda>m. m \<noteq> 0)"

definition refselect_1u16 :: Select where
  "refselect_1u16 = sel16 (\<lambda>m. m \<noteq> 0)"

definition refselect_1i32 :: Select where
  "refselect_1i32 = sel32 (\<lambda>m. m \<noteq> 0)"

definition refselect_1u32 :: Select where
  "refselect_1u32 = sel32 (\<lambda>m. m \<noteq> 0)"

definition refselect_1i64 :: Select where
  "refselect_1i64 = sel64 (\<lambda>m. m \<noteq> 0)"

definition refselect_1u64 :: Select where
  "refselect_1u64 = sel64 (\<lambda>m. m \<noteq> 0)"

definition refselect_1i8u :: Select where
  "refselect_1i8u = sel8 (\<lambda>m. m \<noteq> 0)"

definition refselect_1u8u :: Select where
  "refselect_1u8u = sel8 (\<lambda>m. m \<noteq> 0)"

definition refselect_1i16u :: Select where
  "refselect_1i16u = sel16 (\<lambda>m. m \<noteq> 0)"

definition refselect_1u16u :: Select where
  "refselect_1u16u = sel16 (\<lambda>m. m \<noteq> 0)"

definition refselect_1i32u :: Select where
  "refselect_1i32u = sel32 (\<lambda>m. m \<noteq> 0)"

definition refselect_1u32u :: Select where
  "refselect_1u32u = sel32 (\<lambda>m. m \<noteq> 0)"

definition refselect_1i64u :: Select where
  "refselect_1i64u = sel64 (\<lambda>m. m \<noteq> 0)"

definition refselect_1u64u :: Select where
  "refselect_1u64u = sel64 (\<lambda>m. m \<noteq> 0)"

definition refselect_hhi :: Select where
  "refselect_hhi = sel16 (\<lambda>m. m \<noteq> 0)"

definition refselect_hhu :: Select where
  "refselect_hhu = sel16 (\<lambda>m. m \<noteq> 0)"

definition refselect_ffi :: Select where
  "refselect_ffi = sel32 (\<lambda>m. m \<noteq> 0)"

definition refselect_ffu :: Select where
  "refselect_ffu = sel32 (\<lambda>m. m \<noteq> 0)"

definition refselect_ddi :: Select where
  "refselect_ddi = sel64 (\<lambda>m. m \<noteq> 0)"

definition refselect_ddu :: Select where
  "refselect_ddu = sel64 (\<lambda>m. m \<noteq> 0)"

definition vrefselect_1i8 :: Select where
  "vrefselect_1i8 = sel8 (\<lambda>m. (scast m :: u32) AND 0x80 \<noteq> 0)"

definition vrefselect_1u8 :: Select where
  "vrefselect_1u8 = sel8 (\<lambda>m. (scast m :: u32) AND 0x80 \<noteq> 0)"

definition vrefselect_1i16 :: Select where
  "vrefselect_1i16 = sel16 (\<lambda>m. (scast m :: u32) AND 0x8000 \<noteq> 0)"

definition vrefselect_1u16 :: Select where
  "vrefselect_1u16 = sel16 (\<lambda>m. (scast m :: u32) AND 0x8000 \<noteq> 0)"

definition vrefselect_1i32 :: Select where
  "vrefselect_1i32 = sel32 (\<lambda>m. m AND 0x80000000 \<noteq> 0)"

definition vrefselect_1u32 :: Select where
  "vrefselect_1u32 = sel32 (\<lambda>m. m AND 0x80000000 \<noteq> 0)"

definition vrefselect_1i64 :: Select where
  "vrefselect_1i64 = sel64 (\<lambda>m. m AND 0x8000000000000000 \<noteq> 0)"

definition vrefselect_1u64 :: Select where
  "vrefselect_1u64 = sel64 (\<lambda>m. m AND 0x8000000000000000 \<noteq> 0)"

definition vrefselect_1i8u :: Select where
  "vrefselect_1i8u = sel8 (\<lambda>m. (ucast m :: u32) AND 0x80 \<noteq> 0)"

definition vrefselect_1u8u :: Select where
  "vrefselect_1u8u = sel8 (\<lambda>m. (ucast m :: u32) AND 0x80 \<noteq> 0)"

definition vrefselect_1i16u :: Select where
  "vrefselect_1i16u = sel16 (\<lambda>m. (ucast m :: u32) AND 0x8000 \<noteq> 0)"

definition vrefselect_1u16u :: Select where
  "vrefselect_1u16u = sel16 (\<lambda>m. (ucast m :: u32) AND 0x8000 \<noteq> 0)"

definition vrefselect_1i32u :: Select where
  "vrefselect_1i32u = sel32 (\<lambda>m. m AND 0x80000000 \<noteq> 0)"

definition vrefselect_1u32u :: Select where
  "vrefselect_1u32u = sel32 (\<lambda>m. m AND 0x80000000 \<noteq> 0)"

definition vrefselect_1i64u :: Select where
  "vrefselect_1i64u = sel64 (\<lambda>m. m AND 0x8000000000000000 \<noteq> 0)"

definition vrefselect_1u64u :: Select where
  "vrefselect_1u64u = sel64 (\<lambda>m. m AND 0x8000000000000000 \<noteq> 0)"

definition vrefselect_hhi :: Select where
  "vrefselect_hhi = sel16 (\<lambda>m. (scast m :: u32) AND 0x8000 \<noteq> 0)"

definition vrefselect_hhu :: Select where
  "vrefselect_hhu = sel16 (\<lambda>m. (ucast m :: u32) AND 0x8000 \<noteq> 0)"

definition vrefselect_ffi :: Select where
  "vrefselect_ffi = sel32 (\<lambda>m. m AND 0x80000000 \<noteq> 0)"

definition vrefselect_ffu :: Select where
  "vrefselect_ffu = sel32 (\<lambda>m. m AND 0x80000000 \<noteq> 0)"

definition vrefselect_ddi :: Select where
  "vrefselect_ddi = sel64 (\<lambda>m. m AND 0x8000000000000000 \<noteq> 0)"

definition vrefselect_ddu :: Select where
  "vrefselect_ddu = sel64 (\<lambda>m. m AND 0x8000000000000000 \<noteq> 0)"

fun refSelects :: "Type \<Rightarrow> nat \<Rightarrow> Select" where
  "refSelects kuchar k = (if k = 0 then refselect_1u8u else refselect_1u8)"
| "refSelects kchar k = (if k = 0 then refselect_1i8u else refselect_1i8)"
| "refSelects kushort k = (if k = 0 then refselect_1u16u else refselect_1u16)"
| "refSelects kshort k = (if k = 0 then refselect_1i16u else refselect_1i16)"
| "refSelects khalf k = (if k = 0 then refselect_hhu else refselect_hhi)"
| "refSelects kuint k = (if k = 0 then refselect_1u32u else refselect_1u32)"
| "refSelects kint k = (if k = 0 then refselect_1i32u else refselect_1i32)"
| "refSelects kfloat k = (if k = 0 then refselect_ffu else refselect_ffi)"
| "refSelects kulong k = (if k = 0 then refselect_1u64u else refselect_1u64)"
| "refSelects klong k = (if k = 0 then refselect_1i64u else refselect_1i64)"
| "refSelects kdouble k = (if k = 0 then refselect_ddu else refselect_ddi)"

fun vrefSelects :: "Type \<Rightarrow> nat \<Rightarrow> Select" where
  "vrefSelects kuchar k = (if k = 0 then vrefselect_1u8u else vrefselect_1u8)"
| "vrefSelects kchar k = (if k = 0 then vrefselect_1i8u else vrefselect_1i8)"
| "vrefSelects kushort k = (if k = 0 then vrefselect_1u16u else vrefselect_1u16)"
| "vrefSelects kshort k = (if k = 0 then vrefselect_1i16u else vrefselect_1i16)"
| "vrefSelects khalf k = (if k = 0 then vrefselect_hhu else vrefselect_hhi)"
| "vrefSelects kuint k = (if k = 0 then vrefselect_1u32u else vrefselect_1u32)"
| "vrefSelects kint k = (if k = 0 then vrefselect_1i32u else vrefselect_1i32)"
| "vrefSelects kfloat k = (if k = 0 then vrefselect_ffu else vrefselect_ffi)"
| "vrefSelects kulong k = (if k = 0 then vrefselect_1u64u else vrefselect_1u64)"
| "vrefSelects klong k = (if k = 0 then vrefselect_1i64u else vrefselect_1i64)"
| "vrefSelects kdouble k = (if k = 0 then vrefselect_ddu else vrefselect_ddi)"

section \<open>Check functions\<close>

text \<open>
  \<open>isnan\<close> of a \<^verbatim>\<open>cl_half\<close>, which is an integer type, converts it to
  floating point first and is never true.
\<close>

definition isnan_int :: "u16 \<Rightarrow> bool" where "isnan_int h = False"
definition isnan32 :: "u32 \<Rightarrow> bool" where "isnan32 f \<longleftrightarrow> 0x7f800000 < f AND 0x7fffffff"
definition isnan64 :: "u64 \<Rightarrow> bool" where "isnan64 f \<longleftrightarrow> 0x7ff0000000000000 < f AND 0x7fffffffffffffff"

type_synonym CheckResults = "buffer \<Rightarrow> buffer \<Rightarrow> nat \<Rightarrow> nat option"

text \<open>
  0, or one more than the first index at which the buffers differ and \<open>tol\<close> does not
  excuse it; the loop runs only if \<open>memcmp\<close> finds a difference.
\<close>

definition check_loop :: "('a \<Rightarrow> 'a \<Rightarrow> bool) \<Rightarrow> 'a list \<Rightarrow> 'a list \<Rightarrow> nat \<Rightarrow> nat option" where
  "check_loop tol t c count =
     (if length t < count \<or> length c < count then None
      else if take count t \<noteq> take count c
      then Some (scan (\<lambda>i. \<not> (t ! i \<noteq> c ! i \<and> \<not> tol (c ! i) (t ! i))) 0 count)
      else Some 0)"

fun chk8 :: "(u8 \<Rightarrow> u8 \<Rightarrow> bool) \<Rightarrow> CheckResults" where
  "chk8 tol (B8 t) (B8 c) count = check_loop tol t c count"
| "chk8 tol _ _ count = None"

fun chk16 :: "(u16 \<Rightarrow> u16 \<Rightarrow> bool) \<Rightarrow> CheckResults" where
  "chk16 tol (B16 t) (B16 c) count = check_loop tol t c count"
| "chk16 tol _ _ count = None"

fun chk32 :: "(u32 \<Rightarrow> u32 \<Rightarrow> bool) \<Rightarrow> CheckResults" where
  "chk32 tol (B32 t) (B32 c) count = check_loop tol t c count"
| "chk32 tol _ _ count = None"

fun chk64 :: "(u64 \<Rightarrow> u64 \<Rightarrow> bool) \<Rightarrow> CheckResults" where
  "chk64 tol (B64 t) (B64 c) count = check_loop tol t c count"
| "chk64 tol _ _ count = None"

definition check_uchar :: CheckResults where
  "check_uchar = chk8 (\<lambda>c t. False)"

definition check_char :: CheckResults where
  "check_char = chk8 (\<lambda>c t. False)"

definition check_ushort :: CheckResults where
  "check_ushort = chk16 (\<lambda>c t. False)"

definition check_short :: CheckResults where
  "check_short = chk16 (\<lambda>c t. False)"

definition check_uint :: CheckResults where
  "check_uint = chk32 (\<lambda>c t. False)"

definition check_int :: CheckResults where
  "check_int = chk32 (\<lambda>c t. False)"

definition check_ulong :: CheckResults where
  "check_ulong = chk64 (\<lambda>c t. False)"

definition check_long :: CheckResults where
  "check_long = chk64 (\<lambda>c t. False)"

definition check_half :: CheckResults where
  "check_half = chk16 (\<lambda>c t. isnan_int c \<and> isnan_int t)"

definition check_float :: CheckResults where
  "check_float = chk32 (\<lambda>c t. isnan32 c \<and> isnan32 t)"

definition check_double :: CheckResults where
  "check_double = chk64 (\<lambda>c t. isnan64 c \<and> isnan64 t)"

fun checkResults :: "Type \<Rightarrow> CheckResults" where
  "checkResults kuchar = check_uchar"
| "checkResults kchar = check_char"
| "checkResults kushort = check_ushort"
| "checkResults kshort = check_short"
| "checkResults khalf = check_half"
| "checkResults kuint = check_uint"
| "checkResults kint = check_int"
| "checkResults kfloat = check_float"
| "checkResults kulong = check_ulong"
| "checkResults klong = check_long"
| "checkResults kdouble = check_double"

section \<open>What the loops compute\<close>

lemmas select_functions =
  refselect_1i8_def refselect_1u8_def refselect_1i16_def refselect_1u16_def
  refselect_1i32_def refselect_1u32_def refselect_1i64_def refselect_1u64_def
  refselect_1i8u_def refselect_1u8u_def refselect_1i16u_def refselect_1u16u_def
  refselect_1i32u_def refselect_1u32u_def refselect_1i64u_def refselect_1u64u_def
  refselect_hhi_def refselect_hhu_def refselect_ffi_def refselect_ffu_def
  refselect_ddi_def refselect_ddu_def vrefselect_1i8_def vrefselect_1u8_def
  vrefselect_1i16_def vrefselect_1u16_def vrefselect_1i32_def vrefselect_1u32_def
  vrefselect_1i64_def vrefselect_1u64_def vrefselect_1i8u_def vrefselect_1u8u_def
  vrefselect_1i16u_def vrefselect_1u16u_def vrefselect_1i32u_def vrefselect_1u32u_def
  vrefselect_1i64u_def vrefselect_1u64u_def vrefselect_hhi_def vrefselect_hhu_def
  vrefselect_ffi_def vrefselect_ffu_def vrefselect_ddi_def vrefselect_ddu_def

lemmas check_functions =
  check_uchar_def check_char_def check_ushort_def check_short_def
  check_uint_def check_int_def check_ulong_def check_long_def
  check_half_def check_float_def check_double_def

lemma select_loop_ok:
  assumes "n \<le> length d" "n \<le> length x" "n \<le> length y" "n \<le> length m"
  shows "\<exists>r. select_loop c d x y m n = Some r \<and> length r = length d \<and>
    (\<forall>i < length d. r ! i = (if i < n then if c (m ! i) then y ! i else x ! i else d ! i))"
proof -
  let ?body = "\<lambda>i d. do { mi \<leftarrow> rd m i; v \<leftarrow> (if c mi then rd y i else rd x i); wr d i v }"
  define P where "P = (\<lambda>k r. length r = length d \<and>
    (\<forall>i < length d. r ! i = (if i < k then if c (m ! i) then y ! i else x ! i else d ! i)))"
  have "P 0 d" by (simp add: P_def)
  moreover have "\<exists>r'. ?body k r = Some r' \<and> P (Suc k) r'" if "k < n" "P k r" for k r
    using that assms by (cases "c (m ! k)") (auto simp: P_def nth_list_update less_Suc_eq)
  ultimately show ?thesis
    using for_loop_rule [of P 0 d n ?body] by (auto simp: select_loop_def P_def)
qed

text \<open>An element of any buffer, zero-extended; a buffer with room for \<open>n\<close> elements of a type.\<close>

fun elem_at :: "buffer \<Rightarrow> nat \<Rightarrow> u64" where
  "elem_at (B8 xs) i = ucast (xs ! i)"
| "elem_at (B16 xs) i = ucast (xs ! i)"
| "elem_at (B32 xs) i = ucast (xs ! i)"
| "elem_at (B64 xs) i = xs ! i"

fun elem_size :: "buffer \<Rightarrow> nat" where
  "elem_size (B8 xs) = 1"
| "elem_size (B16 xs) = 2"
| "elem_size (B32 xs) = 4"
| "elem_size (B64 xs) = 8"

fun buffer_length :: "buffer \<Rightarrow> nat" where
  "buffer_length (B8 xs) = length xs"
| "buffer_length (B16 xs) = length xs"
| "buffer_length (B32 xs) = length xs"
| "buffer_length (B64 xs) = length xs"

definition holds :: "Type \<Rightarrow> nat \<Rightarrow> buffer \<Rightarrow> bool" where
  "holds t n b \<longleftrightarrow> elem_size b = type_size t \<and> n \<le> buffer_length b"

text \<open>\<open>r\<close> is \<open>d\<close> with its first \<open>n\<close> elements selected by \<open>C\<close> of the mask.\<close>

definition selected :: "(u64 \<Rightarrow> bool) \<Rightarrow> buffer \<Rightarrow> buffer \<Rightarrow> buffer \<Rightarrow> buffer \<Rightarrow> nat \<Rightarrow> buffer \<Rightarrow> bool" where
  "selected C d x y m n r \<longleftrightarrow> elem_size r = elem_size d \<and> buffer_length r = buffer_length d \<and>
     (\<forall>i < buffer_length d. elem_at r i =
        (if i < n then if C (elem_at m i) then elem_at y i else elem_at x i else elem_at d i))"

lemma sel_ok:
  assumes "elem_size d = w" "elem_size x = w" "elem_size y = w" "elem_size m = w"
    and "n \<le> buffer_length d" "n \<le> buffer_length x" "n \<le> buffer_length y" "n \<le> buffer_length m"
  shows "w = 1 \<Longrightarrow> (\<And>v. c8 v \<longleftrightarrow> C (ucast v)) \<Longrightarrow> \<exists>r. sel8 c8 d x y m n = Some r \<and> selected C d x y m n r"
    and "w = 2 \<Longrightarrow> (\<And>v. c16 v \<longleftrightarrow> C (ucast v)) \<Longrightarrow> \<exists>r. sel16 c16 d x y m n = Some r \<and> selected C d x y m n r"
    and "w = 4 \<Longrightarrow> (\<And>v. c32 v \<longleftrightarrow> C (ucast v)) \<Longrightarrow> \<exists>r. sel32 c32 d x y m n = Some r \<and> selected C d x y m n r"
    and "w = 8 \<Longrightarrow> (\<And>v. c64 v \<longleftrightarrow> C v) \<Longrightarrow> \<exists>r. sel64 c64 d x y m n = Some r \<and> selected C d x y m n r"
proof -
  assume "w = 1" and c: "\<And>v. c8 v \<longleftrightarrow> C (ucast v)"
  then obtain d' x' y' m' where b: "d = B8 d'" "x = B8 x'" "y = B8 y'" "m = B8 m'"
    using assms by (cases d; cases x; cases y; cases m) auto
  then obtain r where "select_loop c8 d' x' y' m' n = Some r" "length r = length d'"
    "\<forall>i < length d'. r ! i = (if i < n then if c8 (m' ! i) then y' ! i else x' ! i else d' ! i)"
    using select_loop_ok [of n d' x' y' m' c8] assms by auto
  then show "\<exists>r. sel8 c8 d x y m n = Some r \<and> selected C d x y m n r"
    by (simp add: b selected_def c)
next
  assume "w = 2" and c: "\<And>v. c16 v \<longleftrightarrow> C (ucast v)"
  then obtain d' x' y' m' where b: "d = B16 d'" "x = B16 x'" "y = B16 y'" "m = B16 m'"
    using assms by (cases d; cases x; cases y; cases m) auto
  then obtain r where "select_loop c16 d' x' y' m' n = Some r" "length r = length d'"
    "\<forall>i < length d'. r ! i = (if i < n then if c16 (m' ! i) then y' ! i else x' ! i else d' ! i)"
    using select_loop_ok [of n d' x' y' m' c16] assms by auto
  then show "\<exists>r. sel16 c16 d x y m n = Some r \<and> selected C d x y m n r"
    by (simp add: b selected_def c)
next
  assume "w = 4" and c: "\<And>v. c32 v \<longleftrightarrow> C (ucast v)"
  then obtain d' x' y' m' where b: "d = B32 d'" "x = B32 x'" "y = B32 y'" "m = B32 m'"
    using assms by (cases d; cases x; cases y; cases m) auto
  then obtain r where "select_loop c32 d' x' y' m' n = Some r" "length r = length d'"
    "\<forall>i < length d'. r ! i = (if i < n then if c32 (m' ! i) then y' ! i else x' ! i else d' ! i)"
    using select_loop_ok [of n d' x' y' m' c32] assms by auto
  then show "\<exists>r. sel32 c32 d x y m n = Some r \<and> selected C d x y m n r"
    by (simp add: b selected_def c)
next
  assume "w = 8" and c: "\<And>v. c64 v \<longleftrightarrow> C v"
  then obtain d' x' y' m' where b: "d = B64 d'" "x = B64 x'" "y = B64 y'" "m = B64 m'"
    using assms by (cases d; cases x; cases y; cases m) auto
  then obtain r where "select_loop c64 d' x' y' m' n = Some r" "length r = length d'"
    "\<forall>i < length d'. r ! i = (if i < n then if c64 (m' ! i) then y' ! i else x' ! i else d' ! i)"
    using select_loop_ok [of n d' x' y' m' c64] assms by auto
  then show "\<exists>r. sel64 c64 d x y m n = Some r \<and> selected C d x y m n r"
    by (simp add: b selected_def c)
qed

lemma ucast_back:
  "ucast (ucast (a :: u8) :: u64) = a" "ucast (ucast (b :: u16) :: u64) = b" "ucast (ucast (c :: u32) :: u64) = c"
  by (rule bit_word_eqI; simp add: bit_simps)+

lemma ucast_u64_eq:
  "(ucast (a :: u8) :: u64) = ucast a' \<longleftrightarrow> a = a'"
  "(ucast (b :: u16) :: u64) = ucast b' \<longleftrightarrow> b = b'"
  "(ucast (c :: u32) :: u64) = ucast c' \<longleftrightarrow> c = c'"
  by (metis ucast_back)+

lemma ucast_u64_zero:
  "(ucast (a :: u8) :: u64) = 0 \<longleftrightarrow> a = 0" "(ucast (b :: u16) :: u64) = 0 \<longleftrightarrow> b = 0"
  "(ucast (c :: u32) :: u64) = 0 \<longleftrightarrow> c = 0"
  using ucast_u64_eq [of _ 0] by simp_all

text \<open>The mask tests are tests of the top bit of the element.\<close>

lemma and_power_bit: "(x :: 'a::len word) AND 2 ^ n \<noteq> 0 \<longleftrightarrow> bit x n"
  by (simp add: and_exp_eq_0_iff_not_bit)

lemma sign_tests:
  "(scast (a :: u8) :: u32) AND 0x80 \<noteq> 0 \<longleftrightarrow> bit (ucast a :: u64) 7"
  "(ucast a :: u32) AND 0x80 \<noteq> 0 \<longleftrightarrow> bit (ucast a :: u64) 7"
  "(scast (b :: u16) :: u32) AND 0x8000 \<noteq> 0 \<longleftrightarrow> bit (ucast b :: u64) 15"
  "(ucast b :: u32) AND 0x8000 \<noteq> 0 \<longleftrightarrow> bit (ucast b :: u64) 15"
  "(c :: u32) AND 0x80000000 \<noteq> 0 \<longleftrightarrow> bit (ucast c :: u64) 31"
  "(d :: u64) AND 0x8000000000000000 \<noteq> 0 \<longleftrightarrow> bit d 63"
  using and_power_bit [of "scast a :: u32" 7] and_power_bit [of "ucast a :: u32" 7]
    and_power_bit [of "scast b :: u32" 15] and_power_bit [of "ucast b :: u32" 15]
    and_power_bit [of c 31] and_power_bit [of d 63]
  by (simp_all add: bit_simps)

section \<open>What the checkers compute\<close>

lemma check_loop_ok:
  assumes "n \<le> length t" "n \<le> length c"
  shows "\<exists>r. check_loop tol t c n = Some r \<and>
    (r = 0 \<longleftrightarrow> (\<forall>i<n. t ! i = c ! i \<or> tol (c ! i) (t ! i))) \<and>
    (\<forall>k. r = Suc k \<longrightarrow> k < n \<and> \<not> (t ! k = c ! k \<or> tol (c ! k) (t ! k)) \<and>
      (\<forall>i<k. t ! i = c ! i \<or> tol (c ! i) (t ! i)))"
proof (cases "take n t = take n c")
  case True
  then have "t ! i = c ! i" if "i < n" for i
    using that by (metis nth_take)
  with True assms show ?thesis by (simp add: check_loop_def)
next
  case False
  then show ?thesis
    using assms by (auto simp: check_loop_def scan_zero_iff scan_Suc_iff)
qed

text \<open>The verdict of a checker, over any buffer: \<open>ok i\<close> says that element \<open>i\<close> passes.\<close>

definition verdict :: "(nat \<Rightarrow> bool) \<Rightarrow> nat \<Rightarrow> nat option \<Rightarrow> bool" where
  "verdict ok n r \<longleftrightarrow> (case r of None \<Rightarrow> False
     | Some 0 \<Rightarrow> \<forall>i<n. ok i
     | Some (Suc k) \<Rightarrow> k < n \<and> \<not> ok k \<and> (\<forall>i<k. ok i))"

lemma check_loop_verdict:
  "n \<le> length t \<Longrightarrow> n \<le> length c \<Longrightarrow> (\<And>i. i < n \<Longrightarrow> ok i \<longleftrightarrow> t ! i = c ! i \<or> tol (c ! i) (t ! i)) \<Longrightarrow>
     verdict ok n (check_loop tol t c n)"
  using check_loop_ok [of n t c tol] by (auto simp: verdict_def split: nat.splits)

definition nan_at :: "Type \<Rightarrow> u64 \<Rightarrow> bool" where
  "nan_at t v \<longleftrightarrow> t = kfloat \<and> isnan32 (ucast v) \<or> t = kdouble \<and> isnan64 v"

lemma chk_ok:
  assumes "elem_size t = w" "elem_size c = w" "n \<le> buffer_length t" "n \<le> buffer_length c"
    and "\<And>i. i < n \<Longrightarrow> ok i \<longleftrightarrow> elem_at t i = elem_at c i \<or> N (elem_at c i) \<and> N (elem_at t i)"
  shows "w = 1 \<Longrightarrow> (\<And>u v. t8 u v \<longleftrightarrow> N (ucast u) \<and> N (ucast v)) \<Longrightarrow> verdict ok n (chk8 t8 t c n)"
    and "w = 2 \<Longrightarrow> (\<And>u v. t16 u v \<longleftrightarrow> N (ucast u) \<and> N (ucast v)) \<Longrightarrow> verdict ok n (chk16 t16 t c n)"
    and "w = 4 \<Longrightarrow> (\<And>u v. t32 u v \<longleftrightarrow> N (ucast u) \<and> N (ucast v)) \<Longrightarrow> verdict ok n (chk32 t32 t c n)"
    and "w = 8 \<Longrightarrow> (\<And>u v. t64 u v \<longleftrightarrow> N u \<and> N v) \<Longrightarrow> verdict ok n (chk64 t64 t c n)"
  using assms
  by (cases t; cases c; auto simp: ucast_u64_eq intro!: check_loop_verdict)+

section \<open>Properties\<close>

text \<open>
  C9. Every entry of \<open>refSelects\<close> is the scalar \<^verbatim>\<open>select\<close>: for each of the 11
  element types and both signednesses of the mask, on buffers of the table's own element size it
  reads and writes in range, and element \<open>i\<close> of the result is \<open>src2\<close>'s where the mask
  is nonzero and \<open>src1\<close>'s elsewhere; elements past \<open>count\<close> are kept.
\<close>

theorem refSelects_correct:
  assumes "holds t n d" "holds t n x" "holds t n y" "holds (ctype_of t k) n m"
  shows "\<exists>r. refSelects t k d x y m n = Some r \<and> selected (\<lambda>v. v \<noteq> 0) d x y m n r"
proof -
  have "elem_size m = type_size t" using assms(4) by (cases t) (auto simp: holds_def type_size_def)
  with assms have "elem_size d = type_size t" "elem_size x = type_size t" "elem_size y = type_size t"
    "elem_size m = type_size t" "n \<le> buffer_length d" "n \<le> buffer_length x" "n \<le> buffer_length y"
    "n \<le> buffer_length m" by (auto simp: holds_def)
  note sel = sel_ok [OF this, where C = "\<lambda>v. v \<noteq> 0"]
  show ?thesis
    by (cases t; simp add: select_functions; intro conjI impI; rule sel; simp add: type_size_def ucast_u64_zero)
qed

theorem refSelects_correct_witness:
  "\<exists>r. refSelects khalf 1 (B16 [0, 0, 9]) (B16 [1, 2]) (B16 [3, 4]) (B16 [0, 5]) 2 = Some r \<and>
     selected (\<lambda>v. v \<noteq> 0) (B16 [0, 0, 9]) (B16 [1, 2]) (B16 [3, 4]) (B16 [0, 5]) 2 r"
  using refSelects_correct [of khalf 2 "B16 [0, 0, 9]" "B16 [1, 2]" "B16 [3, 4]" 1 "B16 [0, 5]"]
  by (simp add: holds_def type_size_def)

text \<open>
  Every entry of \<open>vrefSelects\<close> is the vector \<^verbatim>\<open>select\<close>, which looks at
  the most significant bit of the mask element only, promotion of narrow masks notwithstanding.
\<close>

theorem vrefSelects_correct:
  assumes "holds t n d" "holds t n x" "holds t n y" "holds (ctype_of t k) n m"
  shows "\<exists>r. vrefSelects t k d x y m n = Some r \<and>
    selected (\<lambda>v. bit v (8 * type_size t - 1)) d x y m n r"
proof -
  have "elem_size m = type_size t" using assms(4) by (cases t) (auto simp: holds_def type_size_def)
  with assms have "elem_size d = type_size t" "elem_size x = type_size t" "elem_size y = type_size t"
    "elem_size m = type_size t" "n \<le> buffer_length d" "n \<le> buffer_length x" "n \<le> buffer_length y"
    "n \<le> buffer_length m" by (auto simp: holds_def)
  define b where "b = 8 * type_size t - 1"
  note sel = sel_ok [OF \<open>elem_size d = _\<close> \<open>elem_size x = _\<close> \<open>elem_size y = _\<close> \<open>elem_size m = _\<close>
      \<open>n \<le> buffer_length d\<close> \<open>n \<le> buffer_length x\<close> \<open>n \<le> buffer_length y\<close> \<open>n \<le> buffer_length m\<close>,
      where C = "\<lambda>v. bit v b"]
  have "\<exists>r. vrefSelects t k d x y m n = Some r \<and> selected (\<lambda>v. bit v b) d x y m n r"
    by (cases t; cases "k = 0"; simp only: vrefSelects.simps select_functions if_True if_False simp_thms;
        rule sel; simp only: sign_tests b_def type_size_def; simp)
  then show ?thesis by (simp only: b_def)
qed

theorem vrefSelects_correct_witness:
  "\<exists>r. vrefSelects kchar 1 (B8 [0, 0]) (B8 [1, 2]) (B8 [3, 4]) (B8 [1, 0x80]) 2 = Some r \<and>
     selected (\<lambda>v. bit v (8 * type_size kchar - 1)) (B8 [0, 0]) (B8 [1, 2]) (B8 [3, 4]) (B8 [1, 0x80]) 2 r"
  using vrefSelects_correct [of kchar 2 "B8 [0, 0]" "B8 [1, 2]" "B8 [3, 4]" 1 "B8 [1, 0x80]"]
  by (simp add: holds_def type_size_def)

text \<open>
  C10. Every entry of \<open>checkResults\<close> returns 0 exactly when all \<open>count\<close> elements pass,
  else one more than the index of the first that does not. Elements pass when equal, or, for
  float and double, when both are NaN. The half checker makes no such allowance, although its
  comment says so: its \<^verbatim>\<open>isnan\<close> is applied to integers.
\<close>

theorem checkResults_correct:
  assumes "holds t n u" "holds t n v"
  shows "verdict (\<lambda>i. elem_at u i = elem_at v i \<or> nan_at t (elem_at v i) \<and> nan_at t (elem_at u i)) n
    (checkResults t u v n)"
proof -
  have "elem_size u = type_size t" "elem_size v = type_size t" "n \<le> buffer_length u" "n \<le> buffer_length v"
    using assms by (auto simp: holds_def)
  note chk = chk_ok [OF this, where N = "nan_at t"]
  show ?thesis
    by (cases t; simp add: check_functions; rule chk;
        simp add: type_size_def nan_at_def isnan_int_def ucast_back)
qed

theorem checkResults_correct_witness:
  "verdict (\<lambda>i. elem_at (B16 [0x7e00]) i = elem_at (B16 [0x7e01]) i \<or>
      nan_at khalf (elem_at (B16 [0x7e01]) i) \<and> nan_at khalf (elem_at (B16 [0x7e00]) i)) 1
    (checkResults khalf (B16 [0x7e00]) (B16 [0x7e01]) 1)"
  by (rule checkResults_correct) (simp_all add: holds_def type_size_def)

end
