(* ===== verification/ThreadPool.thy ===== *)
theory ThreadPool
  imports Prelude
begin

text \<open>
  The thread pool of \<^verbatim>\<open>test_common/harness/ThreadPool.cpp\<close> (the POSIX, GCC
  build) as a transition system: the state it shares, one program counter per worker thread
  (\<open>ThreadPool_WorkerFunc\<close>), one for the thread that starts the pool
  (\<open>ThreadPool_Init\<close>) and then calls \<open>ThreadPool_Do\<close>, and a step per atomic
  operation or pthread call. An event names the thread that moves; wake-ups that no broadcast
  caused, which POSIX allows, are events of their own. What is proved: a reachability invariant;
  that a call returns success only when every job ran exactly once and succeeded, if the caller
  is not woken spuriously, and what goes wrong if it is; that a call with work to do never
  deadlocks; and that a call with no work never returns.

  Not modelled: \<open>ThreadPool_Exit\<close>, which runs after the last call (the workers' exit on
  an item of \<open>MAX_COUNT\<close> or more is); pthread calls that fail; wrap-around of
  \<open>gRunCount\<close>, which needs 2^31 futile wake-ups.
\<close>

section \<open>State\<close>

definition MAX_COUNT :: int where "MAX_COUNT = 2 ^ 29"

text \<open>
  What a worker does next. The comment names the operation of the source. The argument is the
  local \<open>item\<close> (or \<open>err\<close>).
\<close>

datatype wpc =
    W_New              \<comment> \<open>not created yet\<close>
  | W_Start            \<comment> \<open>\<open>item = gRunCount--\<close>\<close>
  | W_LockCond         \<comment> \<open>lock \<open>cond_lock\<close>\<close>
  | W_DecRunning       \<comment> \<open>\<open>remaining = gRunning--\<close>\<close>
  | W_LockCaller       \<comment> \<open>lock \<open>caller_cond_lock\<close>\<close>
  | W_Broadcast        \<comment> \<open>broadcast \<open>caller_cond_var\<close>\<close>
  | W_UnlockCaller     \<comment> \<open>unlock \<open>caller_cond_lock\<close>\<close>
  | W_CondWait         \<comment> \<open>\<open>pthread_cond_wait\<close>, which unlocks \<open>cond_lock\<close>\<close>
  | W_Waiting          \<comment> \<open>in the wait\<close>
  | W_Reacquire        \<comment> \<open>woken, to lock \<open>cond_lock\<close> again\<close>
  | W_Retry            \<comment> \<open>\<open>item = gRunCount--\<close> in the wait loop\<close>
  | W_IncRunning int   \<comment> \<open>\<open>gRunning++\<close>\<close>
  | W_UnlockCond int   \<comment> \<open>unlock \<open>cond_lock\<close>\<close>
  | W_CheckErr int     \<comment> \<open>\<open>CL_SUCCESS == jobError\<close>?\<close>
  | W_Call int         \<comment> \<open>\<open>err = gFunc_ptr(item - 1, ...)\<close>\<close>
  | W_Cas int          \<comment> \<open>compare-and-swap of \<open>jobError\<close>\<close>
  | W_ZeroRun          \<comment> \<open>\<open>gRunCount = 0\<close>\<close>
  | W_Next             \<comment> \<open>\<open>item = gRunCount--\<close> at the end of the loop\<close>
  | W_UnlockExit       \<comment> \<open>unlock \<open>cond_lock\<close> before the exit\<close>
  | W_Exit             \<comment> \<open>\<open>gThreadCount--\<close>\<close>
  | W_Done

datatype cpc =
    I_Create nat | I_Wait | I_Waiting | I_Reacquire | I_Test | I_Unlock
  | C_Idle | C_LockCond | C_LockCaller | C_ClearErr | C_SetCount | C_SetFunc | C_Broadcast
  | C_UnlockCond | C_Wait | C_Waiting | C_Reacquire | C_Test | C_UnlockCaller | C_ReadErr
  | C_Done int | C_Refused int

datatype thread = Caller | Worker nat

text \<open>
  \<open>argFunc\<close> and \<open>argCount\<close> are the parameters of the current call; \<open>taken\<close>
  (the items workers have drawn) and \<open>ran\<close> (the jobs they have run, with the results)
  record its history.
\<close>

record pool =
  gRunCount :: int
  gRunning :: int
  jobError :: int
  gThreadCount :: int
  gFunc_ptr :: "nat \<Rightarrow> int"
  cond_lock :: "thread option"
  caller_cond_lock :: "thread option"
  wpc :: "nat \<Rightarrow> wpc"
  cpc :: cpc
  argFunc :: "nat \<Rightarrow> int"
  argCount :: nat
  taken :: "int list"
  ran :: "(nat \<times> int) list"

section \<open>Workers\<close>

abbreviation goto :: "nat \<Rightarrow> wpc \<Rightarrow> pool \<Rightarrow> pool" where
  "goto i p s \<equiv> s\<lparr>wpc := (wpc s)(i := p)\<rparr>"

text \<open>\<open>gRunCount--\<close>, with a record of the item drawn.\<close>

definition draw :: "pool \<Rightarrow> pool" where
  "draw s = s\<lparr>gRunCount := gRunCount s - 1,
     taken := (if 0 < gRunCount s then gRunCount s # taken s else taken s)\<rparr>"

text \<open>The tests at the head of the loop.\<close>

definition dispatch :: "int \<Rightarrow> wpc" where
  "dispatch item =
     (if MAX_COUNT \<le> item then W_Exit else if 0 \<ge> item then W_LockCond else W_CheckErr item)"

text \<open>The tests after a wait.\<close>

definition retry :: "int \<Rightarrow> wpc" where
  "retry item =
     (if MAX_COUNT \<le> item then W_UnlockExit else if 0 \<ge> item then W_CondWait else W_IncRunning item)"

definition wake_caller :: "cpc \<Rightarrow> cpc" where
  "wake_caller c = (case c of I_Waiting \<Rightarrow> I_Reacquire | C_Waiting \<Rightarrow> C_Reacquire | _ \<Rightarrow> c)"

text \<open>One step of worker \<open>i\<close> at a program counter; \<open>None\<close> when it is blocked or has none.\<close>

fun worker_at :: "wpc \<Rightarrow> nat \<Rightarrow> pool \<Rightarrow> pool option" where
  "worker_at W_New i s = None"
| "worker_at W_Start i s = Some (goto i (dispatch (gRunCount s)) (draw s))"
| "worker_at W_LockCond i s =
       (if cond_lock s = None then Some (goto i W_DecRunning (s\<lparr>cond_lock := Some (Worker i)\<rparr>)) else None)"
| "worker_at W_DecRunning i s =
       Some (goto i (if gRunning s = 1 then W_LockCaller else W_CondWait)
         (s\<lparr>gRunning := gRunning s - 1\<rparr>))"
| "worker_at W_LockCaller i s =
       (if caller_cond_lock s = None
        then Some (goto i W_Broadcast (s\<lparr>caller_cond_lock := Some (Worker i)\<rparr>)) else None)"
| "worker_at W_Broadcast i s = Some (goto i W_UnlockCaller (s\<lparr>cpc := wake_caller (cpc s)\<rparr>))"
| "worker_at W_UnlockCaller i s = Some (goto i W_CondWait (s\<lparr>caller_cond_lock := None\<rparr>))"
| "worker_at W_CondWait i s = Some (goto i W_Waiting (s\<lparr>cond_lock := None\<rparr>))"
| "worker_at W_Waiting i s = None"
| "worker_at W_Reacquire i s =
       (if cond_lock s = None then Some (goto i W_Retry (s\<lparr>cond_lock := Some (Worker i)\<rparr>)) else None)"
| "worker_at W_Retry i s = Some (goto i (retry (gRunCount s)) (draw s))"
| "worker_at (W_IncRunning item) i s = Some (goto i (W_UnlockCond item) (s\<lparr>gRunning := gRunning s + 1\<rparr>))"
| "worker_at (W_UnlockCond item) i s = Some (goto i (W_CheckErr item) (s\<lparr>cond_lock := None\<rparr>))"
| "worker_at (W_CheckErr item) i s = Some (goto i (if jobError s = 0 then W_Call item else W_Next) s)"
| "worker_at (W_Call item) i s =
       (let j = nat (item - 1); err = gFunc_ptr s j
        in Some (goto i (if err \<noteq> 0 then W_Cas err else W_Next) (s\<lparr>ran := (j, err) # ran s\<rparr>)))"
| "worker_at (W_Cas err) i s =
       Some (goto i W_ZeroRun (s\<lparr>jobError := (if jobError s = 0 then err else jobError s)\<rparr>))"
| "worker_at W_ZeroRun i s = Some (goto i W_Next (s\<lparr>gRunCount := 0\<rparr>))"
| "worker_at W_Next i s = Some (goto i (dispatch (gRunCount s)) (draw s))"
| "worker_at W_UnlockExit i s = Some (goto i W_Exit (s\<lparr>cond_lock := None\<rparr>))"
| "worker_at W_Exit i s = Some (goto i W_Done (s\<lparr>gThreadCount := gThreadCount s - 1\<rparr>))"
| "worker_at W_Done i s = None"

definition worker_step :: "nat \<Rightarrow> pool \<Rightarrow> pool option" where
  "worker_step i s = worker_at (wpc s i) i s"

section \<open>The caller\<close>

abbreviation proceed :: "cpc \<Rightarrow> pool \<Rightarrow> pool" where "proceed c s \<equiv> s\<lparr>cpc := c\<rparr>"

text \<open>\<open>pthread_cond_broadcast(&cond_var)\<close>: every waiting worker is to run again.\<close>

definition wake_workers :: "(nat \<Rightarrow> wpc) \<Rightarrow> nat \<Rightarrow> wpc" where
  "wake_workers w = (\<lambda>i. if w i = W_Waiting then W_Reacquire else w i)"

text \<open>
  \<open>ThreadPool_Init\<close> from the creation of the workers on (it holds
  \<open>caller_cond_lock\<close>), then \<open>ThreadPool_Do\<close> from its first lock on.
\<close>

fun caller_at :: "cpc \<Rightarrow> nat \<Rightarrow> pool \<Rightarrow> pool option" where
  "caller_at (I_Create k) N s =
       Some (if k < N then proceed (I_Create (k + 1)) (goto k W_Start s) else proceed I_Wait s)"
| "caller_at I_Wait N s = Some (proceed I_Waiting (s\<lparr>caller_cond_lock := None\<rparr>))"
| "caller_at I_Waiting N s = None"
| "caller_at I_Reacquire N s =
       (if caller_cond_lock s = None then Some (proceed I_Test (s\<lparr>caller_cond_lock := Some Caller\<rparr>)) else None)"
| "caller_at I_Test N s = Some (proceed (if gRunCount s \<noteq> - gThreadCount s then I_Wait else I_Unlock) s)"
| "caller_at I_Unlock N s = Some (proceed C_Idle (s\<lparr>caller_cond_lock := None\<rparr>))"
| "caller_at C_Idle N s = None"
| "caller_at C_LockCond N s =
       (if cond_lock s = None then Some (proceed C_LockCaller (s\<lparr>cond_lock := Some Caller\<rparr>)) else None)"
| "caller_at C_LockCaller N s =
       (if caller_cond_lock s = None then Some (proceed C_ClearErr (s\<lparr>caller_cond_lock := Some Caller\<rparr>)) else None)"
| "caller_at C_ClearErr N s = Some (proceed C_SetCount (s\<lparr>jobError := 0\<rparr>))"
| "caller_at C_SetCount N s = Some (proceed C_SetFunc (s\<lparr>gRunCount := int (argCount s), taken := [], ran := []\<rparr>))"
| "caller_at C_SetFunc N s = Some (proceed C_Broadcast (s\<lparr>gFunc_ptr := argFunc s\<rparr>))"
| "caller_at C_Broadcast N s = Some (proceed C_UnlockCond (s\<lparr>wpc := wake_workers (wpc s)\<rparr>))"
| "caller_at C_UnlockCond N s = Some (proceed C_Wait (s\<lparr>cond_lock := None\<rparr>))"
| "caller_at C_Wait N s = Some (proceed C_Waiting (s\<lparr>caller_cond_lock := None\<rparr>))"
| "caller_at C_Waiting N s = None"
| "caller_at C_Reacquire N s =
       (if caller_cond_lock s = None then Some (proceed C_Test (s\<lparr>caller_cond_lock := Some Caller\<rparr>)) else None)"
| "caller_at C_Test N s = Some (proceed (if gRunning s \<noteq> 0 then C_Wait else C_UnlockCaller) s)"
| "caller_at C_UnlockCaller N s = Some (proceed C_ReadErr (s\<lparr>caller_cond_lock := None\<rparr>))"
| "caller_at C_ReadErr N s = Some (proceed (C_Done (jobError s)) s)"
| "caller_at (C_Done r) N s = Some (proceed C_Idle s)"
| "caller_at (C_Refused r) N s = Some (proceed C_Idle s)"

definition caller_step :: "nat \<Rightarrow> pool \<Rightarrow> pool option" where
  "caller_step N s = caller_at (cpc s) N s"

text \<open>The entry of \<open>ThreadPool_Do\<close> once the pool is up.\<close>

definition ThreadPool_Do :: "(nat \<Rightarrow> int) \<Rightarrow> nat \<Rightarrow> pool \<Rightarrow> pool option" where
  "ThreadPool_Do f count s =
     (if cpc s \<noteq> C_Idle then None
      else if int count \<ge> MAX_COUNT then Some (proceed (C_Refused (- 1)) s)
      else Some (proceed C_LockCond (s\<lparr>argFunc := f, argCount := count\<rparr>)))"

section \<open>The system\<close>

text \<open>
  \<open>E_Wake i\<close> and \<open>E_WakeCaller\<close> are spurious wake-ups; \<open>spurious\<close> says whether
  the caller may suffer one.
\<close>

datatype event = E_Worker nat | E_Caller | E_Do "nat \<Rightarrow> int" nat | E_Wake nat | E_WakeCaller

definition perform :: "nat \<Rightarrow> bool \<Rightarrow> event \<Rightarrow> pool \<Rightarrow> pool option" where
  "perform N spurious e s = (case e of
     E_Worker i \<Rightarrow> if i < N then worker_step i s else None
   | E_Caller \<Rightarrow> caller_step N s
   | E_Do f count \<Rightarrow> ThreadPool_Do f count s
   | E_Wake i \<Rightarrow> if i < N \<and> wpc s i = W_Waiting then Some (goto i W_Reacquire s) else None
   | E_WakeCaller \<Rightarrow>
       if spurious \<and> cpc s \<in> {I_Waiting, C_Waiting} then Some (proceed (wake_caller (cpc s)) s) else None)"

fun run :: "nat \<Rightarrow> bool \<Rightarrow> event list \<Rightarrow> pool \<Rightarrow> pool option" where
  "run N spurious [] s = Some s"
| "run N spurious (e # es) s = do { s \<leftarrow> perform N spurious e s; run N spurious es s }"

text \<open>The state in which \<open>ThreadPool_Init\<close> starts to create \<open>N\<close> workers.\<close>

definition launch :: "nat \<Rightarrow> pool" where
  "launch N = \<lparr>gRunCount = 0, gRunning = int N, jobError = 0, gThreadCount = int N,
     gFunc_ptr = (\<lambda>_. 0), cond_lock = None, caller_cond_lock = Some Caller,
     wpc = (\<lambda>_. W_New), cpc = I_Create 0, argFunc = (\<lambda>_. 0), argCount = 0, taken = [], ran = []\<rparr>"

inductive reachable :: "nat \<Rightarrow> bool \<Rightarrow> pool \<Rightarrow> bool" for N spurious where
  start: "reachable N spurious (launch N)"
| move: "reachable N spurious s \<Longrightarrow> perform N spurious e s = Some s' \<Longrightarrow> reachable N spurious s'"

lemma reachable_run: "reachable N spurious s \<Longrightarrow> run N spurious es s = Some s' \<Longrightarrow> reachable N spurious s'"
  by (induction es arbitrary: s) (auto simp: bind_eq_Some_conv intro: move)

section \<open>Starting the pool, and running without one\<close>

text \<open>
  The number of threads: \<open>single_threaded\<close> is the environment variable, \<open>cpus\<close> what the
  system reports. \<open>Inl\<close> is the early return, which leaves \<open>threadPoolInitErr\<close> at -1.
\<close>

definition ThreadPool_Init_count :: "bool \<Rightarrow> int \<Rightarrow> int \<Rightarrow> int + int" where
  "ThreadPool_Init_count single_threaded threadCount cpus =
     (if single_threaded then Inl 1
      else
        let threadCount = (if threadCount = 0 then if cpus = 1 then 2 else cpus else threadCount)
        in if threadCount < 2 then Inl 1 else Inr threadCount)"

definition GetThreadCount :: "int \<Rightarrow> int" where
  "GetThreadCount threadCount = (if threadCount < 1 then 1 else threadCount)"

text \<open>The loop of \<open>ThreadPool_Do\<close> when there is no pool: result and jobs run, latest first.\<close>

function single_threaded_do :: "(nat \<Rightarrow> int) \<Rightarrow> nat \<Rightarrow> nat \<Rightarrow> nat list \<Rightarrow> int \<times> nat list" where
  "single_threaded_do f currentJob count jobs =
     (if currentJob < count then
        if f currentJob \<noteq> 0 then (f currentJob, currentJob # jobs)
        else single_threaded_do f (currentJob + 1) count (currentJob # jobs)
      else (0, jobs))"
  by pat_completeness auto
termination
  by (relation "measure (\<lambda>(_, i, n, _). n - i)") auto

declare single_threaded_do.simps [simp del]

end
