(* ===== verification/ThreadPoolInv.thy ===== *)
theory ThreadPoolInv
  imports ThreadPool
begin

text \<open>
  The invariant of the thread pool: \<open>gRunning\<close> counts the workers that are not idle, the two
  mutexes are held exactly by the threads whose program counter says so, and when the caller is
  told to go on, no item is left and every worker is idle. It holds in every state reachable
  without a spurious wake-up of the caller; each step of a worker is first summarised in a few
  facts (\<open>worker_frame\<close> to \<open>worker_moves\<close>), from which the parts follow.
\<close>

section \<open>What the program counters mean\<close>

fun counted :: "wpc \<Rightarrow> bool" where
  "counted W_New = True" | "counted W_Start = True" | "counted W_LockCond = True"
| "counted W_DecRunning = True" | "counted (W_UnlockCond it) = True" | "counted (W_CheckErr it) = True"
| "counted (W_Call it) = True" | "counted (W_Cas e) = True" | "counted W_ZeroRun = True"
| "counted W_Next = True" | "counted p = False"

fun idle :: "wpc \<Rightarrow> bool" where
  "idle W_LockCaller = True" | "idle W_Broadcast = True" | "idle W_UnlockCaller = True"
| "idle W_CondWait = True" | "idle W_Waiting = True" | "idle W_Reacquire = True" | "idle W_Retry = True"
| "idle p = False"

fun holds_cond :: "wpc \<Rightarrow> bool" where
  "holds_cond W_DecRunning = True" | "holds_cond W_LockCaller = True" | "holds_cond W_Broadcast = True"
| "holds_cond W_UnlockCaller = True" | "holds_cond W_CondWait = True" | "holds_cond W_Retry = True"
| "holds_cond (W_IncRunning it) = True" | "holds_cond (W_UnlockCond it) = True" | "holds_cond W_UnlockExit = True"
| "holds_cond p = False"

fun holds_caller :: "wpc \<Rightarrow> bool" where
  "holds_caller W_Broadcast = True" | "holds_caller W_UnlockCaller = True" | "holds_caller p = False"

fun item_of :: "wpc \<Rightarrow> int option" where
  "item_of (W_IncRunning it) = Some it" | "item_of (W_UnlockCond it) = Some it"
| "item_of (W_CheckErr it) = Some it" | "item_of (W_Call it) = Some it" | "item_of p = None"

fun alive :: "wpc \<Rightarrow> bool" where
  "alive W_UnlockExit = False" | "alive W_Exit = False" | "alive W_Done = False" | "alive p = True"

text \<open>The caller holds \<open>cond_lock\<close>, \<open>caller_cond_lock\<close>; is starting the pool; has every worker at rest.\<close>

fun caller_has_cond :: "cpc \<Rightarrow> bool" where
  "caller_has_cond C_LockCaller = True" | "caller_has_cond C_ClearErr = True"
| "caller_has_cond C_SetCount = True" | "caller_has_cond C_SetFunc = True"
| "caller_has_cond C_Broadcast = True" | "caller_has_cond C_UnlockCond = True"
| "caller_has_cond c = False"

fun caller_has_caller :: "cpc \<Rightarrow> bool" where
  "caller_has_caller (I_Create k) = True" | "caller_has_caller I_Wait = True"
| "caller_has_caller I_Test = True" | "caller_has_caller I_Unlock = True"
| "caller_has_caller C_ClearErr = True" | "caller_has_caller C_SetCount = True"
| "caller_has_caller C_SetFunc = True" | "caller_has_caller C_Broadcast = True"
| "caller_has_caller C_UnlockCond = True" | "caller_has_caller C_Wait = True"
| "caller_has_caller C_Test = True" | "caller_has_caller C_UnlockCaller = True"
| "caller_has_caller c = False"

fun starting :: "cpc \<Rightarrow> bool" where
  "starting (I_Create k) = True" | "starting I_Wait = True" | "starting I_Waiting = True"
| "starting I_Reacquire = True" | "starting I_Test = True" | "starting I_Unlock = True"
| "starting c = False"

fun calm :: "cpc \<Rightarrow> bool" where
  "calm I_Reacquire = True" | "calm I_Test = True" | "calm I_Unlock = True" | "calm C_Idle = True"
| "calm C_LockCond = True" | "calm C_LockCaller = True" | "calm C_ClearErr = True"
| "calm C_SetCount = True" | "calm C_Reacquire = True" | "calm C_Test = True"
| "calm C_UnlockCaller = True" | "calm C_ReadErr = True" | "calm (C_Done r) = True"
| "calm (C_Refused r) = True" | "calm c = False"

fun priming :: "cpc \<Rightarrow> bool" where
  "priming C_SetFunc = True" | "priming C_Broadcast = True" | "priming C_UnlockCond = True"
| "priming c = False"

fun doing :: "cpc \<Rightarrow> bool" where
  "doing C_SetFunc = True" | "doing C_Broadcast = True" | "doing C_UnlockCond = True"
| "doing C_Wait = True" | "doing C_Waiting = True" | "doing C_Reacquire = True" | "doing C_Test = True"
| "doing C_UnlockCaller = True" | "doing C_ReadErr = True" | "doing (C_Done r) = True"
| "doing c = False"

section \<open>The invariant\<close>

definition at_rest :: "nat \<Rightarrow> pool \<Rightarrow> bool" where
  "at_rest N s \<longleftrightarrow> gRunCount s \<le> 0 \<and> (\<forall>i<N. idle (wpc s i))"

definition inv_count :: "nat \<Rightarrow> pool \<Rightarrow> bool" where
  "inv_count N s \<longleftrightarrow> gRunning s = int (card {i. i < N \<and> counted (wpc s i)})"

definition inv_locks :: "nat \<Rightarrow> pool \<Rightarrow> bool" where
  "inv_locks N s \<longleftrightarrow>
     (\<forall>i. cond_lock s = Some (Worker i) \<longleftrightarrow> i < N \<and> holds_cond (wpc s i)) \<and>
     (cond_lock s = Some Caller \<longleftrightarrow> caller_has_cond (cpc s)) \<and>
     (\<forall>i. caller_cond_lock s = Some (Worker i) \<longleftrightarrow> i < N \<and> holds_caller (wpc s i)) \<and>
     (caller_cond_lock s = Some Caller \<longleftrightarrow> caller_has_caller (cpc s))"

definition inv_phase :: "nat \<Rightarrow> pool \<Rightarrow> bool" where
  "inv_phase N s \<longleftrightarrow> gRunCount s < MAX_COUNT \<and> (\<forall>i<N. alive (wpc s i)) \<and>
     (\<forall>i<N. wpc s i \<in> {W_LockCond, W_DecRunning} \<longrightarrow> gRunCount s \<le> 0) \<and>
     (\<forall>i<N. wpc s i \<in> {W_LockCaller, W_Broadcast} \<longrightarrow> at_rest N s) \<and>
     (calm (cpc s) \<longrightarrow> at_rest N s) \<and>
     (priming (cpc s) \<longrightarrow> (\<forall>i<N. idle (wpc s i))) \<and>
     (starting (cpc s) \<longrightarrow> gRunCount s \<le> 0 \<and>
        (\<forall>i<N. idle (wpc s i) \<or> wpc s i \<in> {W_New, W_Start, W_LockCond, W_DecRunning})) \<and>
     (\<forall>k. cpc s = I_Create k \<longrightarrow> (\<forall>i<N. k \<le> i \<longrightarrow> wpc s i = W_New)) \<and>
     (\<forall>i<N. \<forall>it. item_of (wpc s i) = Some it \<longrightarrow> 0 < it) \<and>
     int (argCount s) < MAX_COUNT"

lemma card_update:
  fixes N :: nat
  assumes "i < N"
  shows "int (card {j. j < N \<and> P ((w(i := p)) j)}) =
    int (card {j. j < N \<and> P (w j)}) - (if P (w i) then 1 else 0) + (if P p then 1 else 0)"
proof -
  let ?A = "{j. j < N \<and> j \<noteq> i \<and> P (w j)}"
  have fin: "finite ?A" by (rule finite_subset [of _ "{..<N}"]) auto
  have 1: "{j. j < N \<and> P (w j)} = (if P (w i) then insert i ?A else ?A)" using assms by auto
  have 2: "{j. j < N \<and> P ((w(i := p)) j)} = (if P p then insert i ?A else ?A)" using assms by auto
  show ?thesis unfolding 1 2 using fin by auto
qed

lemma card_counted_one:
  fixes N :: nat
  assumes "card {i. i < N \<and> counted (w i)} = 1" "i < N" "counted (w i)" "j < N" "j \<noteq> i"
  shows "\<not> counted (w j)"
proof -
  obtain k where k: "{i. i < N \<and> counted (w i)} = {k}" using assms(1) card_1_singletonE by blast
  have "i \<in> {i. i < N \<and> counted (w i)}" using assms(2,3) by simp
  then have "i = k" using k by simp
  moreover have "j = k" if "counted (w j)"
  proof -
    have "j \<in> {i. i < N \<and> counted (w i)}" using assms(4) that by simp
    then show ?thesis using k by simp
  qed
  ultimately show ?thesis using assms(5) by blast
qed

lemma dispatch_cases:
  assumes "r < MAX_COUNT"
  obtains "r \<le> 0" "dispatch r = W_LockCond" "retry r = W_CondWait"
  | "0 < r" "dispatch r = W_CheckErr r" "retry r = W_IncRunning r"
  using assms by (cases "r \<le> 0") (simp_all add: dispatch_def retry_def)

lemma draw_simps [simp]:
  "gRunCount (draw s) = gRunCount s - 1" "gRunning (draw s) = gRunning s" "jobError (draw s) = jobError s"
  "gThreadCount (draw s) = gThreadCount s" "gFunc_ptr (draw s) = gFunc_ptr s" "cond_lock (draw s) = cond_lock s"
  "caller_cond_lock (draw s) = caller_cond_lock s" "wpc (draw s) = wpc s" "cpc (draw s) = cpc s"
  "argFunc (draw s) = argFunc s" "argCount (draw s) = argCount s" "ran (draw s) = ran s"
  "taken (draw s) = (if 0 < gRunCount s then gRunCount s # taken s else taken s)"
  by (simp_all add: draw_def)


subsection \<open>What one step of a worker changes\<close>

lemma worker_frame:
  "worker_step i s = Some s' \<Longrightarrow> wpc s' = (wpc s)(i := wpc s' i) \<and> argFunc s' = argFunc s \<and>
     argCount s' = argCount s \<and> gFunc_ptr s' = gFunc_ptr s \<and> gThreadCount s' \<le> gThreadCount s \<and>
     cpc s' = (if wpc s i = W_Broadcast then wake_caller (cpc s) else cpc s)"
  unfolding worker_step_def
  by (cases "wpc s i") (auto simp: Let_def split: if_splits)

lemma worker_other: "worker_step i s = Some s' \<Longrightarrow> j \<noteq> i \<Longrightarrow> wpc s' j = wpc s j"
  using worker_frame by (metis fun_upd_other)

lemma worker_running:
  "worker_step i s = Some s' \<Longrightarrow> alive (wpc s i) \<Longrightarrow> gRunCount s < MAX_COUNT \<Longrightarrow>
   gRunning s' = gRunning s - (if counted (wpc s i) then 1 else 0) + (if counted (wpc s' i) then 1 else 0)"
  unfolding worker_step_def
  by (cases "wpc s i") (auto simp: dispatch_def retry_def Let_def split: if_splits)

lemma worker_cond_lock:
  "worker_step i s = Some s' \<Longrightarrow> gRunCount s < MAX_COUNT \<Longrightarrow>
   cond_lock s' = (if holds_cond (wpc s i) = holds_cond (wpc s' i) then cond_lock s
     else if holds_cond (wpc s i) then None else Some (Worker i)) \<and>
   (holds_cond (wpc s' i) \<and> \<not> holds_cond (wpc s i) \<longrightarrow> cond_lock s = None)"
  unfolding worker_step_def
  by (cases "wpc s i") (auto simp: dispatch_def retry_def Let_def split: if_splits)

lemma worker_caller_lock:
  "worker_step i s = Some s' \<Longrightarrow> gRunCount s < MAX_COUNT \<Longrightarrow>
   caller_cond_lock s' = (if holds_caller (wpc s i) = holds_caller (wpc s' i) then caller_cond_lock s
     else if holds_caller (wpc s i) then None else Some (Worker i)) \<and>
   (holds_caller (wpc s' i) \<and> \<not> holds_caller (wpc s i) \<longrightarrow> caller_cond_lock s = None)"
  unfolding worker_step_def
  by (cases "wpc s i") (auto simp: dispatch_def retry_def Let_def split: if_splits)

lemma worker_gRunCount:
  "worker_step i s = Some s' \<Longrightarrow>
   gRunCount s' = gRunCount s \<or> gRunCount s' = gRunCount s - 1 \<or> wpc s i = W_ZeroRun \<and> gRunCount s' = 0"
  unfolding worker_step_def
  by (cases "wpc s i") (auto simp: Let_def split: if_splits)

lemma worker_moves:
  "worker_step i s = Some s' \<Longrightarrow> alive (wpc s i) \<Longrightarrow> gRunCount s < MAX_COUNT \<Longrightarrow>
   alive (wpc s' i) \<and>
   (wpc s' i = W_LockCond \<longrightarrow> gRunCount s' \<le> 0) \<and>
   (wpc s' i = W_DecRunning \<longrightarrow> wpc s i = W_LockCond) \<and>
   (wpc s' i = W_LockCaller \<longrightarrow> wpc s i = W_DecRunning \<and> gRunning s = 1) \<and>
   (wpc s' i = W_Broadcast \<longrightarrow> wpc s i = W_LockCaller) \<and>
   (idle (wpc s i) \<longrightarrow> idle (wpc s' i) \<or> wpc s i = W_Retry \<and> 0 < gRunCount s) \<and>
   (wpc s i \<in> {W_Start, W_LockCond, W_DecRunning} \<and> gRunCount s \<le> 0 \<longrightarrow>
      idle (wpc s' i) \<or> wpc s' i \<in> {W_LockCond, W_DecRunning}) \<and>
   wpc s' i \<noteq> W_New \<and> wpc s' i \<noteq> W_Start \<and> wpc s i \<noteq> W_New \<and>
   (\<forall>it. item_of (wpc s' i) = Some it \<longrightarrow> item_of (wpc s i) = Some it \<or> it = gRunCount s \<and> 0 < it)"
  unfolding worker_step_def
  by (cases "wpc s i") (auto simp: dispatch_def retry_def Let_def split: if_splits)

subsection \<open>Every step preserves the invariant\<close>

lemma wake_caller_has [simp]:
  "caller_has_cond (wake_caller c) = caller_has_cond c" "caller_has_caller (wake_caller c) = caller_has_caller c"
  by (cases c; simp add: wake_caller_def)+

lemma worker_count:
  assumes "worker_step i s = Some s'" "inv_count N s" "i < N" "inv_phase N s"
  shows "inv_count N s'"
proof -
  have "alive (wpc s i)" "gRunCount s < MAX_COUNT" using assms by (auto simp: inv_phase_def)
  from worker_running [OF assms(1) this] worker_frame [OF assms(1)] assms(2)
    card_update [OF assms(3), of counted "wpc s" "wpc s' i"]
  show ?thesis by (simp add: inv_count_def)
qed

lemma worker_locks:
  assumes "worker_step i s = Some s'" "inv_locks N s" "i < N" "inv_phase N s"
  shows "inv_locks N s'"
proof -
  have max: "gRunCount s < MAX_COUNT" using assms by (auto simp: inv_phase_def)
  have w: "\<And>j. wpc s' j = (if j = i then wpc s' i else wpc s j)"
    using worker_frame [OF assms(1)] by (metis fun_upd_apply)
  have c: "caller_has_cond (cpc s') = caller_has_cond (cpc s)" "caller_has_caller (cpc s') = caller_has_caller (cpc s)"
    using worker_frame [OF assms(1)] by simp_all
  have L: "\<And>j. (cond_lock s = Some (Worker j)) = (j < N \<and> holds_cond (wpc s j))"
    "\<And>j. (caller_cond_lock s = Some (Worker j)) = (j < N \<and> holds_caller (wpc s j))"
    "(cond_lock s = Some Caller) = caller_has_cond (cpc s)"
    "(caller_cond_lock s = Some Caller) = caller_has_caller (cpc s)"
    using assms(2) by (simp_all add: inv_locks_def)
  have "(cond_lock s' = Some (Worker j)) = (j < N \<and> holds_cond (wpc s' j))"
    "(caller_cond_lock s' = Some (Worker j)) = (j < N \<and> holds_caller (wpc s' j))" for j
    using worker_cond_lock [OF assms(1) max] worker_caller_lock [OF assms(1) max] w [of j]
      L(1) [of j] L(2) [of j] L(1) [of i] L(2) [of i] assms(3)
    by (auto split: if_splits)
  moreover have "(cond_lock s' = Some Caller) = caller_has_cond (cpc s')"
    "(caller_cond_lock s' = Some Caller) = caller_has_caller (cpc s')"
    using worker_cond_lock [OF assms(1) max] worker_caller_lock [OF assms(1) max] c L(1) [of i] L(2) [of i] L(3,4) assms(3)
    by (auto split: if_splits)
  ultimately show ?thesis by (simp add: inv_locks_def)
qed

lemma priming_holds: "priming c \<Longrightarrow> caller_has_cond c"
  by (cases c) simp_all

lemma idle_not [simp]:
  "idle p \<Longrightarrow> p \<noteq> W_LockCond" "idle p \<Longrightarrow> p \<noteq> W_DecRunning" "idle p \<Longrightarrow> p \<noteq> W_New" "idle p \<Longrightarrow> p \<noteq> W_Start"
  "idle p \<Longrightarrow> p \<noteq> W_ZeroRun"
  by auto

lemma idle_facts: "idle p \<Longrightarrow> item_of p = None \<and> \<not> counted p \<and> alive p"
  by (cases p) simp_all

lemma not_counted_cases: "\<not> counted p \<Longrightarrow> alive p \<Longrightarrow> idle p \<or> holds_cond p"
  by (cases p) simp_all

lemma inv_locksD:
  assumes "inv_locks N s"
  shows "i < N \<Longrightarrow> holds_cond (wpc s i) \<Longrightarrow> cond_lock s = Some (Worker i)"
    "i < N \<Longrightarrow> holds_caller (wpc s i) \<Longrightarrow> caller_cond_lock s = Some (Worker i)"
    "caller_has_cond (cpc s) \<Longrightarrow> cond_lock s = Some Caller"
    "caller_has_caller (cpc s) \<Longrightarrow> caller_cond_lock s = Some Caller"
  using assms by (simp_all add: inv_locks_def)

lemma inv_phaseD:
  assumes "inv_phase N s"
  shows "gRunCount s < MAX_COUNT" "i < N \<Longrightarrow> alive (wpc s i)"
    "i < N \<Longrightarrow> wpc s i \<in> {W_LockCond, W_DecRunning} \<Longrightarrow> gRunCount s \<le> 0"
    "i < N \<Longrightarrow> wpc s i \<in> {W_LockCaller, W_Broadcast} \<Longrightarrow> at_rest N s"
    "calm (cpc s) \<Longrightarrow> at_rest N s"
    "priming (cpc s) \<Longrightarrow> i < N \<Longrightarrow> idle (wpc s i)"
    "starting (cpc s) \<Longrightarrow> gRunCount s \<le> 0"
    "starting (cpc s) \<Longrightarrow> i < N \<Longrightarrow> idle (wpc s i) \<or> wpc s i \<in> {W_New, W_Start, W_LockCond, W_DecRunning}"
    "cpc s = I_Create k \<Longrightarrow> i < N \<Longrightarrow> k \<le> i \<Longrightarrow> wpc s i = W_New"
    "i < N \<Longrightarrow> item_of (wpc s i) = Some it \<Longrightarrow> 0 < it"
    "int (argCount s) < MAX_COUNT"
  using assms unfolding inv_phase_def by blast+

lemma last_out_at_rest:
  assumes "wpc s i = W_DecRunning" "gRunning s = 1" "inv_count N s" "inv_locks N s" "inv_phase N s" "i < N"
  shows "gRunCount s \<le> 0 \<and> (\<forall>j<N. j \<noteq> i \<longrightarrow> idle (wpc s j))"
proof (intro conjI allI impI)
  show "gRunCount s \<le> 0" using inv_phaseD(3) [OF assms(5,6)] assms(1) by simp
  fix j assume j: "j < N" "j \<noteq> i"
  have one: "card {i. i < N \<and> counted (wpc s i)} = 1" using assms(2,3) by (simp add: inv_count_def)
  have "\<not> counted (wpc s j)" by (rule card_counted_one [OF one assms(6) _ j]) (simp add: assms(1))
  moreover have "\<not> holds_cond (wpc s j)"
    using inv_locksD(1) [OF assms(4) j(1)] inv_locksD(1) [OF assms(4,6)] assms(1) j(2) by fastforce
  ultimately show "idle (wpc s j)" using not_counted_cases inv_phaseD(2) [OF assms(5) j(1)] by blast
qed

lemma rest_step:
  assumes "worker_step i s = Some s'" "at_rest N s" "i < N" "gRunCount s < MAX_COUNT"
  shows "at_rest N s'"
proof -
  have i: "idle (wpc s i)" and r: "gRunCount s \<le> 0" using assms(2,3) by (simp_all add: at_rest_def)
  then have a: "alive (wpc s i)" using idle_facts by blast
  have "idle (wpc s' i) \<or> 0 < gRunCount s" using worker_moves [OF assms(1) a assms(4)] i by blast
  then have "idle (wpc s' i)" using r by simp
  moreover have "gRunCount s' \<le> 0" using worker_gRunCount [OF assms(1)] r by linarith
  moreover have "idle (wpc s' j)" if "j < N" for j
    using that assms(2) \<open>idle (wpc s' i)\<close> worker_other [OF assms(1), of j] by (cases "j = i") (simp_all add: at_rest_def)
  ultimately show ?thesis by (simp add: at_rest_def)
qed

definition inv_base :: "nat \<Rightarrow> pool \<Rightarrow> bool" where
  "inv_base N s \<longleftrightarrow> inv_count N s \<and> inv_locks N s \<and> inv_phase N s"

lemma inv_baseD: "inv_base N s \<Longrightarrow> inv_count N s" "inv_base N s \<Longrightarrow> inv_locks N s" "inv_base N s \<Longrightarrow> inv_phase N s"
  by (simp_all add: inv_base_def)

lemma base_moves:
  assumes "worker_step i s = Some s'" "inv_base N s" "i < N"
  shows "alive (wpc s i)" "gRunCount s < MAX_COUNT" "gRunCount s \<le> 0 \<Longrightarrow> gRunCount s' \<le> 0"
    "at_rest N s \<Longrightarrow> at_rest N s'"
    "priming (cpc s') \<Longrightarrow> priming (cpc s)" "starting (cpc s') \<Longrightarrow> starting (cpc s)"
    "cpc s' = I_Create k \<Longrightarrow> cpc s = I_Create k"
proof -
  note D = inv_phaseD [OF inv_baseD(3) [OF assms(2)]]
  show "alive (wpc s i)" and max: "gRunCount s < MAX_COUNT" using D(1,2) assms(3) by blast+
  show "gRunCount s' \<le> 0" if "gRunCount s \<le> 0" using worker_gRunCount [OF assms(1)] that by linarith
  show "at_rest N s'" if "at_rest N s" using rest_step [OF assms(1) that assms(3) max] .
  have c: "cpc s' = (if wpc s i = W_Broadcast then wake_caller (cpc s) else cpc s)"
    using worker_frame [OF assms(1)] by blast
  show "priming (cpc s') \<Longrightarrow> priming (cpc s)" "starting (cpc s') \<Longrightarrow> starting (cpc s)"
    "cpc s' = I_Create k \<Longrightarrow> cpc s = I_Create k"
    using c by (cases "cpc s"; simp add: wake_caller_def split: if_splits)+
qed

lemma worker_at_rest:
  assumes step: "worker_step i s = Some s'" and inv: "inv_base N s" and i: "i < N"
    and j: "j < N" "wpc s' j \<in> {W_LockCaller, W_Broadcast}"
  shows "at_rest N s'"
proof -
  note mv = worker_moves [OF step base_moves(1,2) [OF step inv i]]
  note keep = base_moves(4) [OF step inv i]
  note D = inv_phaseD(4) [OF inv_baseD(3) [OF inv]]
  consider "j \<noteq> i" | "j = i" "wpc s' i = W_Broadcast" | "j = i" "wpc s' i = W_LockCaller" using j by auto
  then show ?thesis
  proof cases
    case 1
    then show ?thesis using j worker_other [OF step, of j] keep D [OF j(1)] by simp
  next
    case 2
    then show ?thesis using mv keep D [OF i] by blast
  next
    case 3
    then have d: "wpc s i = W_DecRunning" "gRunning s = 1" using mv by blast+
    note last = last_out_at_rest [OF d inv_baseD [OF inv] i]
    have "idle (wpc s' k)" if "k < N" for k
      using last that worker_other [OF step, of k] 3(2) by (cases "k = i") simp_all
    then show ?thesis using last base_moves(3) [OF step inv i] by (simp add: at_rest_def)
  qed
qed

lemma worker_priming:
  assumes step: "worker_step i s = Some s'" and inv: "inv_base N s" and i: "i < N"
    and p: "priming (cpc s')" and j: "j < N"
  shows "idle (wpc s' j)"
proof -
  have p: "priming (cpc s)" by (rule base_moves(5) [OF step inv i p])
  note D = inv_phaseD(6) [OF inv_baseD(3) [OF inv] p]
  have "cond_lock s = Some Caller" by (rule inv_locksD(3) [OF inv_baseD(2) [OF inv] priming_holds [OF p]])
  then have "\<not> holds_cond (wpc s i)" using inv_locksD(1) [OF inv_baseD(2) [OF inv] i] by auto
  then have "wpc s i \<noteq> W_Retry" by auto
  then have "idle (wpc s' i)" using worker_moves [OF step base_moves(1,2) [OF step inv i]] D [OF i] by blast
  then show ?thesis using D [OF j] worker_other [OF step, of j] by (cases "j = i") simp_all
qed

lemma worker_starting:
  assumes step: "worker_step i s = Some s'" and inv: "inv_base N s" and i: "i < N"
    and st: "starting (cpc s')" and j: "j < N"
  shows "idle (wpc s' j) \<or> wpc s' j \<in> {W_New, W_Start, W_LockCond, W_DecRunning}"
proof -
  have st: "starting (cpc s)" by (rule base_moves(6) [OF step inv i st])
  note D = inv_phaseD(7,8) [OF inv_baseD(3) [OF inv] st]
  note mv = worker_moves [OF step base_moves(1,2) [OF step inv i]]
  have "idle (wpc s i) \<Longrightarrow> idle (wpc s' i)" using mv D(1) by force
  then have "idle (wpc s' i) \<or> wpc s' i \<in> {W_LockCond, W_DecRunning}" using mv D(1) D(2) [OF i] by blast
  then show ?thesis using D(2) [OF j] worker_other [OF step, of j] by (cases "j = i") auto
qed

lemma worker_calm:
  assumes step: "worker_step i s = Some s'" and inv: "inv_base N s" and i: "i < N" and c: "calm (cpc s')"
  shows "at_rest N s'"
proof -
  note D = inv_phaseD(4,5) [OF inv_baseD(3) [OF inv]]
  have "at_rest N s"
    using D(1) [OF i] D(2) c worker_frame [OF step] by (cases "wpc s i = W_Broadcast") simp_all
  then show ?thesis by (rule base_moves(4) [OF step inv i])
qed

lemma worker_phase:
  assumes step: "worker_step i s = Some s'" and inv: "inv_base N s" and i: "i < N"
  shows "inv_phase N s'"
proof -
  note D = inv_phaseD [OF inv_baseD(3) [OF inv]]
  note M = base_moves [OF step inv i]
  note mv = worker_moves [OF step M(1,2)]
  note w = worker_other [OF step]
  have a: "gRunCount s' < MAX_COUNT" using worker_gRunCount [OF step] M(2) by (auto simp: MAX_COUNT_def)
  have b: "alive (wpc s' j)" if "j < N" for j using w [of j] mv D(2) [OF that] by (cases "j = i") simp_all
  have l: "gRunCount s' \<le> 0" if "j < N" "wpc s' j \<in> {W_LockCond, W_DecRunning}" for j
  proof (cases "j = i")
    case True
    then have "wpc s' i = W_LockCond \<or> wpc s' i = W_DecRunning" using that by simp
    then show ?thesis using mv M(3) D(3) [OF i] by blast
  next
    case False
    then show ?thesis using that w [of j] M(3) D(3) [of j] by simp
  qed
  have n: "wpc s' j = W_New" if "cpc s' = I_Create k" "j < N" "k \<le> j" for j k
    using D(9) [OF M(7) [OF that(1)] that(2,3)] mv w [of j] by (cases "j = i") simp_all
  have t: "0 < it" if "j < N" "item_of (wpc s' j) = Some it" for j it
    using D(10) [OF i, of it] D(10) [OF that(1), of it] mv w [of j] that(2) by (cases "j = i") auto
  have st: "gRunCount s' \<le> 0" if "starting (cpc s')" using M(3) D(7) [OF M(6) [OF that]] .
  have ac: "int (argCount s') < MAX_COUNT" using D(11) worker_frame [OF step] by simp
  show ?thesis unfolding inv_phase_def
    using a b l worker_at_rest [OF step inv i] worker_calm [OF step inv i] worker_priming [OF step inv i]
      st worker_starting [OF step inv i] n t ac by blast
qed

lemma worker_base: "worker_step i s = Some s' \<Longrightarrow> inv_base N s \<Longrightarrow> i < N \<Longrightarrow> inv_base N s'"
  by (simp add: inv_base_def worker_count worker_locks)
    (metis inv_base_def worker_phase)

lemma wake_workers_same [simp]:
  "counted (wake_workers w i) = counted (w i)" "idle (wake_workers w i) = idle (w i)"
  "holds_cond (wake_workers w i) = holds_cond (w i)" "holds_caller (wake_workers w i) = holds_caller (w i)"
  "alive (wake_workers w i) = alive (w i)" "item_of (wake_workers w i) = item_of (w i)"
  by (simp_all add: wake_workers_def)

lemma wake_workers_pc:
  "p \<noteq> W_Waiting \<Longrightarrow> p \<noteq> W_Reacquire \<Longrightarrow> wake_workers w i = p \<longleftrightarrow> w i = p"
  by (auto simp: wake_workers_def)

lemma caller_frame:
  "caller_step N s = Some s' \<Longrightarrow>
     wpc s' = (case cpc s of I_Create k \<Rightarrow> if k < N then (wpc s)(k := W_Start) else wpc s
       | C_Broadcast \<Rightarrow> wake_workers (wpc s) | _ \<Rightarrow> wpc s) \<and>
     gRunCount s' = (if cpc s = C_SetCount then int (argCount s) else gRunCount s) \<and>
     gRunning s' = gRunning s \<and> argCount s' = argCount s \<and> argFunc s' = argFunc s"
  unfolding caller_step_def
  by (cases "cpc s") (auto split: if_splits)

lemma caller_cond_lock_step:
  "caller_step N s = Some s' \<Longrightarrow>
   cond_lock s' = (if caller_has_cond (cpc s) = caller_has_cond (cpc s') then cond_lock s
     else if caller_has_cond (cpc s) then None else Some Caller) \<and>
   (caller_has_cond (cpc s') \<and> \<not> caller_has_cond (cpc s) \<longrightarrow> cond_lock s = None)"
  unfolding caller_step_def
  by (cases "cpc s") (auto split: if_splits)

lemma caller_caller_lock_step:
  "caller_step N s = Some s' \<Longrightarrow>
   caller_cond_lock s' = (if caller_has_caller (cpc s) = caller_has_caller (cpc s') then caller_cond_lock s
     else if caller_has_caller (cpc s) then None else Some Caller) \<and>
   (caller_has_caller (cpc s') \<and> \<not> caller_has_caller (cpc s) \<longrightarrow> caller_cond_lock s = None)"
  unfolding caller_step_def
  by (cases "cpc s") (auto split: if_splits)

lemma caller_moves:
  "caller_step N s = Some s' \<Longrightarrow>
   (calm (cpc s') \<longrightarrow> calm (cpc s)) \<and> (priming (cpc s') \<longrightarrow> calm (cpc s) \<or> priming (cpc s)) \<and>
   (starting (cpc s') \<longrightarrow> starting (cpc s)) \<and> (cpc s = C_SetCount \<longrightarrow> priming (cpc s'))"
  unfolding caller_step_def
  by (cases "cpc s") (auto split: if_splits)

lemma caller_creates:
  "caller_step N s = Some s' \<Longrightarrow> cpc s' = I_Create k \<Longrightarrow> \<exists>j. cpc s = I_Create j \<and> j < N \<and> k = Suc j"
  unfolding caller_step_def
  by (cases "cpc s") (auto split: if_splits)

lemma caller_starting_pc:
  "caller_step N s = Some s' \<Longrightarrow> starting (cpc s) \<Longrightarrow> wpc s' i = wpc s i \<or> wpc s' i = W_Start"
  unfolding caller_step_def
  by (cases "cpc s") (auto split: if_splits)

lemma caller_new_worker: "inv_phase N s \<Longrightarrow> cpc s = I_Create k \<Longrightarrow> k < N \<Longrightarrow> wpc s k = W_New"
  by (rule inv_phaseD(9) [where k = k]) simp_all

lemma caller_step_pcs:
  assumes "caller_step N s = Some s'" "inv_phase N s" "i < N"
  shows "counted (wpc s' i) = counted (wpc s i)" "holds_cond (wpc s' i) = holds_cond (wpc s i)"
    "holds_caller (wpc s' i) = holds_caller (wpc s i)" "item_of (wpc s' i) = item_of (wpc s i)"
    "alive (wpc s' i) = alive (wpc s i)" "idle (wpc s' i) = idle (wpc s i)"
  using caller_frame [OF assms(1)] caller_new_worker [OF assms(2)]
  by (cases "cpc s"; auto)+

lemma caller_count:
  assumes "caller_step N s = Some s'" "inv_base N s"
  shows "inv_count N s'"
proof -
  have "{i. i < N \<and> counted (wpc s' i)} = {i. i < N \<and> counted (wpc s i)}"
    using caller_step_pcs(1) [OF assms(1) inv_baseD(3) [OF assms(2)]] by blast
  then show ?thesis using inv_baseD(1) [OF assms(2)] caller_frame [OF assms(1)] by (simp add: inv_count_def)
qed

lemma caller_locks:
  assumes "caller_step N s = Some s'" "inv_base N s"
  shows "inv_locks N s'"
proof -
  note P = caller_step_pcs(2,3) [OF assms(1) inv_baseD(3) [OF assms(2)]]
  have L: "\<And>j. (cond_lock s = Some (Worker j)) = (j < N \<and> holds_cond (wpc s j))"
    "\<And>j. (caller_cond_lock s = Some (Worker j)) = (j < N \<and> holds_caller (wpc s j))"
    "(cond_lock s = Some Caller) = caller_has_cond (cpc s)"
    "(caller_cond_lock s = Some Caller) = caller_has_caller (cpc s)"
    using inv_baseD(2) [OF assms(2)] by (simp_all add: inv_locks_def)
  have "(cond_lock s' = Some (Worker j)) = (j < N \<and> holds_cond (wpc s' j))"
    "(caller_cond_lock s' = Some (Worker j)) = (j < N \<and> holds_caller (wpc s' j))" for j
    using caller_cond_lock_step [OF assms(1)] caller_caller_lock_step [OF assms(1)] P [of j]
      L(1) [of j] L(2) [of j] L(3,4)
    by (auto split: if_splits)
  moreover have "(cond_lock s' = Some Caller) = caller_has_cond (cpc s')"
    "(caller_cond_lock s' = Some Caller) = caller_has_caller (cpc s')"
    using caller_cond_lock_step [OF assms(1)] caller_caller_lock_step [OF assms(1)] L(3,4)
    by (auto split: if_splits)
  ultimately show ?thesis by (simp add: inv_locks_def)
qed

lemma caller_rest:
  assumes "caller_step N s = Some s'" "inv_phase N s" "at_rest N s" "cpc s \<noteq> C_SetCount"
  shows "at_rest N s'"
  using assms(3,4) caller_step_pcs(6) [OF assms(1,2)] caller_frame [OF assms(1)] by (simp add: at_rest_def)

lemma caller_pc_same:
  assumes "caller_step N s = Some s'" "wpc s' i = p" "p \<in> {W_LockCond, W_DecRunning, W_LockCaller, W_Broadcast}"
  shows "wpc s i = p"
  using caller_frame [OF assms(1)] assms(2,3) wake_workers_pc [of p "wpc s" i]
  by (cases "cpc s") (auto split: if_splits)

lemma caller_phase:
  assumes step: "caller_step N s = Some s'" and inv: "inv_base N s"
  shows "inv_phase N s'"
proof -
  note ph = inv_baseD(3) [OF inv]
  note D = inv_phaseD [OF ph]
  note F = caller_frame [OF step]
  note mv = caller_moves [OF step]
  note P = caller_step_pcs [OF step ph]
  have set_rest: "at_rest N s" if "cpc s = C_SetCount" using D(5) that by simp
  have a: "gRunCount s' < MAX_COUNT" using F D(1,11) by (cases "cpc s = C_SetCount") simp_all
  have l: "gRunCount s' \<le> 0" if "i < N" "wpc s' i \<in> {W_LockCond, W_DecRunning}" for i
  proof -
    have i: "wpc s i \<in> {W_LockCond, W_DecRunning}" using caller_pc_same [OF step, of i] that(2) by blast
    then have "\<not> idle (wpc s i)" by auto
    then have "cpc s \<noteq> C_SetCount" using set_rest that(1) by (auto simp: at_rest_def)
    then show ?thesis using D(3) [OF that(1) i] F by simp
  qed
  have b: "at_rest N s'" if "i < N" "wpc s' i \<in> {W_LockCaller, W_Broadcast}" for i
  proof -
    have i: "wpc s i \<in> {W_LockCaller, W_Broadcast}" using caller_pc_same [OF step, of i] that(2) by blast
    then have "holds_cond (wpc s i)" by auto
    then have "\<not> caller_has_cond (cpc s)"
      using inv_locksD(1,3) [OF inv_baseD(2) [OF inv]] that(1) by force
    then have "cpc s \<noteq> C_SetCount" by auto
    then show ?thesis using caller_rest [OF step ph D(4) [OF that(1) i]] by blast
  qed
  have c: "at_rest N s'" if "calm (cpc s')"
  proof -
    have "calm (cpc s)" "cpc s \<noteq> C_SetCount" using mv that by (cases "cpc s'"; auto)+
    then show ?thesis using caller_rest [OF step ph D(5)] by blast
  qed
  have p: "idle (wpc s' i)" if "priming (cpc s')" "i < N" for i
    using mv that D(5,6) P(6) by (auto simp: at_rest_def)
  have n: "wpc s' i = W_New" if k: "cpc s' = I_Create k" "i < N" "k \<le> i" for i k
  proof -
    obtain j where j: "cpc s = I_Create j" "j < N" "k = Suc j" using caller_creates [OF step k(1)] by blast
    then show ?thesis using D(9) [OF j(1) k(2)] k(3) F by simp
  qed
  have st: "gRunCount s' \<le> 0" if "starting (cpc s')"
  proof -
    have "starting (cpc s)" using mv that by blast
    moreover from this have "cpc s \<noteq> C_SetCount" by auto
    ultimately show ?thesis using D(7) F by simp
  qed
  have w: "idle (wpc s' i) \<or> wpc s' i \<in> {W_New, W_Start, W_LockCond, W_DecRunning}"
    if "starting (cpc s')" "i < N" for i
    using D(8) [OF _ that(2)] caller_starting_pc [OF step, of i] mv that(1) by auto
  have al: "alive (wpc s' i)" if "i < N" for i using P(5) [OF that] D(2) [OF that] by simp
  have it: "0 < it" if "i < N" "item_of (wpc s' i) = Some it" for i it
    using P(4) [OF that(1)] D(10) [OF that(1)] that(2) by simp
  have ac: "int (argCount s') < MAX_COUNT" using D(11) F by simp
  show ?thesis unfolding inv_phase_def using a al l b c p st w n it ac by blast
qed

lemma caller_base: "caller_step N s = Some s' \<Longrightarrow> inv_base N s \<Longrightarrow> inv_base N s'"
  using caller_count caller_locks caller_phase unfolding inv_base_def by metis

text \<open>A spurious wake-up of worker \<open>i\<close>; the entry of \<open>ThreadPool_Do\<close>; the start.\<close>

lemma wake_base:
  assumes "inv_base N s" "wpc s i = W_Waiting"
  shows "inv_base N (goto i W_Reacquire s)"
proof -
  have same: "counted (((wpc s)(i := W_Reacquire)) j) = counted (wpc s j)"
    "idle (((wpc s)(i := W_Reacquire)) j) = idle (wpc s j)"
    "holds_cond (((wpc s)(i := W_Reacquire)) j) = holds_cond (wpc s j)"
    "holds_caller (((wpc s)(i := W_Reacquire)) j) = holds_caller (wpc s j)"
    "alive (((wpc s)(i := W_Reacquire)) j) = alive (wpc s j)"
    "item_of (((wpc s)(i := W_Reacquire)) j) = item_of (wpc s j)" for j
    using assms(2) by simp_all
  have pc: "p \<noteq> W_Waiting \<Longrightarrow> p \<noteq> W_Reacquire \<Longrightarrow> ((wpc s)(i := W_Reacquire)) j = p \<longleftrightarrow> wpc s j = p" for p j
    using assms(2) by auto
  show ?thesis
    using assms(1) unfolding inv_base_def inv_count_def inv_locks_def inv_phase_def at_rest_def
    by (simp add: same pc del: fun_upd_apply)
qed

lemma do_base:
  assumes "ThreadPool_Do f n s = Some s'" "inv_base N s"
  shows "inv_base N s'"
proof -
  have c: "cpc s = C_Idle" using assms(1) by (simp add: ThreadPool_Do_def split: if_splits)
  have r: "at_rest N s" using inv_phaseD(5) [OF inv_baseD(3) [OF assms(2)]] c by simp
  show ?thesis
  proof (cases "MAX_COUNT \<le> int n")
    case True
    then show ?thesis using assms c r
      by (auto simp: ThreadPool_Do_def inv_base_def inv_count_def inv_locks_def inv_phase_def at_rest_def)
  next
    case False
    then show ?thesis using assms c r
      by (auto simp: ThreadPool_Do_def inv_base_def inv_count_def inv_locks_def inv_phase_def at_rest_def)
  qed
qed

lemma start_base: "inv_base N (launch N)"
  by (simp add: launch_def inv_base_def inv_count_def inv_locks_def inv_phase_def MAX_COUNT_def)

lemma perform_base:
  assumes "perform N False e s = Some s'" "inv_base N s"
  shows "inv_base N s'"
  using assms worker_base caller_base do_base wake_base
  by (cases e) (auto simp: perform_def split: if_splits)

lemma reachable_base: "reachable N False s \<Longrightarrow> inv_base N s"
  by (induction rule: reachable.induct) (use start_base perform_base in blast)+



end
