(* ===== verification/ThreadPoolJobs.thy ===== *)
theory ThreadPoolJobs
  imports ThreadPoolInv
begin

text \<open>
  The accounting of jobs in the thread pool: which items were drawn, which are held by a worker,
  which ran and with what result, and where \<open>jobError\<close> came from. It gives what a call of
  \<open>ThreadPool_Do\<close> promises when it returns, and what the single-threaded replacement of
  the pool promises.
\<close>

section \<open>The accounting of jobs\<close>

fun plain :: "wpc \<Rightarrow> bool" where
  "plain W_Start = False" | "plain W_Retry = False" | "plain W_Next = False" | "plain (W_CheckErr it) = False"
| "plain (W_Call it) = False" | "plain (W_Cas e) = False" | "plain W_ZeroRun = False" | "plain p = True"

fun failing :: "wpc \<Rightarrow> int option" where
  "failing (W_Cas e) = Some e" | "failing p = None"

lemma worker_plain:
  "worker_step i s = Some s' \<Longrightarrow> plain (wpc s i) \<Longrightarrow>
   taken s' = taken s \<and> ran s' = ran s \<and> jobError s' = jobError s \<and> gRunCount s' = gRunCount s \<and>
   item_of (wpc s' i) = item_of (wpc s i) \<and> failing (wpc s i) = None \<and> failing (wpc s' i) = None \<and>
   wpc s' i \<noteq> W_ZeroRun"
  unfolding worker_step_def
  by (cases "wpc s i") (auto split: if_splits)

lemma worker_jobs_cases:
  assumes "worker_step i s = Some s'" "alive (wpc s i)" "gRunCount s < MAX_COUNT"
  obtains
    (quiet) "taken s' = taken s" "ran s' = ran s" "jobError s' = jobError s" "gRunCount s' = gRunCount s"
      "item_of (wpc s' i) = item_of (wpc s i)" "failing (wpc s i) = None" "failing (wpc s' i) = None"
      "wpc s' i \<noteq> W_ZeroRun"
  | (skip) it where "taken s' = taken s" "ran s' = ran s" "jobError s' = jobError s" "gRunCount s' = gRunCount s"
      "wpc s i = W_CheckErr it" "wpc s' i = W_Next" "jobError s \<noteq> 0"
  | (empty) "taken s' = taken s" "ran s' = ran s" "jobError s' = jobError s" "gRunCount s' = gRunCount s - 1"
      "gRunCount s \<le> 0" "wpc s i \<in> {W_Start, W_Retry, W_Next}" "wpc s' i \<in> {W_LockCond, W_CondWait}"
  | (item) "taken s' = gRunCount s # taken s" "ran s' = ran s" "jobError s' = jobError s"
      "gRunCount s' = gRunCount s - 1" "0 < gRunCount s"
      "wpc s i \<in> {W_Start, W_Retry, W_Next}" "wpc s' i \<in> {W_CheckErr (gRunCount s), W_IncRunning (gRunCount s)}"
  | (call) it j e where "taken s' = taken s" "ran s' = (j, e) # ran s" "jobError s' = jobError s"
      "gRunCount s' = gRunCount s" "wpc s i = W_Call it" "j = nat (it - 1)" "e = gFunc_ptr s j"
      "wpc s' i = (if e \<noteq> 0 then W_Cas e else W_Next)"
  | (cas) e where "taken s' = taken s" "ran s' = ran s" "gRunCount s' = gRunCount s"
      "jobError s' = (if jobError s = 0 then e else jobError s)" "wpc s i = W_Cas e" "wpc s' i = W_ZeroRun"
  | (zero) "taken s' = taken s" "ran s' = ran s" "jobError s' = jobError s" "gRunCount s' = 0"
      "wpc s i = W_ZeroRun" "wpc s' i = W_Next"
proof -
  note st = assms(1) [unfolded worker_step_def]
  have draw: thesis if p: "wpc s i \<in> {W_Start, W_Retry, W_Next}"
  proof (cases "0 < gRunCount s")
    case True
    show thesis
      by (rule item) (use p st assms(3) True in \<open>auto simp: dispatch_def retry_def\<close>)
  next
    case False
    show thesis
      by (rule empty) (use p st assms(3) False in \<open>auto simp: dispatch_def retry_def MAX_COUNT_def\<close>)
  qed
  consider "plain (wpc s i)" | "wpc s i \<in> {W_Start, W_Retry, W_Next}" | it where "wpc s i = W_CheckErr it"
    | it where "wpc s i = W_Call it" | e where "wpc s i = W_Cas e" | "wpc s i = W_ZeroRun"
    by (cases "wpc s i") simp_all
  then show thesis
  proof cases
    case 1
    show thesis by (rule quiet) (use worker_plain [OF assms(1) 1] in simp_all)
  next
    case 2
    then show thesis by (rule draw)
  next
    case (3 it)
    show thesis
    proof (cases "jobError s = 0")
      case True
      show thesis by (rule quiet) (use 3 st True in \<open>auto\<close>)
    next
      case False
      show thesis by (rule skip [of it]) (use 3 st False in \<open>auto\<close>)
    qed
  next
    case (4 it)
    show thesis
      by (rule call [of "nat (it - 1)" "gFunc_ptr s (nat (it - 1))" it]) (use 4 st in \<open>auto simp: Let_def\<close>)
  next
    case (5 e)
    show thesis by (rule cas [of e]) (use 5 st in auto)
  next
    case 6
    show thesis by (rule zero) (use 6 st in auto)
  qed
qed

text \<open>
  The items taken are those above \<open>gRunCount\<close> (all of them while no job failed); an item a
  worker holds was taken, is held by it alone and has not run; a taken item is held or has run,
  unless a job failed; what ran is recorded with its result; an error is one a job returned.
\<close>

definition inv_taken :: "pool \<Rightarrow> bool" where
  "inv_taken s \<longleftrightarrow> distinct (taken s) \<and> set (taken s) \<subseteq> {max 0 (gRunCount s)<..int (argCount s)} \<and>
     (jobError s = 0 \<longrightarrow> {max 0 (gRunCount s)<..int (argCount s)} \<subseteq> set (taken s))"

definition inv_pending :: "nat \<Rightarrow> pool \<Rightarrow> bool" where
  "inv_pending N s \<longleftrightarrow> (\<forall>i<N. \<forall>it. item_of (wpc s i) = Some it \<longrightarrow>
     it \<in> set (taken s) \<and> nat (it - 1) \<notin> fst ` set (ran s) \<and>
     (\<forall>j<N. item_of (wpc s j) = Some it \<longrightarrow> j = i))"

definition inv_covered :: "nat \<Rightarrow> pool \<Rightarrow> bool" where
  "inv_covered N s \<longleftrightarrow> jobError s = 0 \<longrightarrow> (\<forall>it\<in>set (taken s).
     (\<exists>i<N. item_of (wpc s i) = Some it) \<or> nat (it - 1) \<in> fst ` set (ran s))"

definition inv_history :: "pool \<Rightarrow> bool" where
  "inv_history s \<longleftrightarrow> distinct (map fst (ran s)) \<and>
     (\<forall>j r. (j, r) \<in> set (ran s) \<longrightarrow> r = argFunc s j \<and> int j + 1 \<in> set (taken s))"

definition inv_errors :: "nat \<Rightarrow> pool \<Rightarrow> bool" where
  "inv_errors N s \<longleftrightarrow>
     (\<forall>i<N. \<forall>e. failing (wpc s i) = Some e \<longrightarrow> e \<noteq> 0 \<and> e \<in> snd ` set (ran s)) \<and>
     (\<forall>i<N. wpc s i = W_ZeroRun \<longrightarrow> jobError s \<noteq> 0) \<and>
     (jobError s \<noteq> 0 \<longrightarrow> jobError s \<in> snd ` set (ran s)) \<and>
     (\<forall>r\<in>snd ` set (ran s). r \<noteq> 0 \<longrightarrow> jobError s \<noteq> 0 \<or> (\<exists>i<N. failing (wpc s i) \<noteq> None))"

definition jobs :: "nat \<Rightarrow> pool \<Rightarrow> bool" where
  "jobs N s \<longleftrightarrow> inv_taken s \<and> inv_pending N s \<and> inv_covered N s \<and> inv_history s \<and> inv_errors N s \<and>
     gRunCount s \<le> int (argCount s)"

lemma jobsD:
  "jobs N s \<Longrightarrow> inv_taken s" "jobs N s \<Longrightarrow> inv_pending N s" "jobs N s \<Longrightarrow> inv_covered N s"
  "jobs N s \<Longrightarrow> inv_history s" "jobs N s \<Longrightarrow> inv_errors N s"
  "jobs N s \<Longrightarrow> gRunCount s \<le> int (argCount s)"
  by (simp_all add: jobs_def)

lemma inv_pendingD:
  assumes "inv_pending N s" "i < N" "item_of (wpc s i) = Some it"
  shows "it \<in> set (taken s)" "nat (it - 1) \<notin> fst ` set (ran s)" "j < N \<Longrightarrow> item_of (wpc s j) = Some it \<Longrightarrow> j = i"
  using assms unfolding inv_pending_def by blast+

lemma max_drop: "0 < (r::int) \<Longrightarrow> r \<le> n \<Longrightarrow> {max 0 (r - 1)<..n} = insert r {max 0 r<..n}"
  by auto

lemma worker_taken:
  assumes "worker_step i s = Some s'" "alive (wpc s i)" "gRunCount s < MAX_COUNT"
    "jobs N s" "i < N"
  shows "inv_taken s'"
proof -
  have n: "argCount s' = argCount s" using worker_frame [OF assms(1)] by blast
  note T = jobsD(1) [OF assms(4), unfolded inv_taken_def]
  from assms(1-3) show ?thesis
  proof (cases rule: worker_jobs_cases)
    case empty
    then have "max 0 (gRunCount s') = max 0 (gRunCount s)" by simp
    then show ?thesis using T n empty by (simp add: inv_taken_def)
  next
    case item
    have "gRunCount s \<notin> set (taken s)" using T by auto
    then show ?thesis using T n item max_drop [OF item(5) jobsD(6) [OF assms(4)]] unfolding inv_taken_def by auto
  next
    case (cas e)
    have "e \<noteq> 0" using jobsD(5) [OF assms(4)] assms(5) cas(5) unfolding inv_errors_def by auto
    then show ?thesis using T n cas by (simp add: inv_taken_def)
  next
    case zero
    have "jobError s \<noteq> 0" using jobsD(5) [OF assms(4)] assms(5) zero(5) unfolding inv_errors_def by auto
    then show ?thesis using T n zero by (auto simp: inv_taken_def)
  qed (use T n in \<open>simp_all add: inv_taken_def\<close>)
qed

lemma worker_history:
  assumes "worker_step i s = Some s'" "alive (wpc s i)" "gRunCount s < MAX_COUNT"
    "jobs N s" "i < N" "idle (wpc s i) \<or> gFunc_ptr s = argFunc s"
  shows "inv_history s'"
proof -
  have f: "argFunc s' = argFunc s" using worker_frame [OF assms(1)] by blast
  note H = jobsD(4) [OF assms(4), unfolded inv_history_def]
  from assms(1-3) show ?thesis
  proof (cases rule: worker_jobs_cases)
    case (call it j e)
    have p: "item_of (wpc s i) = Some it" using call(5) by simp
    have it: "it \<in> set (taken s)" "j \<notin> fst ` set (ran s)"
      using inv_pendingD [OF jobsD(2) [OF assms(4)] assms(5) p] unfolding call(6) by blast+
    have "0 < it" using it(1) jobsD(1) [OF assms(4)] by (auto simp: inv_taken_def)
    then have "int j + 1 = it" using call(6) by simp
    moreover have "e = argFunc s j" using assms(6) call(5,7) by auto
    ultimately have new: "e = argFunc s j \<and> int j + 1 \<in> set (taken s)" using it(1) by simp
    have "r = argFunc s' k \<and> int k + 1 \<in> set (taken s')" if "(k, r) \<in> set (ran s')" for k r
    proof -
      have "(k, r) = (j, e) \<or> (k, r) \<in> set (ran s)" using that call(2) by simp
      then show ?thesis using new H f call(1) by (metis prod.inject)
    qed
    then show ?thesis using H it(2) call(2) by (simp add: inv_history_def)
  qed (use H f in \<open>simp_all add: inv_history_def\<close>)
qed

lemma worker_error_facts:
  "worker_step i s = Some s' \<Longrightarrow>
   set (ran s) \<subseteq> set (ran s') \<and>
   (\<forall>e. failing (wpc s' i) = Some e \<longrightarrow> e \<noteq> 0 \<and> e \<in> snd ` set (ran s')) \<and>
   (wpc s' i = W_ZeroRun \<longrightarrow> failing (wpc s i) \<noteq> None) \<and>
   (failing (wpc s i) = None \<longrightarrow> jobError s' = jobError s) \<and>
   (\<forall>e. failing (wpc s i) = Some e \<longrightarrow> jobError s' = (if jobError s = 0 then e else jobError s)) \<and>
   (snd ` set (ran s') \<subseteq> insert 0 (snd ` set (ran s)) \<or> failing (wpc s' i) \<noteq> None)"
  unfolding worker_step_def
  by (cases "wpc s i") (auto simp: Let_def dispatch_def retry_def split: if_splits)

lemma worker_errors:
  assumes step: "worker_step i s = Some s'" and E: "inv_errors N s" and i: "i < N"
  shows "inv_errors N s'"
proof -
  note F = worker_error_facts [OF step]
  have w: "wpc s' j = wpc s j" if "j \<noteq> i" for j by (rule worker_other [OF step that])
  have E1: "\<And>j e. j < N \<Longrightarrow> failing (wpc s j) = Some e \<Longrightarrow> e \<noteq> 0 \<and> e \<in> snd ` set (ran s)"
    and E2: "\<And>j. j < N \<Longrightarrow> wpc s j = W_ZeroRun \<Longrightarrow> jobError s \<noteq> 0"
    and E3: "jobError s \<noteq> 0 \<Longrightarrow> jobError s \<in> snd ` set (ran s)"
    and E4: "\<And>r. r \<in> snd ` set (ran s) \<Longrightarrow> r \<noteq> 0 \<Longrightarrow> jobError s \<noteq> 0 \<or> (\<exists>i<N. failing (wpc s i) \<noteq> None)"
    using E unfolding inv_errors_def by blast+
  have sub: "snd ` set (ran s) \<subseteq> snd ` set (ran s')" using F by blast
  have mono: "jobError s' \<noteq> 0" if "jobError s \<noteq> 0"
    using F that by (cases "failing (wpc s i)") auto
  have set: "jobError s' \<noteq> 0" if "failing (wpc s i) = Some e" for e
    using F E1 [OF i that] that by (metis (full_types))
  have 1: "e \<noteq> 0 \<and> e \<in> snd ` set (ran s')" if "j < N" "failing (wpc s' j) = Some e" for j e
    using that F E1 [of j e] w [of j] sub by (cases "j = i") auto
  have 2: "jobError s' \<noteq> 0" if "j < N" "wpc s' j = W_ZeroRun" for j
    using that F set mono E2 [of j] w [of j] by (cases "j = i") auto
  have 3: "jobError s' \<in> snd ` set (ran s')" if "jobError s' \<noteq> 0"
    using that F E1 [OF i] E3 sub by (cases "failing (wpc s i)") (auto split: if_splits)
  have 4: "jobError s' \<noteq> 0 \<or> (\<exists>j<N. failing (wpc s' j) \<noteq> None)" if r: "r \<in> snd ` set (ran s')" "r \<noteq> 0" for r
  proof (cases "r \<in> snd ` set (ran s)")
    case True
    then consider "jobError s \<noteq> 0" | k where "k < N" "failing (wpc s k) \<noteq> None" using E4 r(2) by blast
    then show ?thesis
    proof cases
      case 2
      then show ?thesis using set w [of k] by (cases "k = i") auto
    qed (use mono in blast)
  next
    case False
    then have "failing (wpc s' i) \<noteq> None" using F r by blast
    then show ?thesis using i by blast
  qed
  show ?thesis unfolding inv_errors_def using 1 2 3 4 by blast
qed

lemma worker_item_facts:
  "worker_step i s = Some s' \<Longrightarrow> gRunCount s < MAX_COUNT \<Longrightarrow>
   set (taken s) \<subseteq> set (taken s') \<and>
   (\<forall>it. item_of (wpc s' i) = Some it \<longrightarrow>
      item_of (wpc s i) = Some it \<and> ran s' = ran s \<or>
      it = gRunCount s \<and> 0 < it \<and> ran s' = ran s \<and> taken s' = it # taken s) \<and>
   (taken s' = taken s \<or> item_of (wpc s' i) = Some (gRunCount s) \<and> taken s' = gRunCount s # taken s) \<and>
   (ran s' = ran s \<or> (\<exists>it e. item_of (wpc s i) = Some it \<and> ran s' = (nat (it - 1), e) # ran s \<and> taken s' = taken s)) \<and>
   (\<forall>it. item_of (wpc s i) = Some it \<longrightarrow> item_of (wpc s' i) = Some it \<or> jobError s \<noteq> 0 \<or>
      nat (it - 1) \<in> fst ` set (ran s'))"
  unfolding worker_step_def
  by (cases "wpc s i") (auto simp: Let_def dispatch_def retry_def split: if_splits)

lemma worker_pending:
  assumes step: "worker_step i s = Some s'" and max: "gRunCount s < MAX_COUNT" and J: "jobs N s" and i: "i < N"
  shows "inv_pending N s'"
proof -
  note F = worker_item_facts [OF step max]
  note P = inv_pendingD [OF jobsD(2) [OF J]]
  have w: "wpc s' j = wpc s j" if "j \<noteq> i" for j by (rule worker_other [OF step that])
  have T: "\<And>it. it \<in> set (taken s) \<Longrightarrow> max 0 (gRunCount s) < it"
    using jobsD(1) [OF J] by (auto simp: inv_taken_def)
  have H: "\<And>k. k \<in> fst ` set (ran s) \<Longrightarrow> int k + 1 \<in> set (taken s)"
    using jobsD(4) [OF J] by (auto simp: inv_history_def)
  have fresh: "gRunCount s \<notin> set (taken s)" using T by fastforce
  have new: "nat (gRunCount s - 1) \<notin> fst ` set (ran s)" if "0 < gRunCount s"
    using H [of "nat (gRunCount s - 1)"] that fresh by auto
  have A: "it \<in> set (taken s') \<and> nat (it - 1) \<notin> fst ` set (ran s')" if "j < N" "item_of (wpc s' j) = Some it" for j it
  proof (cases "j = i")
    case True
    then consider "item_of (wpc s i) = Some it" "ran s' = ran s"
      | "it = gRunCount s" "0 < it" "ran s' = ran s" "taken s' = it # taken s" using F \<open>item_of (wpc s' j) = Some it\<close> by blast
    then show ?thesis
    proof cases
      case 1
      then show ?thesis using P(1,2) [OF i 1(1)] F by auto
    next
      case 2
      then show ?thesis using new by simp
    qed
  next
    case False
    then have j: "item_of (wpc s j) = Some it" using that w by simp
    have old: "it \<in> set (taken s)" "nat (it - 1) \<notin> fst ` set (ran s)" using P(1,2) [OF \<open>j < N\<close> j] .
    have "nat (it - 1) \<noteq> nat (it' - 1)" if i': "item_of (wpc s i) = Some it'" for it'
    proof -
      have "it \<noteq> it'" using P(3) [OF \<open>j < N\<close> j i] i' False by blast
      then show ?thesis using T [OF old(1)] T [OF P(1) [OF i i']] by (simp add: eq_nat_nat_iff)
    qed
    then have "nat (it - 1) \<notin> fst ` set (ran s')" using F old(2) by auto
    then show ?thesis using old(1) F by blast
  qed
  have B: "j = k" if "j < N" "k < N" "item_of (wpc s' j) = Some it" "item_of (wpc s' k) = Some it" for j k it
  proof (rule ccontr)
    assume jk: "j \<noteq> k"
    have other: "item_of (wpc s m) = Some it" if "m \<noteq> i" "m \<in> {j, k}" for m
      using that w [OF that(1)] \<open>item_of (wpc s' j) = Some it\<close> \<open>item_of (wpc s' k) = Some it\<close> by auto
    obtain m where m: "m < N" "m \<noteq> i" "m \<in> {j, k}" using jk \<open>j < N\<close> \<open>k < N\<close> by (cases "j = i") auto
    have pm: "item_of (wpc s m) = Some it" by (rule other [OF m(2,3)])
    have "\<not> (item_of (wpc s' i) = Some it)"
    proof
      assume "item_of (wpc s' i) = Some it"
      then have "item_of (wpc s i) = Some it \<or> it = gRunCount s" using F by blast
      then show False using P(1,3) [OF m(1) pm] i m(2) fresh by blast
    qed
    then have "j \<noteq> i" "k \<noteq> i" using \<open>item_of (wpc s' j) = Some it\<close> \<open>item_of (wpc s' k) = Some it\<close> by auto
    then have "item_of (wpc s j) = Some it" "item_of (wpc s k) = Some it" using other by blast+
    then show False using P(3) [OF \<open>j < N\<close> _ \<open>k < N\<close>] jk by blast
  qed
  show ?thesis unfolding inv_pending_def using A B by blast
qed

lemma worker_covered:
  assumes step: "worker_step i s = Some s'" and max: "gRunCount s < MAX_COUNT" and J: "jobs N s" and i: "i < N"
  shows "inv_covered N s'"
  unfolding inv_covered_def
proof (intro impI ballI)
  fix it assume ok: "jobError s' = 0" and it: "it \<in> set (taken s')"
  note F = worker_item_facts [OF step max]
  note G = worker_error_facts [OF step]
  have err: "jobError s = 0" using G ok by (cases "failing (wpc s i)") (auto split: if_splits)
  have sub: "fst ` set (ran s) \<subseteq> fst ` set (ran s')" using G by blast
  consider "it \<in> set (taken s)" | "item_of (wpc s' i) = Some it" using F it by auto
  then show "(\<exists>i<N. item_of (wpc s' i) = Some it) \<or> nat (it - 1) \<in> fst ` set (ran s')"
  proof cases
    case 1
    then consider k where "k < N" "item_of (wpc s k) = Some it" | "nat (it - 1) \<in> fst ` set (ran s)"
      using jobsD(3) [OF J] err unfolding inv_covered_def by blast
    then show ?thesis
    proof cases
      case (1 k)
      then show ?thesis using F err worker_other [OF step, of k] by (cases "k = i") (metis, metis)
    qed (use sub in blast)
  qed (use i in blast)
qed

lemma worker_jobs:
  assumes "worker_step i s = Some s'" "alive (wpc s i)" "gRunCount s < MAX_COUNT" "jobs N s" "i < N"
    "idle (wpc s i) \<or> gFunc_ptr s = argFunc s"
  shows "jobs N s'"
proof -
  have "gRunCount s' \<le> int (argCount s')"
    using worker_gRunCount [OF assms(1)] jobsD(6) [OF assms(4)] worker_frame [OF assms(1)] by linarith
  then show ?thesis unfolding jobs_def
    using worker_taken [OF assms(1-5)] worker_pending [OF assms(1,3,4,5)] worker_covered [OF assms(1,3,4,5)]
      worker_history [OF assms] worker_errors [OF assms(1) jobsD(5) [OF assms(4)] assms(5)] by blast
qed

text \<open>Nothing else touches the jobs, except \<open>C_SetCount\<close>, which resets them.\<close>

lemma jobs_frame:
  assumes "jobs N s" "taken s' = taken s" "ran s' = ran s" "jobError s' = jobError s" "gRunCount s' = gRunCount s"
    "argCount s' = argCount s" "argFunc s' = argFunc s"
    "\<And>i. i < N \<Longrightarrow> item_of (wpc s' i) = item_of (wpc s i)"
    "\<And>i. i < N \<Longrightarrow> failing (wpc s' i) = failing (wpc s i)"
    "\<And>i. i < N \<Longrightarrow> wpc s' i = W_ZeroRun \<longleftrightarrow> wpc s i = W_ZeroRun"
  shows "jobs N s'"
  using assms(1) unfolding jobs_def inv_taken_def inv_pending_def inv_covered_def inv_history_def inv_errors_def
  by (simp add: assms(2-) cong: conj_cong)

lemma idle_failing: "idle p \<Longrightarrow> failing p = None"
  by (cases p) simp_all

lemma jobs_fresh:
  assumes "\<And>i. i < N \<Longrightarrow> idle (wpc s i)" "taken s = []" "ran s = []" "jobError s = 0" "gRunCount s = int (argCount s)"
  shows "jobs N s"
  using assms idle_facts idle_failing
  unfolding jobs_def inv_taken_def inv_pending_def inv_covered_def inv_history_def inv_errors_def by auto

definition inv_jobs :: "nat \<Rightarrow> pool \<Rightarrow> bool" where
  "inv_jobs N s \<longleftrightarrow> (doing (cpc s) \<longrightarrow> jobs N s) \<and>
     (doing (cpc s) \<and> cpc s \<noteq> C_SetFunc \<longrightarrow> gFunc_ptr s = argFunc s) \<and>
     (cpc s = C_SetCount \<longrightarrow> jobError s = 0) \<and> (\<forall>r. cpc s = C_Done r \<longrightarrow> r = jobError s)"

lemma worker_inv_jobs:
  assumes step: "worker_step i s = Some s'" and base: "inv_base N s" and J: "inv_jobs N s" and i: "i < N"
  shows "inv_jobs N s'"
proof -
  note M = base_moves [OF step base i]
  note D = inv_phaseD [OF inv_baseD(3) [OF base]]
  note F = worker_frame [OF step]
  have c: "cpc s' = cpc s \<or> cpc s' = wake_caller (cpc s)" using F by simp
  have same: "doing (cpc s') = doing (cpc s)" "cpc s' = C_SetFunc \<longleftrightarrow> cpc s = C_SetFunc"
    "cpc s' = C_SetCount \<longleftrightarrow> cpc s = C_SetCount" "cpc s' = C_Done r \<longleftrightarrow> cpc s = C_Done r" for r
    using c by (cases "cpc s"; auto simp: wake_caller_def)+
  have err: "jobError s' = jobError s" if "idle (wpc s i)"
    using worker_error_facts [OF step] idle_failing [OF that] by blast
  have rest: "jobError s' = jobError s" if "calm (cpc s)" using err D(5) [OF that] i by (simp add: at_rest_def)
  have "jobs N s'" if "doing (cpc s)"
  proof -
    have "idle (wpc s i)" if "cpc s = C_SetFunc" using D(6) [OF _ i] that by simp
    then have "idle (wpc s i) \<or> gFunc_ptr s = argFunc s" using J that by (auto simp: inv_jobs_def)
    moreover have "jobs N s" using J that by (simp add: inv_jobs_def)
    ultimately show ?thesis using worker_jobs [OF step M(1,2)] i by blast
  qed
  moreover have "gFunc_ptr s' = argFunc s'" if "doing (cpc s)" "cpc s \<noteq> C_SetFunc" using J F that by (simp add: inv_jobs_def)
  moreover have "jobError s' = 0" if "cpc s = C_SetCount" using rest J that by (simp add: inv_jobs_def)
  moreover have "r = jobError s'" if "cpc s = C_Done r" for r using rest J that by (simp add: inv_jobs_def)
  ultimately show ?thesis unfolding inv_jobs_def same by blast
qed

lemma caller_jobs_frame:
  "caller_step N s = Some s' \<Longrightarrow> cpc s \<noteq> C_SetCount \<Longrightarrow>
   taken s' = taken s \<and> ran s' = ran s \<and> (cpc s \<noteq> C_ClearErr \<longrightarrow> jobError s' = jobError s) \<and>
   (cpc s = C_ClearErr \<longrightarrow> jobError s' = 0) \<and>
   (cpc s = C_SetFunc \<longrightarrow> gFunc_ptr s' = argFunc s) \<and> (cpc s \<noteq> C_SetFunc \<longrightarrow> gFunc_ptr s' = gFunc_ptr s) \<and>
   (doing (cpc s') \<longrightarrow> doing (cpc s)) \<and> cpc s' \<noteq> C_SetFunc \<and> (cpc s' = C_SetCount \<longleftrightarrow> cpc s = C_ClearErr) \<and>
   (\<forall>r. cpc s' = C_Done r \<longrightarrow> r = jobError s')"
  unfolding caller_step_def
  by (cases "cpc s") (auto split: if_splits)

lemma caller_set_count:
  "caller_step N s = Some s' \<Longrightarrow> cpc s = C_SetCount \<Longrightarrow>
   s' = proceed C_SetFunc (s\<lparr>gRunCount := int (argCount s), taken := [], ran := []\<rparr>)"
  unfolding caller_step_def by simp

lemma wake_workers_failing [simp]: "failing (wake_workers w i) = failing (w i)"
  by (simp add: wake_workers_def)

lemma caller_failing:
  assumes "caller_step N s = Some s'" "inv_phase N s" "i < N"
  shows "failing (wpc s' i) = failing (wpc s i)" "wpc s' i = W_ZeroRun \<longleftrightarrow> wpc s i = W_ZeroRun"
  using caller_frame [OF assms(1)] caller_new_worker [OF assms(2)]
  by (cases "cpc s"; auto simp: wake_workers_pc)+

lemma caller_inv_jobs:
  assumes step: "caller_step N s = Some s'" and base: "inv_base N s" and J: "inv_jobs N s"
  shows "inv_jobs N s'"
proof (cases "cpc s = C_SetCount")
  case True
  have "at_rest N s" using inv_phaseD(5) [OF inv_baseD(3) [OF base]] True by simp
  then have "jobs N s'" using caller_set_count [OF step True] J True
    by (intro jobs_fresh) (auto simp: at_rest_def inv_jobs_def)
  then show ?thesis using caller_set_count [OF step True] by (simp add: inv_jobs_def)
next
  case False
  note F = caller_jobs_frame [OF step False]
  note G = caller_frame [OF step]
  have "jobs N s'" if "doing (cpc s')"
  proof -
    have d: "doing (cpc s)" "cpc s \<noteq> C_ClearErr" using F that by (cases "cpc s"; auto)+
    then have "jobs N s" using J by (simp add: inv_jobs_def)
    then show ?thesis
      by (rule jobs_frame)
        (use F G d False caller_step_pcs [OF step inv_baseD(3) [OF base]] caller_failing [OF step inv_baseD(3) [OF base]] in auto)
  qed
  moreover have "gFunc_ptr s' = argFunc s'" if "doing (cpc s')"
    using F G J that by (cases "cpc s = C_SetFunc") (auto simp: inv_jobs_def)
  ultimately show ?thesis using F unfolding inv_jobs_def by blast
qed

lemma wake_inv_jobs:
  assumes "inv_jobs N s" "wpc s i = W_Waiting"
  shows "inv_jobs N (goto i W_Reacquire s)"
proof -
  have "jobs N (goto i W_Reacquire s)" if "jobs N s"
    using that by (rule jobs_frame) (use assms(2) in auto)
  then show ?thesis using assms(1) by (simp add: inv_jobs_def)
qed

lemma do_inv_jobs: "ThreadPool_Do f n s = Some s' \<Longrightarrow> inv_jobs N s \<Longrightarrow> inv_jobs N s'"
  by (auto simp: ThreadPool_Do_def inv_jobs_def split: if_splits)

lemma perform_jobs:
  assumes "perform N False e s = Some s'" "inv_base N s" "inv_jobs N s"
  shows "inv_jobs N s'"
  using assms worker_inv_jobs caller_inv_jobs do_inv_jobs wake_inv_jobs
  by (cases e) (auto simp: perform_def split: if_splits)

lemma reachable_jobs: "reachable N False s \<Longrightarrow> inv_jobs N s"
proof (induction rule: reachable.induct)
  case start
  show ?case by (simp add: launch_def inv_jobs_def)
next
  case (move s e s')
  then show ?case using perform_jobs reachable_base by blast
qed

section \<open>What a call promises\<close>

lemma done_runs:
  assumes "reachable N False s" "cpc s = C_Done 0"
  shows "distinct (map fst (ran s)) \<and> set (ran s) = {(j, 0) |j. j < argCount s} \<and>
    (\<forall>j<argCount s. argFunc s j = 0)"
proof -
  have D: "jobs N s" "jobError s = 0" using reachable_jobs [OF assms(1)] assms(2) by (simp_all add: inv_jobs_def)
  have rest: "gRunCount s \<le> 0" "\<And>i. i < N \<Longrightarrow> idle (wpc s i)"
    using inv_phaseD(5) [OF inv_baseD(3) [OF reachable_base [OF assms(1)]]] assms(2) by (auto simp: at_rest_def)
  have "max 0 (gRunCount s) = 0" using rest(1) by simp
  then have taken: "set (taken s) = {0<..int (argCount s)}"
    using jobsD(1) [OF D(1)] D(2) by (auto simp: inv_taken_def)
  have dist: "distinct (map fst (ran s))"
    and hist: "\<And>j r. (j, r) \<in> set (ran s) \<Longrightarrow> r = argFunc s j \<and> int j + 1 \<in> set (taken s)"
    using jobsD(4) [OF D(1)] by (auto simp: inv_history_def)
  have zero: "r = 0" if "(j, r) \<in> set (ran s)" for j r
  proof (rule ccontr)
    assume nz: "r \<noteq> 0"
    have "r \<in> snd ` set (ran s)" using that by force
    then have "jobError s \<noteq> 0 \<or> (\<exists>i<N. failing (wpc s i) \<noteq> None)"
      using jobsD(5) [OF D(1)] nz unfolding inv_errors_def by blast
    then show False using D(2) idle_failing [OF rest(2)] by auto
  qed
  have all: "j \<in> fst ` set (ran s)" if "j < argCount s" for j
  proof -
    have "int j + 1 \<in> set (taken s)" using taken that by simp
    then have "(\<exists>i<N. item_of (wpc s i) = Some (int j + 1)) \<or> nat (int j + 1 - 1) \<in> fst ` set (ran s)"
      using jobsD(3) [OF D(1)] D(2) unfolding inv_covered_def by blast
    then show ?thesis using idle_facts [OF rest(2)] by auto
  qed
  have ok: "(j, 0) \<in> set (ran s) \<and> argFunc s j = 0" if "j < argCount s" for j
    using all [OF that] zero hist by fastforce
  have "j < argCount s" if "(j, r) \<in> set (ran s)" for j r using hist [OF that] taken by auto
  then show ?thesis using dist ok zero by (auto 0 3)
qed

lemma done_error:
  assumes "reachable N False s" "cpc s = C_Done r" "r \<noteq> 0"
  shows "\<exists>j<argCount s. argFunc s j = r"
proof -
  have D: "jobs N s" "jobError s = r" using reachable_jobs [OF assms(1)] assms(2) by (auto simp: inv_jobs_def)
  then obtain j where j: "(j, r) \<in> set (ran s)" using jobsD(5) [OF D(1)] assms(3) by (auto simp: inv_errors_def)
  then have "argFunc s j = r" "int j + 1 \<in> set (taken s)" using jobsD(4) [OF D(1)] by (auto simp: inv_history_def)
  then show ?thesis using jobsD(1) [OF D(1)] by (auto simp: inv_taken_def intro!: exI [of _ j])
qed

text \<open>The parameters of a call do not change before the next call.\<close>

fun is_do :: "event \<Rightarrow> bool" where
  "is_do (E_Do f n) = True" | "is_do e = False"

lemma perform_args:
  assumes "perform N spurious e s = Some s'" "\<not> is_do e"
  shows "argFunc s' = argFunc s \<and> argCount s' = argCount s"
  using assms worker_frame caller_frame
  by (cases e) (auto simp: perform_def split: if_splits)

lemma run_args:
  assumes "run N spurious es s = Some s'" "\<not> list_ex is_do es"
  shows "argFunc s' = argFunc s \<and> argCount s' = argCount s"
  using assms
proof (induction es arbitrary: s)
  case (Cons e es)
  then show ?case using perform_args by (fastforce simp: bind_eq_Some_conv)
qed simp

lemma do_args: "perform N spurious (E_Do f n) s = Some s' \<Longrightarrow> int n < MAX_COUNT \<Longrightarrow> argFunc s' = f \<and> argCount s' = n"
  by (auto simp: perform_def ThreadPool_Do_def split: if_splits)

text \<open>
  C11. When a call returns success, each of its jobs ran exactly once and succeeded, and nothing
  else ran (in any schedule in which the caller is not woken spuriously).
\<close>

theorem ThreadPool_Do_success:
  assumes "reachable N False s" "run N False (E_Do f n # es) s = Some s'" "\<not> list_ex is_do es"
    and "cpc s' = C_Done 0" "int n < MAX_COUNT"
  shows "distinct (map fst (ran s')) \<and> set (ran s') = {(j, 0) |j. j < n} \<and> (\<forall>j<n. f j = 0)"
proof -
  obtain s1 where s1: "perform N False (E_Do f n) s = Some s1" "run N False es s1 = Some s'"
    using assms(2) by (auto simp: bind_eq_Some_conv)
  have "argFunc s' = f" "argCount s' = n"
    using run_args [OF s1(2) assms(3)] do_args [OF s1(1) assms(5)] by simp_all
  then show ?thesis using done_runs [OF reachable_run [OF assms(1,2)] assms(4)] by simp
qed


section \<open>Without a pool\<close>

lemma single_threaded_do_from:
  "single_threaded_do f i n js =
     (case find (\<lambda>j. f j \<noteq> 0) [i..<n] of
        None \<Rightarrow> (0, rev [i..<n] @ js)
      | Some j \<Rightarrow> (f j, rev [i..<Suc j] @ js))"
proof (induction f i n js rule: single_threaded_do.induct)
  case (1 f i n js)
  show ?case
  proof (cases "i < n")
    case True
    show ?thesis
    proof (cases "f i = 0")
      case f: True
      have "i < j" if "find (\<lambda>j. f j \<noteq> 0) [Suc i..<n] = Some j" for j
        using that by (auto simp: find_Some_iff)
      moreover have "rev [i..<Suc j] = rev [Suc i..<Suc j] @ [i]" if "i < j" for j
        using that by (simp add: upt_conv_Cons)
      ultimately show ?thesis using 1 [OF True] True f
        by (subst single_threaded_do.simps) (auto simp: upt_conv_Cons split: option.split)
    next
      case False
      then show ?thesis using True by (subst single_threaded_do.simps) (simp add: upt_conv_Cons)
    qed
  next
    case False
    then show ?thesis by (subst single_threaded_do.simps) simp
  qed
qed

text \<open>
  Without a pool the call runs the jobs in order, returns the first error and runs nothing
  after it, or runs them all and returns success.
\<close>

theorem single_threaded_do_first_error:
  "single_threaded_do f 0 n [] =
     (case find (\<lambda>j. f j \<noteq> 0) [0..<n] of
        None \<Rightarrow> (0, rev [0..<n])
      | Some j \<Rightarrow> (f j, rev [0..<Suc j]))"
  by (subst single_threaded_do_from) (simp split: option.split)

end
