(* ===== verification/ThreadPoolLive.thy ===== *)
theory ThreadPoolLive
  imports ThreadPoolJobs
begin

text \<open>
  Progress of the thread pool: a call with work to do is never stuck, and takes a bounded number
  of steps; a call without work, and a start disturbed by a spurious wake-up, never end.
\<close>

section \<open>Some step is always possible\<close>

fun posted :: "cpc \<Rightarrow> bool" where
  "posted C_UnlockCond = True" | "posted C_Wait = True" | "posted C_Waiting = True" | "posted c = False"

definition busy :: "wpc \<Rightarrow> bool" where
  "busy p \<longleftrightarrow> \<not> idle p \<or> p = W_LockCaller \<or> p = W_Broadcast"

text \<open>
  Once the workers were told of the call, none of them is on its way into the wait while items are
  left, and from the moment the count is set until the caller is woken there is an item left or a
  worker that will see to it.
\<close>

definition inv_awake :: "nat \<Rightarrow> pool \<Rightarrow> bool" where
  "inv_awake N s \<longleftrightarrow> posted (cpc s) \<and> 0 < gRunCount s \<longrightarrow>
     (\<forall>i<N. wpc s i \<notin> {W_UnlockCaller, W_CondWait, W_Waiting})"

definition inv_busy :: "nat \<Rightarrow> pool \<Rightarrow> bool" where
  "inv_busy N s \<longleftrightarrow> (priming (cpc s) \<or> posted (cpc s)) \<and> 0 < argCount s \<longrightarrow>
     0 < gRunCount s \<or> (\<exists>i<N. busy (wpc s i))"

lemma worker_sleeps:
  "worker_step i s = Some s' \<Longrightarrow> wpc s' i \<in> {W_UnlockCaller, W_CondWait, W_Waiting} \<Longrightarrow> gRunCount s < MAX_COUNT \<Longrightarrow>
   wpc s i \<in> {W_UnlockCaller, W_CondWait, W_Broadcast, W_DecRunning} \<or> gRunCount s' < 0"
  unfolding worker_step_def
  by (cases "wpc s i") (auto simp: dispatch_def retry_def Let_def split: if_splits)

lemma worker_busy:
  "worker_step i s = Some s' \<Longrightarrow> alive (wpc s i) \<Longrightarrow> gRunCount s < MAX_COUNT \<Longrightarrow> busy (wpc s i) \<Longrightarrow>
   busy (wpc s' i) \<or> wpc s i = W_Broadcast \<or> wpc s i = W_DecRunning \<and> gRunning s \<noteq> 1"
  unfolding worker_step_def
  by (cases "wpc s i") (auto simp: busy_def dispatch_def retry_def Let_def split: if_splits)

lemma worker_takes:
  "worker_step i s = Some s' \<Longrightarrow> gRunCount s < MAX_COUNT \<Longrightarrow> 0 < gRunCount s \<Longrightarrow>
   0 < gRunCount s' \<or> busy (wpc s' i)"
  unfolding worker_step_def
  by (cases "wpc s i") (auto simp: busy_def dispatch_def retry_def Let_def split: if_splits)

lemma posted_wake: "posted (wake_caller c) \<Longrightarrow> posted c \<and> c \<noteq> C_Waiting" "priming (wake_caller c) = priming c"
  by (cases c; simp add: wake_caller_def)+

lemma worker_awake:
  assumes step: "worker_step i s = Some s'" and base: "inv_base N s" and A: "inv_awake N s" and i: "i < N"
  shows "inv_awake N s'"
  unfolding inv_awake_def
proof (intro impI allI)
  fix j assume h: "posted (cpc s') \<and> 0 < gRunCount s'" and j: "j < N"
  note D = inv_phaseD [OF inv_baseD(3) [OF base]]
  have p: "posted (cpc s)" using h worker_frame [OF step] posted_wake(1) by (cases "wpc s i = W_Broadcast") auto
  have r: "0 < gRunCount s" using h base_moves(3) [OF step base i] by linarith
  have old: "wpc s k \<notin> {W_UnlockCaller, W_CondWait, W_Waiting}" if "k < N" for k
    using A p r that by (simp add: inv_awake_def)
  have "wpc s i \<noteq> W_Broadcast" "wpc s i \<noteq> W_DecRunning"
    using D(3) [OF i] D(4) [OF i] r by (auto simp: at_rest_def)
  then have "wpc s' i \<notin> {W_UnlockCaller, W_CondWait, W_Waiting}"
    using worker_sleeps [OF step _ D(1)] old [OF i] h by force
  then show "wpc s' j \<notin> {W_UnlockCaller, W_CondWait, W_Waiting}"
    using old [OF j] worker_other [OF step, of j] by (cases "j = i") simp_all
qed

lemma another_counted:
  assumes "inv_count N s" "i < N" "counted (wpc s i)" "gRunning s \<noteq> 1"
  shows "\<exists>j<N. j \<noteq> i \<and> counted (wpc s j)"
proof (rule ccontr)
  assume "\<not> ?thesis"
  then have "{j. j < N \<and> counted (wpc s j)} = {i}" using assms(2,3) by auto
  then show False using assms(1,4) by (simp add: inv_count_def)
qed

lemma counted_busy: "counted p \<Longrightarrow> busy p"
  by (cases p) (simp_all add: busy_def)

lemma worker_inv_busy:
  assumes step: "worker_step i s = Some s'" and base: "inv_base N s" and B: "inv_busy N s" and i: "i < N"
  shows "inv_busy N s'"
  unfolding inv_busy_def
proof
  assume h: "(priming (cpc s') \<or> posted (cpc s')) \<and> 0 < argCount s'"
  note D = inv_phaseD [OF inv_baseD(3) [OF base]]
  note F = worker_frame [OF step]
  have stay: "busy (wpc s' j)" if "j \<noteq> i" "busy (wpc s j)" for j using worker_other [OF step that(1)] that(2) by simp
  have nb: "wpc s i \<noteq> W_Broadcast"
  proof
    assume b: "wpc s i = W_Broadcast"
    then have "priming (cpc s) \<or> posted (cpc s) \<and> cpc s \<noteq> C_Waiting" using h F posted_wake by auto
    then have "caller_has_caller (cpc s)" by (cases "cpc s") simp_all
    then show False using inv_locksD(2,4) [OF inv_baseD(2) [OF base]] i b by force
  qed
  then have "(priming (cpc s) \<or> posted (cpc s)) \<and> 0 < argCount s" using h F by simp
  then consider "0 < gRunCount s" | k where "k < N" "busy (wpc s k)" using B unfolding inv_busy_def by blast
  then show "0 < gRunCount s' \<or> (\<exists>i<N. busy (wpc s' i))"
  proof cases
    case 1
    then show ?thesis using worker_takes [OF step D(1)] i by blast
  next
    case (2 k)
    show ?thesis
    proof (cases "k = i \<and> \<not> busy (wpc s' i)")
      case True
      then have "wpc s i = W_DecRunning" "gRunning s \<noteq> 1" using worker_busy [OF step D(2) [OF i] D(1)] 2 nb by auto
      then obtain j where "j < N" "j \<noteq> i" "counted (wpc s j)"
        using another_counted [OF inv_baseD(1) [OF base] i] by auto
      then show ?thesis using stay counted_busy by blast
    next
      case False
      then show ?thesis using 2 stay [of k] by (cases "k = i") auto
    qed
  qed
qed

lemma caller_posted:
  "caller_step N s = Some s' \<Longrightarrow>
   (posted (cpc s') \<longrightarrow> posted (cpc s) \<and> cpc s \<noteq> C_Waiting \<or> cpc s = C_Broadcast \<or> cpc s = C_Test \<and> gRunning s \<noteq> 0) \<and>
   (priming (cpc s') \<longrightarrow> priming (cpc s) \<or> cpc s = C_SetCount)"
  unfolding caller_step_def
  by (cases "cpc s") (auto split: if_splits)

lemma idle_sleeper: "p \<in> {W_UnlockCaller, W_CondWait} \<Longrightarrow> holds_cond p"
  by auto

lemma wake_workers_awake: "wake_workers w i \<noteq> W_Waiting"
  by (simp add: wake_workers_def)

lemma rest_not_running:
  assumes "inv_base N s" "at_rest N s"
  shows "gRunning s = 0"
proof -
  have "idle (wpc s i)" if "i < N" for i using assms(2) that by (simp add: at_rest_def)
  then have "{i. i < N \<and> counted (wpc s i)} = {}" using idle_facts by blast
  then have "card {i. i < N \<and> counted (wpc s i)} = 0" by (simp only: card.empty)
  then show ?thesis using inv_baseD(1) [OF assms(1)] unfolding inv_count_def by linarith
qed

lemma caller_not_retest:
  assumes "inv_base N s" "cpc s = C_Test"
  shows "gRunning s = 0"
  by (rule rest_not_running [OF assms(1)]) (use inv_phaseD(5) [OF inv_baseD(3) [OF assms(1)]] assms(2) in simp)

lemma caller_awake:
  assumes step: "caller_step N s = Some s'" and base: "inv_base N s" and A: "inv_awake N s"
  shows "inv_awake N s'"
proof (cases "posted (cpc s')")
  case True
  then consider "posted (cpc s)" "cpc s \<noteq> C_Broadcast" | "cpc s = C_Broadcast"
    using caller_posted [OF step] caller_not_retest [OF base] by auto
  then show ?thesis
  proof cases
    case 1
    then have "wpc s' = wpc s" "gRunCount s' = gRunCount s" using caller_frame [OF step] by (cases "cpc s"; simp)+
    then show ?thesis using A 1 by (simp add: inv_awake_def)
  next
    case 2
    have w: "wpc s' = wake_workers (wpc s)" using caller_frame [OF step] 2 by simp
    have "cond_lock s = Some Caller" using inv_locksD(3) [OF inv_baseD(2) [OF base]] 2 by simp
    then have "\<not> holds_cond (wpc s i)" if "i < N" for i using inv_locksD(1) [OF inv_baseD(2) [OF base] that] by auto
    then have "wpc s' i \<notin> {W_UnlockCaller, W_CondWait}" if "i < N" for i
      using that idle_sleeper [of "wpc s' i"] w by auto
    then show ?thesis using w wake_workers_awake by (simp add: inv_awake_def)
  qed
qed (simp add: inv_awake_def)

lemma busy_wake [simp]: "busy (wake_workers w i) = busy (w i)"
  by (auto simp: busy_def wake_workers_def)

lemma caller_inv_busy:
  assumes step: "caller_step N s = Some s'" and base: "inv_base N s" and B: "inv_busy N s"
  shows "inv_busy N s'"
proof (cases "(priming (cpc s') \<or> posted (cpc s')) \<and> cpc s \<noteq> C_SetCount")
  case True
  then have p: "priming (cpc s) \<or> posted (cpc s)"
    using caller_posted [OF step] caller_not_retest [OF base] by auto
  have "busy (wpc s' i) = busy (wpc s i)" for i
    using p caller_frame [OF step] by (cases "cpc s") auto
  then show ?thesis using B p True caller_frame [OF step] by (simp add: inv_busy_def)
next
  case False
  then show ?thesis using caller_frame [OF step] by (auto simp: inv_busy_def)
qed

definition inv_up :: "nat \<Rightarrow> pool \<Rightarrow> bool" where
  "inv_up N s \<longleftrightarrow> posted (cpc s) \<longrightarrow> (\<forall>i<N. wpc s i \<noteq> W_New)"

lemma worker_up:
  assumes step: "worker_step i s = Some s'" and base: "inv_base N s" and U: "inv_up N s" and i: "i < N"
  shows "inv_up N s'"
proof -
  have "wpc s' i \<noteq> W_New" using worker_moves [OF step base_moves(1,2) [OF step base i]] by blast
  moreover have "posted (cpc s)" if "posted (cpc s')"
    using that worker_frame [OF step] posted_wake(1) by (cases "wpc s i = W_Broadcast") auto
  ultimately show ?thesis using U worker_other [OF step] unfolding inv_up_def by metis
qed

lemma caller_up:
  assumes step: "caller_step N s = Some s'" and base: "inv_base N s" and U: "inv_up N s"
  shows "inv_up N s'"
proof (cases "posted (cpc s')")
  case True
  then consider "posted (cpc s)" "wpc s' = wpc s" | "priming (cpc s)" "wpc s' = wake_workers (wpc s)"
    using caller_posted [OF step] caller_not_retest [OF base] caller_frame [OF step] by (cases "cpc s") auto
  then show ?thesis
  proof cases
    case 1
    then show ?thesis using U by (simp add: inv_up_def)
  next
    case 2
    then show ?thesis using inv_phaseD(6) [OF inv_baseD(3) [OF base]] by (simp add: inv_up_def wake_workers_pc)
  qed
qed (simp add: inv_up_def)

definition inv_live :: "nat \<Rightarrow> pool \<Rightarrow> bool" where
  "inv_live N s \<longleftrightarrow> inv_awake N s \<and> inv_busy N s \<and> inv_up N s"

lemma wake_live: "inv_live N s \<Longrightarrow> wpc s i = W_Waiting \<Longrightarrow> inv_live N (goto i W_Reacquire s)"
proof -
  assume a: "inv_live N s" "wpc s i = W_Waiting"
  have "busy (((wpc s)(i := W_Reacquire)) j) = busy (wpc s j)" for j using a(2) by (simp add: busy_def)
  then have "inv_busy N (goto i W_Reacquire s)" using a(1) by (simp add: inv_live_def inv_busy_def del: fun_upd_apply)
  moreover have "inv_awake N (goto i W_Reacquire s)" using a(1) by (auto simp: inv_live_def inv_awake_def)
  moreover have "inv_up N (goto i W_Reacquire s)" using a(1) by (simp add: inv_live_def inv_up_def)
  ultimately show ?thesis by (simp add: inv_live_def)
qed

lemma do_live: "ThreadPool_Do f n s = Some s' \<Longrightarrow> inv_live N s'"
  by (auto simp: ThreadPool_Do_def inv_live_def inv_awake_def inv_busy_def inv_up_def split: if_splits)

lemma perform_live:
  assumes "perform N False e s = Some s'" "inv_base N s" "inv_live N s"
  shows "inv_live N s'"
  using assms worker_awake worker_inv_busy worker_up caller_awake caller_inv_busy caller_up do_live [of _ _ s s' N] wake_live [OF assms(3)]
  by (cases e) (auto simp: perform_def inv_live_def split: if_splits)

lemma reachable_live: "reachable N False s \<Longrightarrow> inv_live N s"
proof (induction rule: reachable.induct)
  case start
  show ?case by (simp add: launch_def inv_live_def inv_awake_def inv_busy_def inv_up_def)
next
  case (move s e s')
  then show ?case using perform_live reachable_base by blast
qed

text \<open>A thread that holds a lock can always move.\<close>

lemma holder_moves:
  assumes base: "inv_base N s" and i: "i < N" "holds_cond (wpc s i)" and free: "\<not> caller_has_caller (cpc s)"
  shows "worker_step i s \<noteq> None"
proof -
  have "caller_cond_lock s = None" if lc: "wpc s i = W_LockCaller"
  proof (cases "caller_cond_lock s")
    case (Some t)
    then show ?thesis
    proof (cases t)
      case Caller
      then show ?thesis using Some inv_baseD(2) [OF base] free by (simp add: inv_locks_def)
    next
      case (Worker j)
      then have j: "j < N" "holds_caller (wpc s j)" using Some inv_baseD(2) [OF base] by (auto simp: inv_locks_def)
      then have "holds_cond (wpc s j)" by (cases "wpc s j") simp_all
      then have "Some (Worker j) = Some (Worker i)"
        using inv_locksD(1) [OF inv_baseD(2) [OF base]] j(1) i by metis
      then have "j = i" by simp
      then show ?thesis using j(2) lc by simp
    qed
  qed
  then show ?thesis using i(2) unfolding worker_step_def by (cases "wpc s i") auto
qed

lemma caller_holder_moves:
  assumes "holds_caller (wpc s i)"
  shows "worker_step i s \<noteq> None"
  using assms unfolding worker_step_def by (cases "wpc s i") auto

lemma lock_owner:
  assumes "inv_base N s"
  shows "cond_lock s = Some (Worker i) \<Longrightarrow> i < N \<and> holds_cond (wpc s i)"
    "caller_cond_lock s = Some (Worker i) \<Longrightarrow> i < N \<and> holds_caller (wpc s i)"
    "cond_lock s = Some Caller \<Longrightarrow> caller_has_cond (cpc s)"
    "caller_cond_lock s = Some Caller \<Longrightarrow> caller_has_caller (cpc s)"
  using inv_baseD(2) [OF assms] unfolding inv_locks_def by blast+

lemma free_worker_moves:
  "cond_lock s = None \<Longrightarrow> alive (wpc s i) \<Longrightarrow> wpc s i \<noteq> W_Waiting \<Longrightarrow> wpc s i \<noteq> W_New \<Longrightarrow>
   \<not> holds_cond (wpc s i) \<Longrightarrow> worker_step i s \<noteq> None"
  unfolding worker_step_def by (cases "wpc s i") (auto simp: Let_def)

text \<open>The work itself: while a call with at least one job is on its way, some thread can move.\<close>

lemma call_progress:
  assumes "reachable N False s" "doing (cpc s) \<or> cpc s \<in> {C_LockCond, C_LockCaller, C_ClearErr, C_SetCount}"
    and "0 < argCount s" "0 < N"
  shows "caller_step N s \<noteq> None \<or> (\<exists>i<N. worker_step i s \<noteq> None)"
proof -
  have base: "inv_base N s" by (rule reachable_base [OF assms(1)])
  note D = inv_phaseD [OF inv_baseD(3) [OF base]]
  note own = lock_owner [OF base]
  show ?thesis
  proof (cases "cpc s")
    case C_LockCond
    show ?thesis
    proof (cases "cond_lock s")
      case None
      then show ?thesis using C_LockCond by (simp add: caller_step_def)
    next
      case (Some t)
      then obtain i where "t = Worker i" using own(3) C_LockCond by (cases t) auto
      then show ?thesis using own(1) Some holder_moves [OF base] C_LockCond \<open>t = Worker i\<close> by (metis caller_has_caller.simps)
    qed
  next
    case C_LockCaller
    have "caller_cond_lock s \<noteq> Some t" for t
    proof
      assume t: "caller_cond_lock s = Some t"
      show False
      proof (cases t)
        case (Worker i)
        then have i: "i < N" "holds_caller (wpc s i)" using own(2) t by auto
        then have "holds_cond (wpc s i)" by (cases "wpc s i") simp_all
        then show False using inv_locksD(1,3) [OF inv_baseD(2) [OF base]] i(1) C_LockCaller by force
      qed (use own(4) t C_LockCaller in simp)
    qed
    then show ?thesis using C_LockCaller by (simp add: caller_step_def)
  next
    case C_Reacquire
    show ?thesis
    proof (cases "caller_cond_lock s")
      case None
      then show ?thesis using C_Reacquire by (simp add: caller_step_def)
    next
      case (Some t)
      then obtain i where "t = Worker i" using own(4) C_Reacquire by (cases t) auto
      then show ?thesis using own(2) Some caller_holder_moves \<open>t = Worker i\<close> by blast
    qed
  next
    case C_Waiting
    have "\<exists>i<N. wpc s i \<noteq> W_Waiting"
      using reachable_live [OF assms(1)] C_Waiting assms(3,4)
      by (auto simp: inv_live_def inv_awake_def inv_busy_def busy_def)
    then obtain i where i: "i < N" "wpc s i \<noteq> W_Waiting" by blast
    have new: "wpc s k \<noteq> W_New" if "k < N" for k
      using reachable_live [OF assms(1)] C_Waiting that by (simp add: inv_live_def inv_up_def)
    show ?thesis
    proof (cases "cond_lock s")
      case None
      then have "\<not> holds_cond (wpc s i)" using inv_locksD(1) [OF inv_baseD(2) [OF base] i(1)] by auto
      then show ?thesis using free_worker_moves [OF None D(2) [OF i(1)] i(2)] new [OF i(1)] i(1) by blast
    next
      case (Some t)
      then obtain j where "t = Worker j" using own(3) C_Waiting by (cases t) auto
      then show ?thesis using own(1) Some holder_moves [OF base] C_Waiting \<open>t = Worker j\<close> by (metis caller_has_caller.simps)
    qed
  qed (use assms(2) in \<open>auto simp: caller_step_def\<close>)
qed

text \<open>
  The number of steps a worker can still take before it waits again, if it draws no further
  item, and those of the caller; an item is worth what a worker may do with it.
\<close>

fun stage :: "wpc \<Rightarrow> nat" where
  "stage W_Waiting = 0" | "stage W_CondWait = 1" | "stage W_UnlockCaller = 2" | "stage W_Broadcast = 8"
| "stage W_LockCaller = 9" | "stage W_DecRunning = 10" | "stage W_LockCond = 11" | "stage W_Start = 12"
| "stage W_Next = 12" | "stage W_ZeroRun = 13" | "stage (W_Cas e) = 14" | "stage (W_Call it) = 15"
| "stage (W_CheckErr it) = 16" | "stage (W_UnlockCond it) = 17" | "stage (W_IncRunning it) = 18"
| "stage W_Retry = 2" | "stage W_Reacquire = 3" | "stage W_UnlockExit = 2" | "stage W_Exit = 1"
| "stage W_New = 0" | "stage W_Done = 0"

fun caller_stage :: "nat \<Rightarrow> nat \<Rightarrow> cpc \<Rightarrow> nat" where
  "caller_stage N n C_LockCond = 9 + 3 * N + 18 * n" | "caller_stage N n C_LockCaller = 8 + 3 * N + 18 * n"
| "caller_stage N n C_ClearErr = 7 + 3 * N + 18 * n" | "caller_stage N n C_SetCount = 6 + 3 * N + 18 * n"
| "caller_stage N n C_SetFunc = 5 + 3 * N" | "caller_stage N n C_Broadcast = 4 + 3 * N"
| "caller_stage N n C_UnlockCond = 2" | "caller_stage N n C_Wait = 1" | "caller_stage N n C_Waiting = 0"
| "caller_stage N n C_Reacquire = 5" | "caller_stage N n C_Test = 4" | "caller_stage N n C_UnlockCaller = 3"
| "caller_stage N n C_ReadErr = 2" | "caller_stage N n (C_Done r) = 1" | "caller_stage N n (C_Refused r) = 1"
| "caller_stage N n c = 0"

definition workload :: "nat \<Rightarrow> pool \<Rightarrow> nat" where
  "workload N s = (\<Sum>i<N. stage (wpc s i)) + 18 * nat (gRunCount s) + caller_stage N (argCount s) (cpc s)"

lemma sum_update:
  fixes N :: nat
  assumes "i < N"
  shows "(\<Sum>j<N. f ((w(i := p)) j)) + f (w i) = (\<Sum>j<N. f (w j)) + (f p :: nat)"
proof -
  have "(\<Sum>j<N. f (v j)) = f (v i) + (\<Sum>j\<in>{..<N} - {i}. f (v j))" for v :: "nat \<Rightarrow> 'a"
    using assms by (intro sum.remove) auto
  from this [of w] this [of "w(i := p)"] show ?thesis by simp
qed

lemma caller_stage_wake: "caller_stage N n (wake_caller c) \<le> caller_stage N n c + 5"
  by (cases c) (simp_all add: wake_caller_def)

lemma worker_stage:
  "worker_step i s = Some s' \<Longrightarrow> alive (wpc s i) \<Longrightarrow> gRunCount s < MAX_COUNT \<Longrightarrow>
   stage (wpc s' i) + 18 * nat (gRunCount s') + (if wpc s i = W_Broadcast then 5 else 0)
   < stage (wpc s i) + 18 * nat (gRunCount s)"
  unfolding worker_step_def
  by (cases "wpc s i") (auto simp: dispatch_def retry_def Let_def nat_diff_distrib split: if_splits)

lemma worker_workload:
  assumes step: "worker_step i s = Some s'" and base: "inv_base N s" and i: "i < N"
  shows "workload N s' < workload N s"
proof -
  have "(\<Sum>j<N. stage (wpc s' j)) + stage (wpc s i) = (\<Sum>j<N. stage (wpc s j)) + stage (wpc s' i)"
    using sum_update [OF i, of stage "wpc s" "wpc s' i"] worker_frame [OF step] by simp
  moreover have "caller_stage N (argCount s') (cpc s')
      \<le> caller_stage N (argCount s) (cpc s) + (if wpc s i = W_Broadcast then 5 else 0)"
    using worker_frame [OF step] caller_stage_wake by simp
  ultimately show ?thesis
    using worker_stage [OF step base_moves(1,2) [OF step base i]] unfolding workload_def by linarith
qed

lemma stage_wake: "stage (wake_workers w i) \<le> stage (w i) + 3"
  by (simp add: wake_workers_def)

lemma caller_workload:
  assumes step: "caller_step N s = Some s'" and base: "inv_base N s" and up: "\<not> starting (cpc s)"
  shows "workload N s' < workload N s"
proof (cases "cpc s")
  case C_SetCount
  have "gRunCount s \<le> 0" using inv_phaseD(5) [OF inv_baseD(3) [OF base]] C_SetCount by (simp add: at_rest_def)
  then show ?thesis using caller_set_count [OF step C_SetCount] C_SetCount by (simp add: workload_def)
next
  case C_Broadcast
  have "(\<Sum>j<N. stage (wake_workers (wpc s) j)) \<le> (\<Sum>j<N. stage (wpc s j) + 3)"
    by (intro sum_mono stage_wake)
  also have "\<dots> = (\<Sum>j<N. stage (wpc s j)) + 3 * N" by (simp add: sum.distrib)
  finally show ?thesis using step C_Broadcast by (auto simp: workload_def caller_step_def)
next
  case C_Test
  then show ?thesis using step caller_not_retest [OF base C_Test] by (auto simp: workload_def caller_step_def)
qed (use step up in \<open>auto simp: workload_def caller_step_def split: if_splits\<close>)

text \<open>The steps of the program itself, without new calls and spurious wake-ups.\<close>

fun is_step :: "event \<Rightarrow> bool" where
  "is_step (E_Worker i) = True" | "is_step E_Caller = True" | "is_step e = False"

lemma perform_workload:
  assumes "perform N False e s = Some s'" "is_step e" "inv_base N s" "\<not> starting (cpc s)"
  shows "workload N s' < workload N s"
  using assms worker_workload caller_workload by (cases e) (auto simp: perform_def split: if_splits)

lemma perform_started:
  assumes "perform N spurious e s = Some s'" "\<not> starting (cpc s)"
  shows "\<not> starting (cpc s')"
proof -
  have wake: "\<not> starting (wake_caller c)" if "\<not> starting c" for c using that by (cases c) (simp_all add: wake_caller_def)
  show ?thesis using assms wake worker_frame caller_moves
    by (cases e) (auto simp: perform_def ThreadPool_Do_def split: if_splits)
qed

lemma run_workload:
  assumes "run N False es s = Some s'" "list_all is_step es" "reachable N False s" "\<not> starting (cpc s)"
  shows "length es + workload N s' \<le> workload N s \<and> \<not> starting (cpc s')"
  using assms
proof (induction es arbitrary: s)
  case (Cons e es)
  obtain s1 where s1: "perform N False e s = Some s1" "run N False es s1 = Some s'"
    using Cons.prems(1) by (auto simp: bind_eq_Some_conv)
  have "workload N s1 < workload N s"
    using perform_workload [OF s1(1) _ reachable_base] Cons.prems by simp
  moreover have "length es + workload N s' \<le> workload N s1 \<and> \<not> starting (cpc s')"
    using Cons.IH [OF s1(2)] Cons.prems perform_started [OF s1(1)] move [OF _ s1(1)] by simp
  ultimately show ?case by simp
qed simp

lemma idle_stage: "idle p \<Longrightarrow> stage p \<le> 9"
  by (cases p) simp_all

lemma do_workload:
  assumes "reachable N False s" "perform N False (E_Do f n) s = Some s'" "int n < MAX_COUNT"
  shows "workload N s' \<le> 9 + 12 * N + 18 * n" "\<not> starting (cpc s')"
proof -
  have s': "cpc s = C_Idle" "s' = proceed C_LockCond (s\<lparr>argFunc := f, argCount := n\<rparr>)"
    using assms(2,3) by (auto simp: perform_def ThreadPool_Do_def split: if_splits)
  have rest: "gRunCount s \<le> 0" "\<And>i. i < N \<Longrightarrow> idle (wpc s i)"
    using inv_phaseD(5) [OF inv_baseD(3) [OF reachable_base [OF assms(1)]]] s'(1) by (auto simp: at_rest_def)
  have "(\<Sum>i<N. stage (wpc s i)) \<le> (\<Sum>i<N. 9)" by (intro sum_mono idle_stage rest(2)) simp
  then show "workload N s' \<le> 9 + 12 * N + 18 * n" "\<not> starting (cpc s')"
    using rest(1) s'(2) by (simp_all add: workload_def)
qed

lemma stuck_is_idle:
  assumes "reachable N False s" "\<not> starting (cpc s)" "0 < argCount s" "0 < N"
    and "\<And>e. is_step e \<Longrightarrow> perform N False e s = None"
  shows "cpc s = C_Idle"
proof (rule ccontr)
  assume "cpc s \<noteq> C_Idle"
  then consider "doing (cpc s) \<or> cpc s \<in> {C_LockCond, C_LockCaller, C_ClearErr, C_SetCount}"
    | r where "cpc s = C_Refused r"
    using assms(2) by (cases "cpc s") auto
  then have "caller_step N s \<noteq> None \<or> (\<exists>i<N. worker_step i s \<noteq> None)"
  proof cases
    case 1
    then show ?thesis by (rule call_progress [OF assms(1) _ assms(3,4)])
  next
    case 2
    then show ?thesis by (simp add: caller_step_def)
  qed
  then show False
  proof (elim disjE exE conjE)
    assume "caller_step N s \<noteq> None"
    then show False using assms(5) [of E_Caller] by (simp add: perform_def)
  next
    fix i assume "i < N" "worker_step i s \<noteq> None"
    then show False using assms(5) [of "E_Worker i"] by (simp add: perform_def)
  qed
qed


section \<open>Concrete schedules of a pool of two\<close>

definition startup :: "event list" where
  "startup = replicate 4 E_Caller @ replicate 4 (E_Worker 0) @ replicate 7 (E_Worker 1) @ replicate 3 E_Caller"

definition two_idle :: pool where
  "two_idle = \<lparr>gRunCount = - 2, gRunning = 0, jobError = 0, gThreadCount = 2,
     gFunc_ptr = (\<lambda>_. 0), cond_lock = None, caller_cond_lock = None,
     wpc = (\<lambda>_. W_New)(0 := W_Waiting, 1 := W_Waiting), cpc = C_Idle, argFunc = (\<lambda>_. 0), argCount = 0,
     taken = [], ran = []\<rparr>"

lemmas evaluate = worker_step_def caller_step_def perform_def dispatch_def retry_def draw_def MAX_COUNT_def
  wake_caller_def ThreadPool_Do_def Let_def eval_nat_numeral

lemma startup_run: "run 2 spurious startup (launch 2) = Some two_idle"
  by (simp add: startup_def launch_def two_idle_def evaluate)

definition post :: "event list" where "post = replicate 8 E_Caller"

text \<open>The call of one job that worker 0 runs.\<close>

definition one_job :: "event list" where
  "one_job = post @ replicate 13 (E_Worker 0) @ replicate 4 E_Caller"

lemma one_job_run:
  "map_option (\<lambda>s. (cpc s, ran s, argCount s)) (run 2 False (E_Do (\<lambda>_. 0) 1 # one_job) two_idle)
    = Some (C_Done 0, [(0, 0)], 1)"
  by code_simp

lemma two_idle_reachable: "reachable 2 spurious two_idle"
  by (rule reachable_run [OF reachable.start startup_run])

lemma map_option_run: "map_option g (run N sp es s) = Some v \<Longrightarrow> \<exists>s'. run N sp es s = Some s' \<and> g s' = v"
  by auto

lemma one_job_witness:
  obtains s' where "run 2 False (E_Do (\<lambda>_. 0) 1 # one_job) two_idle = Some s'" "cpc s' = C_Done 0"
  using map_option_run [OF one_job_run] by blast

text \<open>The same call of a job that fails.\<close>

definition failing_job :: "event list" where
  "failing_job = post @ replicate 15 (E_Worker 0) @ replicate 4 E_Caller"

lemma failing_job_run:
  "map_option (\<lambda>s. (cpc s, ran s, argCount s)) (run 2 False (E_Do (\<lambda>_. 5) 1 # failing_job) two_idle)
    = Some (C_Done 5, [(0, 5)], 1)"
  by code_simp

theorem ThreadPool_Do_success_witness:
  "\<exists>s'. run 2 False (E_Do (\<lambda>_. 0) 1 # one_job) two_idle = Some s' \<and> set (ran s') = {(j, 0) |j. j < 1}"
proof -
  obtain s' where s': "run 2 False (E_Do (\<lambda>_. 0) 1 # one_job) two_idle = Some s'" "cpc s' = C_Done 0"
    by (rule one_job_witness)
  have "\<not> list_ex is_do one_job" by code_simp
  from ThreadPool_Do_success [OF two_idle_reachable s'(1) this s'(2)] s'(1) show ?thesis
    by (simp add: MAX_COUNT_def)
qed



text \<open>
  The caller does not test \<open>gRunning\<close> before it waits, and the workers count themselves
  in only once they run again: woken spuriously before that, a call returns success although its
  only job fails and has not been run.
\<close>

theorem ThreadPool_Do_spurious_wakeup:
  "map_option (\<lambda>s. (cpc s, argCount s, argFunc s 0, ran s))
     (run 2 True (startup @ E_Do (\<lambda>_. 5) 1 # post @ [E_WakeCaller] @ replicate 4 E_Caller) (launch 2))
   = Some (C_Done 0, 1, 5, [])"
  by code_simp

text \<open>
  A worker that is woken spuriously while the pool starts draws a second item, and the
  caller, which waits for \<open>gRunCount\<close> to be exactly \<open>-gThreadCount\<close>, waits for ever: no
  thread can move.
\<close>

theorem ThreadPool_Init_spurious_wakeup:
  "map_option (\<lambda>s. (cpc s, gRunCount s, caller_step 2 s = None, worker_step 0 s = None, worker_step 1 s = None))
     (run 2 False (replicate 4 E_Caller @ replicate 4 (E_Worker 0) @ [E_Wake 0] @ replicate 3 (E_Worker 0) @
        replicate 7 (E_Worker 1) @ replicate 3 E_Caller) (launch 2))
   = Some (I_Waiting, - 3, True, True, True)"
  by code_simp

section \<open>A call without jobs\<close>

text \<open>With no job no worker is busy, so none signals the caller.\<close>

definition inv_empty :: "nat \<Rightarrow> pool \<Rightarrow> bool" where
  "inv_empty N s \<longleftrightarrow> argCount s = 0 \<and>
     (cpc s \<in> {C_LockCond, C_LockCaller, C_ClearErr, C_SetCount} \<or>
      (priming (cpc s) \<or> posted (cpc s)) \<and> gRunCount s \<le> 0 \<and> (\<forall>i<N. \<not> busy (wpc s i)))"

lemma worker_quiet:
  "worker_step i s = Some s' \<Longrightarrow> \<not> busy (wpc s i) \<Longrightarrow> gRunCount s \<le> 0 \<Longrightarrow>
   \<not> busy (wpc s' i) \<and> gRunCount s' \<le> 0"
  unfolding worker_step_def
  by (cases "wpc s i") (auto simp: busy_def retry_def MAX_COUNT_def split: if_splits)

lemma worker_empty:
  assumes step: "worker_step i s = Some s'" and E: "inv_empty N s" and i: "i < N"
  shows "inv_empty N s'"
proof -
  have a: "argCount s' = 0" using E worker_frame [OF step] by (simp add: inv_empty_def)
  show ?thesis
  proof (cases "cpc s \<in> {C_LockCond, C_LockCaller, C_ClearErr, C_SetCount}")
    case True
    then have "cpc s' = cpc s" using worker_frame [OF step] by (auto simp: wake_caller_def split: if_splits)
    then show ?thesis using a True by (simp add: inv_empty_def)
  next
    case False
    then have E: "priming (cpc s) \<or> posted (cpc s)" "gRunCount s \<le> 0" "\<And>j. j < N \<Longrightarrow> \<not> busy (wpc s j)"
      using E by (simp_all add: inv_empty_def)
    have "wpc s i \<noteq> W_Broadcast" using E(3) [OF i] by (auto simp: busy_def)
    then have "cpc s' = cpc s" using worker_frame [OF step] by simp
    moreover have "\<not> busy (wpc s' j)" if "j < N" for j
      using E(3) [OF that] worker_quiet [OF step E(3) [OF i] E(2)] worker_other [OF step, of j] by (cases "j = i") simp_all
    ultimately show ?thesis using a E(1) worker_quiet [OF step E(3) [OF i] E(2)] by (simp add: inv_empty_def)
  qed
qed

lemma caller_from_set_count:
  assumes "inv_base N s" "cpc s = C_SetCount" "i < N"
  shows "\<not> busy (wpc s i)"
proof -
  have "idle (wpc s i)" using inv_phaseD(5) [OF inv_baseD(3) [OF assms(1)]] assms(2,3) by (simp add: at_rest_def)
  moreover have "cond_lock s = Some Caller" using inv_locksD(3) [OF inv_baseD(2) [OF assms(1)]] assms(2) by simp
  then have "\<not> holds_cond (wpc s i)" using inv_locksD(1) [OF inv_baseD(2) [OF assms(1)] assms(3)] by auto
  ultimately show ?thesis by (auto simp: busy_def)
qed

lemma caller_empty:
  assumes step: "caller_step N s = Some s'" and base: "inv_base N s" and E: "inv_empty N s"
  shows "inv_empty N s'"
proof (cases "cpc s = C_SetCount")
  case True
  then show ?thesis using caller_set_count [OF step True] caller_from_set_count [OF base True] E
    by (simp add: inv_empty_def)
next
  case False
  then show ?thesis using step E unfolding inv_empty_def caller_step_def
    by (cases "cpc s") (auto split: if_splits)
qed

lemma perform_empty:
  assumes "perform N False e s = Some s'" "inv_base N s" "inv_empty N s"
  shows "inv_empty N s'"
proof (cases e)
  case (E_Wake i)
  then have w: "wpc s i = W_Waiting" "s' = goto i W_Reacquire s"
    using assms(1) by (auto simp: perform_def split: if_splits)
  have "busy (((wpc s)(i := W_Reacquire)) j) = busy (wpc s j)" for j using w(1) by (simp add: busy_def)
  then show ?thesis using assms(3) w(2) by (simp add: inv_empty_def del: fun_upd_apply)
next
  case (E_Do f n)
  then show ?thesis using assms(1,3) by (auto simp: perform_def ThreadPool_Do_def inv_empty_def split: if_splits)
qed (use assms worker_empty caller_empty in \<open>auto simp: perform_def split: if_splits\<close>)

lemma run_empty:
  assumes "run N False es s = Some s'" "reachable N False s" "inv_empty N s"
  shows "inv_empty N s'"
  using assms
proof (induction es arbitrary: s)
  case (Cons e es)
  obtain s1 where s1: "perform N False e s = Some s1" "run N False es s1 = Some s'"
    using Cons.prems(1) by (auto simp: bind_eq_Some_conv)
  then show ?case using Cons.IH perform_empty [OF s1(1) reachable_base] move Cons.prems(2,3) by blast
qed simp

text \<open>
  A call with no job never returns: no worker is counted in, so none signals the caller,
  which waits without a look at \<open>gRunning\<close>.
\<close>

theorem ThreadPool_Do_no_jobs:
  assumes "reachable N False s" "run N False (E_Do f 0 # es) s = Some s'"
  shows "cpc s' \<noteq> C_Done r \<and> cpc s' \<noteq> C_Idle"
proof -
  obtain s1 where s1: "perform N False (E_Do f 0) s = Some s1" "run N False es s1 = Some s'"
    using assms(2) by (auto simp: bind_eq_Some_conv)
  have "inv_empty N s1" using s1(1) by (auto simp: perform_def ThreadPool_Do_def inv_empty_def MAX_COUNT_def split: if_splits)
  then have "inv_empty N s'" by (rule run_empty [OF s1(2) move [OF assms(1) s1(1)]])
  then show ?thesis by (auto simp: inv_empty_def)
qed

theorem ThreadPool_Do_no_jobs_witness:
  "\<exists>s'. run 2 False (E_Do (\<lambda>_. 0) 0 # post) two_idle = Some s' \<and> cpc s' \<noteq> C_Idle"
proof -
  have "map_option cpc (run 2 False (E_Do (\<lambda>_. 0) 0 # post) two_idle) = Some C_Waiting" by code_simp
  then obtain s' where "run 2 False (E_Do (\<lambda>_. 0) 0 # post) two_idle = Some s'" by auto
  from ThreadPool_Do_no_jobs [OF two_idle_reachable this] this show ?thesis by blast
qed

end
