(* ===== verification/ParseParameters.thy ===== *)
theory ParseParameters
  imports Prelude
begin

text \<open>
  The common command line options, \<^verbatim>\<open>test_common/harness/parseParameters.cpp\<close>.
  \<open>argv\<close> is the array as the code has it, compacted in place, and \<open>argc\<close> its
  logical length; the global variables the parser sets are a record. The parser is compared with a
  recursive specification on the list of arguments. The messages are not modelled, except for the
  number of times the help text is printed.
\<close>

section \<open>State\<close>

datatype CompilationMode = kOnline | kBinary | kSpir_v

datatype CompilationCacheMode =
  kCacheModeCompileIfAbsent | kCacheModeForceRead | kCacheModeOverwrite | kCacheModeDumpCl

record params =
  gCompilationMode :: CompilationMode
  gCompilationCacheMode :: CompilationCacheMode
  gCompilationCachePath :: string
  gCompilationProgram :: string
  gDisableSPIRVValidation :: bool
  gSPIRVValidator :: string
  gNumWorkerThreads :: "32 word"
  helps :: nat

definition default_params :: params where
  "default_params = \<lparr>gCompilationMode = kOnline, gCompilationCacheMode = kCacheModeCompileIfAbsent,
     gCompilationCachePath = ''.'', gCompilationProgram = ''cl_offline_compiler'',
     gDisableSPIRVValidation = False, gSPIRVValidator = ''spirv-val'', gNumWorkerThreads = 0, helps = 0\<rparr>"

section \<open>The C library\<close>

text \<open>\<open>strstr\<close>: the index of the first occurrence.\<close>

fun strstr_from :: "nat \<Rightarrow> string \<Rightarrow> string \<Rightarrow> nat option" where
  "strstr_from k [] n = (if n = [] then Some k else None)"
| "strstr_from k (c # cs) n = (if take (length n) (c # cs) = n then Some k else strstr_from (Suc k) cs n)"

text \<open>\<open>atoi\<close> in the C locale; a value out of the range of \<open>int\<close>, undefined in C, wraps.\<close>

definition digit :: "char \<Rightarrow> bool" where "digit c \<longleftrightarrow> 48 \<le> (of_char c :: nat) \<and> (of_char c :: nat) \<le> 57"

definition space :: "char \<Rightarrow> bool" where
  "space c \<longleftrightarrow> (of_char c :: nat) = 32 \<or> 9 \<le> (of_char c :: nat) \<and> (of_char c :: nat) \<le> 13"

fun digits_value :: "int \<Rightarrow> string \<Rightarrow> int" where
  "digits_value acc [] = acc"
| "digits_value acc (c # cs) = (if digit c then digits_value (acc * 10 + (of_char c - 48)) cs else acc)"

definition atoi :: "string \<Rightarrow> 32 word" where
  "atoi s = word_of_int
     (let t = dropWhile space s
      in if take 1 t = ''-'' then - digits_value 0 (drop 1 t)
         else if take 1 t = ''+'' then digits_value 0 (drop 1 t)
         else digits_value 0 t)"

section \<open>The options\<close>

text \<open>
  One argument and, if there is one, the next: how many arguments to delete and the new globals;
  \<open>None\<close> is \<open>return -1\<close>.
\<close>

fun value_of :: "string option \<Rightarrow> (string \<Rightarrow> params option) \<Rightarrow> (nat \<times> params) option" where
  "value_of None set_value = None"
| "value_of (Some v) set_value = map_option (Pair 2) (set_value v)"

definition set_mode :: "params \<Rightarrow> string \<Rightarrow> params option" where
  "set_mode g mode =
     (if mode = ''online'' then Some (g\<lparr>gCompilationMode := kOnline\<rparr>)
      else if mode = ''binary'' then Some (g\<lparr>gCompilationMode := kBinary\<rparr>)
      else if mode = ''spir-v'' then Some (g\<lparr>gCompilationMode := kSpir_v\<rparr>)
      else None)"

definition set_cache_mode :: "params \<Rightarrow> string \<Rightarrow> params option" where
  "set_cache_mode g mode =
     (if mode = ''compile-if-absent'' then Some (g\<lparr>gCompilationCacheMode := kCacheModeCompileIfAbsent\<rparr>)
      else if mode = ''force-read'' then Some (g\<lparr>gCompilationCacheMode := kCacheModeForceRead\<rparr>)
      else if mode = ''overwrite'' then Some (g\<lparr>gCompilationCacheMode := kCacheModeOverwrite\<rparr>)
      else if mode = ''dump-cl-files'' then Some (g\<lparr>gCompilationCacheMode := kCacheModeDumpCl\<rparr>)
      else None)"

definition custom_option :: "string \<Rightarrow> string option \<Rightarrow> params \<Rightarrow> (nat \<times> params) option" where
  "custom_option arg nxt g =
     (if arg = ''-h'' \<or> arg = ''--help'' then Some (0, g\<lparr>helps := helps g + 1\<rparr>)
      else if arg = ''--compilation-mode'' then value_of nxt (set_mode g)
      else if arg = ''--num-worker-threads'' then value_of nxt (\<lambda>v. Some (g\<lparr>gNumWorkerThreads := atoi v\<rparr>))
      else if arg = ''--compilation-cache-mode'' then value_of nxt (set_cache_mode g)
      else if arg = ''--compilation-cache-path'' then value_of nxt (\<lambda>v. Some (g\<lparr>gCompilationCachePath := v\<rparr>))
      else if arg = ''--compilation-program'' then value_of nxt (\<lambda>v. Some (g\<lparr>gCompilationProgram := v\<rparr>))
      else if arg = ''--disable-spirv-validation'' then Some (1, g\<lparr>gDisableSPIRVValidation := True\<rparr>)
      else if arg = ''--spirv-validator'' then value_of nxt (\<lambda>v. Some (g\<lparr>gSPIRVValidator := v\<rparr>))
      else Some (0, g))"

text \<open>The test for an argument the application treats itself.\<close>

definition skipped :: "string option \<Rightarrow> string \<Rightarrow> bool" where
  "skipped ign arg =
     (case ign of
        None \<Rightarrow> False
      | Some ignored \<Rightarrow>
          (case strstr_from 0 ignored arg of
             None \<Rightarrow> False
           | Some p \<Rightarrow> (p = 0 \<or> ignored ! (p - 1) = CHR '' '') \<and>
               (p + length arg = length ignored \<or> ignored ! (p + length arg) = CHR '' '')))"

section \<open>The loop\<close>

text \<open>\<open>for (j = i; j < argc - delArg; j++) argv[j] = argv[j + delArg]\<close>\<close>

function compact :: "nat \<Rightarrow> nat \<Rightarrow> nat \<Rightarrow> string list \<Rightarrow> string list" where
  "compact j n delArg argv =
     (if j < n then compact (Suc j) n delArg (argv[j := argv ! (j + delArg)]) else argv)"
  by pat_completeness auto
termination
  by (relation "measure (\<lambda>(j, n, _). n - j)") auto

declare compact.simps [simp del]

lemma value_of_deletes: "value_of nxt f = Some (d, g) \<Longrightarrow> d = 2 \<and> (\<exists>v. nxt = Some v \<and> f v = Some g)"
  by (cases nxt) auto

lemma custom_option_deletes:
  "custom_option a nxt g = Some (d, g') \<Longrightarrow> d \<le> 2 \<and> (d = 2 \<longrightarrow> nxt \<noteq> None)"
  by (auto simp: custom_option_def dest: value_of_deletes split: if_splits)

datatype outcome =
    Args nat "string list" params   \<comment> \<open>the new \<open>argc\<close> and \<open>argv\<close>\<close>
  | Error                           \<comment> \<open>\<open>return -1\<close>\<close>
  | Fault                           \<comment> \<open>a read of \<open>argv[-1]\<close>\<close>

text \<open>\<open>i\<close> is signed: after the deletion the loop goes on at \<open>i - delArg + 1\<close>.\<close>

function parse_loop :: "string option \<Rightarrow> int \<Rightarrow> nat \<Rightarrow> string list \<Rightarrow> params \<Rightarrow> outcome" where
  "parse_loop ign i argc argv g =
     (if i < int argc then
        if i < 0 then Fault
        else if skipped ign (argv ! nat i) then parse_loop ign (i + 1) argc argv g
        else
          (case custom_option (argv ! nat i) (if i + 1 < int argc then Some (argv ! nat (i + 1)) else None) g of
             None \<Rightarrow> Error
           | Some (delArg, g) \<Rightarrow>
               parse_loop ign (i - int delArg + 1) (argc - delArg) (compact (nat i) (argc - delArg) delArg argv) g)
      else Args argc argv g)"
  by pat_completeness auto

termination
proof (relation "measure (\<lambda>(_, i, argc, _). nat (int argc - i))", goal_cases)
  case (3 ign i argc argv g x2 delArg g')
  then have "custom_option (argv ! nat i) (if i + 1 < int argc then Some (argv ! nat (i + 1)) else None) g
      = Some (delArg, g')" by simp
  from custom_option_deletes [OF this] have "delArg \<le> 2" "delArg = 2 \<longrightarrow> i + 1 < int argc"
    by (auto split: if_splits)
  with 3(1,2) show ?case by (cases "delArg = 2") auto
qed auto

declare parse_loop.simps [simp del]

definition parseCustomParam :: "nat \<Rightarrow> string list \<Rightarrow> string option \<Rightarrow> params \<Rightarrow> outcome" where
  "parseCustomParam argc argv ign g =
     (case parse_loop ign 1 argc argv g of
        Args argc argv g \<Rightarrow>
          if gCompilationCacheMode g \<in> {kCacheModeForceRead, kCacheModeOverwrite} \<and> gCompilationMode g = kOnline
          then Error else Args argc argv g
      | out \<Rightarrow> out)"

definition is_power_of_two :: "32 word \<Rightarrow> bool" where
  "is_power_of_two number \<longleftrightarrow> number \<noteq> 0 \<and> and number (number - 1) = 0"

text \<open>\<open>arg\<close> is not empty: the callers come here on a \<open>[\<close>.\<close>

definition parseWimpyReductionFactor :: "string \<Rightarrow> 32 word \<Rightarrow> string \<times> 32 word" where
  "parseWimpyReductionFactor arg wimpyReductionFactor =
     (let arg_temp = dropWhile (\<lambda>c. c \<noteq> CHR '']'') (drop 1 arg)
      in if arg_temp = [] then (arg, wimpyReductionFactor)
         else let new_factor = atoi (drop 1 arg)
              in (arg_temp, if is_power_of_two new_factor then new_factor else wimpyReductionFactor))"

section \<open>Compaction deletes arguments\<close>

lemma compact_length [simp]: "length (compact j n d argv) = length argv"
  by (induction j n d argv rule: compact.induct) (subst compact.simps, simp)

lemma compact_nth:
  "n + d \<le> length argv \<Longrightarrow> k < length argv \<Longrightarrow>
   compact j n d argv ! k = (if j \<le> k \<and> k < n then argv ! (k + d) else argv ! k)"
proof (induction j n d argv rule: compact.induct)
  case (1 j n d argv)
  show ?case
  proof (cases "j < n")
    case True
    then have "compact j n d argv ! k = compact (Suc j) n d (argv[j := argv ! (j + d)]) ! k"
      by (subst compact.simps) simp
    also have "\<dots> = (if Suc j \<le> k \<and> k < n then argv[j := argv ! (j + d)] ! (k + d)
        else argv[j := argv ! (j + d)] ! k)"
      using 1 True by simp
    also have "\<dots> = (if j \<le> k \<and> k < n then argv ! (k + d) else argv ! k)"
      using 1(2,3) True by (cases "k = j"; cases "d = 0") (auto simp: nth_list_update)
    finally show ?thesis .
  next
    case False
    then show ?thesis by (subst compact.simps) auto
  qed
qed

lemma compact_take:
  assumes "i + d \<le> argc" "argc \<le> length argv"
  shows "take (argc - d) (compact i (argc - d) d argv) = take i argv @ drop (i + d) (take argc argv)"
proof (rule nth_equalityI)
  show "length (take (argc - d) (compact i (argc - d) d argv)) = length (take i argv @ drop (i + d) (take argc argv))"
    using assms by simp
  fix k assume "k < length (take (argc - d) (compact i (argc - d) d argv))"
  then show "take (argc - d) (compact i (argc - d) d argv) ! k = (take i argv @ drop (i + d) (take argc argv)) ! k"
    using assms by (auto simp: compact_nth nth_append add_ac)
qed

lemma compact_none: "n \<le> length argv \<Longrightarrow> compact j n 0 argv = argv"
  by (rule nth_equalityI) (simp_all add: compact_nth)

lemma compact_prefix: "n + d \<le> length argv \<Longrightarrow> m \<le> j \<Longrightarrow> take m (compact j n d argv) = take m argv"
  by (rule nth_equalityI) (simp_all add: compact_nth)

section \<open>The specification\<close>

text \<open>
  The arguments that stay, and the globals; \<open>None\<close> when an option has no or a wrong value.
\<close>

definition head :: "'a list \<Rightarrow> 'a option" where
  "head xs = (case xs of [] \<Rightarrow> None | x # _ \<Rightarrow> Some x)"

fun consume :: "string option \<Rightarrow> string list \<Rightarrow> params \<Rightarrow> (string list \<times> params) option" where
  "consume ign [] g = Some ([], g)"
| "consume ign (a # args) g =
     (if skipped ign a then map_option (apfst ((#) a)) (consume ign args g)
      else
        (case custom_option a (head args) g of
           None \<Rightarrow> None
         | Some (0, g) \<Rightarrow> map_option (apfst ((#) a)) (consume ign args g)
         | Some (Suc 0, g) \<Rightarrow> consume ign args g
         | Some (Suc (Suc _), g) \<Rightarrow> consume ign (tl args) g))"

text \<open>The number of times the help was printed is left out of the comparison.\<close>

definition quiet :: "params \<Rightarrow> params" where "quiet g = g\<lparr>helps := 0\<rparr>"

lemma quiet_idem [simp]: "quiet (quiet g) = quiet g" by (simp add: quiet_def)

lemma custom_option_quiet:
  "map_option (apsnd quiet) (custom_option a nxt (quiet g)) = map_option (apsnd quiet) (custom_option a nxt g)"
  by (cases nxt) (simp_all add: custom_option_def quiet_def set_mode_def set_cache_mode_def)

lemma quiet_cong:
  assumes "quiet g = quiet h"
  shows "map_option (apsnd quiet) (custom_option a nxt g) = map_option (apsnd quiet) (custom_option a nxt h)"
  using custom_option_quiet [of a nxt g] custom_option_quiet [of a nxt h] assms by simp

lemma consume_quiet:
  "quiet g = quiet h \<Longrightarrow> map_option (apsnd quiet) (consume ign args g) = map_option (apsnd quiet) (consume ign args h)"
proof (induction ign args g arbitrary: h rule: consume.induct)
  case (2 ign a args g)
  show ?case
  proof (cases "skipped ign a")
    case True
    then show ?thesis using "2.IH"(1) [OF True "2.prems"]
      by (cases "consume ign args g"; cases "consume ign args h") auto
  next
    case False
    note eq = quiet_cong [OF "2.prems", of a "head args"]
    show ?thesis
    proof (cases "custom_option a (head args) g")
      case None
      then show ?thesis using False eq by (cases "custom_option a (head args) h") auto
    next
      case (Some r)
      then obtain d g' h' where r: "custom_option a (head args) g = Some (d, g')"
          "custom_option a (head args) h = Some (d, h')" "quiet g' = quiet h'"
        using eq by (cases "custom_option a (head args) h") (auto simp: apsnd_def map_prod_def split: prod.splits)
      consider "d = 0" | "d = Suc 0" | n where "d = Suc (Suc n)" by (cases d rule: nat.exhaust; metis not0_implies_Suc)
      then show ?thesis
      proof cases
        case 1
        then show ?thesis using False r "2.IH"(2) [OF False r(1) refl 1 r(3)]
          by (cases "consume ign args g'"; cases "consume ign args h'") auto
      next
        case 2
        then show ?thesis using False r "2.IH"(3) [OF False r(1) refl 2 refl r(3)] by simp
      next
        case (3 n)
        then show ?thesis using False r "2.IH"(4) [OF False r(1) refl 3 refl r(3)] by simp
      qed
    qed
  qed
qed simp

section \<open>The parser implements the specification\<close>

definition option_names :: "string list" where
  "option_names = [''--compilation-mode'', ''--num-worker-threads'', ''--compilation-cache-mode'',
     ''--compilation-cache-path'', ''--compilation-program'', ''--disable-spirv-validation'', ''--spirv-validator'']"

definition inert :: "string option \<Rightarrow> string \<Rightarrow> bool" where
  "inert ign a \<longleftrightarrow> skipped ign a \<or> a \<notin> set option_names"

lemma custom_option_other:
  "a \<notin> set option_names \<Longrightarrow> \<exists>g'. custom_option a nxt g = Some (0, g') \<and> quiet g' = quiet g"
  by (auto simp: custom_option_def option_names_def quiet_def)

lemma custom_option_zero: "custom_option a nxt g = Some (0, g') \<Longrightarrow> a \<notin> set option_names \<and> quiet g' = quiet g"
  by (auto simp: custom_option_def option_names_def quiet_def dest: value_of_deletes split: if_splits)

definition agrees :: "outcome \<Rightarrow> string list \<Rightarrow> (string list \<times> params) option \<Rightarrow> nat \<Rightarrow> bool" where
  "agrees out before spec n =
     (case spec of
        None \<Rightarrow> out = Error
      | Some (kept, g) \<Rightarrow>
          (case out of
             Args argc argv h \<Rightarrow> length argv = n \<and> argc \<le> n \<and> take argc argv = before @ kept \<and> quiet h = quiet g
           | _ \<Rightarrow> False))"

lemma agrees_keep:
  "agrees out before (map_option (apfst ((#) a)) spec) n \<longleftrightarrow> agrees out (before @ [a]) spec n"
  by (auto simp: agrees_def split: option.splits outcome.splits)

lemma agrees_quiet:
  assumes "agrees out before (consume ign args g) n" "quiet g = quiet h"
  shows "agrees out before (consume ign args h) n"
  using assms(1) consume_quiet [OF assms(2), of ign args]
  by (cases "consume ign args g"; cases "consume ign args h") (auto simp: agrees_def split: outcome.splits)

lemma consume_inert:
  assumes "inert ign a"
  shows "\<exists>h. quiet h = quiet g \<and> consume ign (a # args) g = map_option (apfst ((#) a)) (consume ign args h)"
proof (cases "skipped ign a")
  case False
  then obtain h where "custom_option a (head args) g = Some (0, h)" "quiet h = quiet g"
    using assms custom_option_other unfolding inert_def by blast
  then show ?thesis using False by auto
qed auto

lemma agrees_inert:
  assumes "inert ign a"
  shows "agrees out before (consume ign (a # args) g) n \<longleftrightarrow> agrees out (before @ [a]) (consume ign args g) n"
proof -
  obtain h where h: "quiet h = quiet g" "consume ign (a # args) g = map_option (apfst ((#) a)) (consume ign args h)"
    using consume_inert [OF assms] by blast
  show ?thesis unfolding h(2) agrees_keep using agrees_quiet h(1) by metis
qed

lemma parse_loop_at:
  assumes "m < argc" "argc \<le> length argv"
  shows "parse_loop ign (int m) argc argv g =
    (if skipped ign (argv ! m) then parse_loop ign (int (Suc m)) argc argv g
     else case custom_option (argv ! m) (head (drop (Suc m) (take argc argv))) g of
       None \<Rightarrow> Error
     | Some (d, g) \<Rightarrow> parse_loop ign (int m - int d + 1) (argc - d) (compact m (argc - d) d argv) g)"
proof -
  have "(if int m + 1 < int argc then Some (argv ! nat (int m + 1)) else None) = head (drop (Suc m) (take argc argv))"
  proof (cases "Suc m < argc")
    case True
    then have "drop (Suc m) (take argc argv) = argv ! Suc m # drop (Suc (Suc m)) (take argc argv)"
      using assms(2) by (simp add: Cons_nth_drop_Suc [symmetric])
    then show ?thesis using True by (simp add: head_def nat_add_distrib)
  qed (simp add: head_def)
  moreover have "int m + 1 = int (Suc m)" by simp
  ultimately show ?thesis using assms(1)
    by (subst parse_loop.simps) (simp only: nat_int of_nat_less_iff of_nat_less_0_iff if_True if_False refl)
qed

definition ready :: "string option \<Rightarrow> nat \<Rightarrow> nat \<Rightarrow> string list \<Rightarrow> bool" where
  "ready ign m argc argv \<longleftrightarrow> m \<le> argc \<and> 0 < argc \<and> argc \<le> length argv \<and> (\<forall>k<max 1 m. inert ign (argv ! k))"

abbreviation implements :: "string option \<Rightarrow> nat \<Rightarrow> nat \<Rightarrow> string list \<Rightarrow> params \<Rightarrow> bool" where
  "implements ign m argc argv g \<equiv>
     agrees (parse_loop ign (int m) argc argv g) (take m argv) (consume ign (drop m (take argc argv)) g) (length argv)"

lemma deletes_later:
  assumes "ready ign m argc argv" "m < argc" "\<not> skipped ign (argv ! m)" "custom_option (argv ! m) nxt g = Some (d, h)" "d \<noteq> 0"
  shows "0 < m"
proof (rule ccontr)
  assume "\<not> 0 < m"
  then have "inert ign (argv ! m)" using assms(1) by (simp add: ready_def)
  then show False using custom_option_other [of "argv ! m" nxt g] assms(3-5) by (auto simp: inert_def)
qed

text \<open>An argument that stays, and the two kinds of deletion.\<close>

lemma keep_one:
  assumes "ready ign m argc argv" "m < argc" "inert ign (argv ! m)"
  shows "ready ign (Suc m) argc argv"
    and "implements ign (Suc m) argc argv h \<Longrightarrow>
      agrees (parse_loop ign (int (Suc m)) argc argv h) (take m argv) (consume ign (drop m (take argc argv)) h) (length argv)"
proof -
  show "ready ign (Suc m) argc argv" using assms by (auto simp: ready_def less_Suc_eq)
  have "drop m (take argc argv) = argv ! m # drop (Suc m) (take argc argv)" "take (Suc m) argv = take m argv @ [argv ! m]"
    using assms(1,2) by (simp_all add: ready_def Cons_nth_drop_Suc [symmetric] take_Suc_conv_app_nth)
  then show "agrees (parse_loop ign (int (Suc m)) argc argv h) (take m argv) (consume ign (drop m (take argc argv)) h) (length argv)"
    if "implements ign (Suc m) argc argv h"
    using that agrees_inert [OF assms(3)] by simp
qed

lemma delete_one:
  assumes "ready ign m argc argv" "m < argc" "0 < m"
  shows "ready ign m (argc - 1) (compact m (argc - 1) 1 argv)"
    and "implements ign m (argc - 1) (compact m (argc - 1) 1 argv) h \<Longrightarrow>
      agrees (parse_loop ign (int m) (argc - 1) (compact m (argc - 1) 1 argv) h) (take m argv)
        (consume ign (drop (Suc m) (take argc argv)) h) (length argv)"
proof -
  show "ready ign m (argc - 1) (compact m (argc - 1) 1 argv)" using assms by (auto simp: ready_def compact_nth)
  have "take m (compact m (argc - 1) 1 argv) = take m argv"
    "take (argc - 1) (compact m (argc - 1) 1 argv) = take m argv @ drop (Suc m) (take argc argv)"
    using assms compact_take [of m 1 argc argv] by (simp_all add: ready_def compact_prefix)
  then show "agrees (parse_loop ign (int m) (argc - 1) (compact m (argc - 1) 1 argv) h) (take m argv)
      (consume ign (drop (Suc m) (take argc argv)) h) (length argv)"
    if "implements ign m (argc - 1) (compact m (argc - 1) 1 argv) h"
    using that assms by (simp add: ready_def)
qed

lemma delete_two:
  assumes "ready ign m argc argv" "Suc m < argc" "0 < m"
  shows "ready ign (m - 1) (argc - 2) (compact m (argc - 2) 2 argv)"
    and "implements ign (m - 1) (argc - 2) (compact m (argc - 2) 2 argv) h \<Longrightarrow>
      agrees (parse_loop ign (int (m - 1)) (argc - 2) (compact m (argc - 2) 2 argv) h) (take m argv)
        (consume ign (tl (drop (Suc m) (take argc argv))) h) (length argv)"
proof -
  let ?argv = "compact m (argc - 2) 2 argv"
  show "ready ign (m - 1) (argc - 2) ?argv" using assms by (auto simp: ready_def compact_nth)
  define b where "b = argv ! (m - 1)"
  have b: "inert ign b" "take m argv = take (m - 1) argv @ [b]"
    using assms take_Suc_conv_app_nth [of "m - 1" argv] by (auto simp: b_def ready_def)
  have "argc - 2 + 2 \<le> length argv" using assms(1,2) unfolding ready_def by linarith
  then have pre: "take (m - 1) ?argv = take (m - 1) argv" by (rule compact_prefix) simp
  have "take (argc - 2) ?argv = take m argv @ tl (drop (Suc m) (take argc argv))"
    using compact_take [of m 2 argc argv] assms by (simp add: ready_def tl_drop drop_Suc)
  moreover have "m - 1 \<le> length argv" using assms(1,2) unfolding ready_def by linarith
  then have "length (take (m - 1) argv) = m - 1" by simp
  ultimately have view: "drop (m - 1) (take (argc - 2) ?argv) = b # tl (drop (Suc m) (take argc argv))"
    unfolding b(2) by simp
  show "agrees (parse_loop ign (int (m - 1)) (argc - 2) ?argv h) (take m argv)
      (consume ign (tl (drop (Suc m) (take argc argv))) h) (length argv)"
    if "implements ign (m - 1) (argc - 2) ?argv h"
    using that unfolding view pre agrees_inert [OF b(1)] b(2) [symmetric] by simp
qed

lemma parse_loop_spec: "ready ign m argc argv \<Longrightarrow> implements ign m argc argv g"
proof (induction "argc - m" arbitrary: m argc argv g rule: less_induct)
  case less
  show ?case
  proof (cases "m < argc")
    case False
    then have "m = argc" using less.prems by (simp add: ready_def)
    then show ?thesis using less.prems by (subst parse_loop.simps) (simp add: agrees_def ready_def)
  next
    case True
    let ?a = "argv ! m" and ?rest = "drop (Suc m) (take argc argv)"
    have args: "drop m (take argc argv) = ?a # ?rest" and len: "argc \<le> length argv"
      using True less.prems by (simp_all add: ready_def Cons_nth_drop_Suc [symmetric])
    note loop = parse_loop_at [OF True len, of ign g]
    have keep: "agrees (parse_loop ign (int (Suc m)) argc argv h) (take m argv) (consume ign (?a # ?rest) h) (length argv)"
      if "inert ign ?a" for h
      using keep_one(2) [OF less.prems True that, of h] less.hyps [OF _ keep_one(1) [OF less.prems True that], of h] True
      unfolding args by simp
    show ?thesis
    proof (cases "skipped ign ?a")
      case True
      then show ?thesis using keep [of g] loop unfolding args by (simp add: inert_def)
    next
      case False
      show ?thesis
      proof (cases "custom_option ?a (head ?rest) g")
        case None
        then show ?thesis using False loop args by (simp add: agrees_def)
      next
        case (Some r)
        obtain d h where r: "custom_option ?a (head ?rest) g = Some (d, h)" using Some by (cases r) simp
        consider "d = 0" | "d = 1" | "d = 2" using custom_option_deletes [OF r] by linarith
        then show ?thesis
        proof cases
          case 1
          have i: "inert ign ?a" "quiet h = quiet g" using custom_option_zero r 1 by (auto simp: inert_def)
          have "parse_loop ign (int m) argc argv g = parse_loop ign (int (Suc m)) argc argv h"
            using loop False r 1 compact_none [OF len] by (simp add: add.commute)
          then show ?thesis unfolding args using agrees_quiet [OF keep [OF i(1)] i(2)] by simp
        next
          case 2
          have later: "0 < m" by (rule deletes_later [OF less.prems True False r]) (use 2 in simp)
          note del = delete_one [OF less.prems True later]
          have "implements ign m (argc - 1) (compact m (argc - 1) 1 argv) h"
            by (rule less.hyps [OF _ del(1)]) (use True in simp)
          from del(2) [OF this] show ?thesis using 2 loop False r unfolding args by simp
        next
          case 3
          have later: "0 < m" by (rule deletes_later [OF less.prems True False r]) (use 3 in simp)
          have two: "Suc m < argc"
            using custom_option_deletes [OF r] 3 True by (cases "Suc m < argc") (auto simp: head_def)
          note del = delete_two [OF less.prems two later]
          have "implements ign (m - 1) (argc - 2) (compact m (argc - 2) 2 argv) h"
            by (rule less.hyps [OF _ del(1)]) (use two in simp)
          from del(2) [OF this] have "agrees (parse_loop ign (int m - int 2 + 1) (argc - 2) (compact m (argc - 2) 2 argv) h)
              (take m argv) (consume ign (tl ?rest) h) (length argv)"
            using later by (simp add: of_nat_diff add.commute)
          then show ?thesis using 3 loop False r unfolding args by (simp add: numeral_2_eq_2)
        qed
      qed
    qed
  qed
qed

text \<open>
  C15. The parser refines the specification: for an \<open>argv\<close> whose first entry is no option, it
  fails exactly when the specification does or a cache mode is chosen without an offline mode, and
  otherwise returns the program name and the remaining arguments, in order, with the globals set.
\<close>

theorem parseCustomParam_refines:
  assumes "0 < argc" "argc \<le> length argv" "argv ! 0 \<notin> set option_names"
  shows "case consume ign (drop 1 (take argc argv)) g of
      None \<Rightarrow> parseCustomParam argc argv ign g = Error
    | Some (kept, g') \<Rightarrow>
        if gCompilationCacheMode g' \<in> {kCacheModeForceRead, kCacheModeOverwrite} \<and> gCompilationMode g' = kOnline
        then parseCustomParam argc argv ign g = Error
        else \<exists>argv' h. parseCustomParam argc argv ign g = Args (Suc (length kept)) argv' h \<and>
          take (Suc (length kept)) argv' = argv ! 0 # kept \<and> quiet h = quiet g'"
proof -
  have one: "take 1 argv = [argv ! 0]" using assms(1,2) by (cases argv) auto
  have "ready ign 1 argc argv" using assms by (simp add: ready_def inert_def)
  from parse_loop_spec [OF this, of g]
  have A: "agrees (parse_loop ign 1 argc argv g) [argv ! 0] (consume ign (drop 1 (take argc argv)) g) (length argv)"
    unfolding one by simp
  show ?thesis
  proof (cases "consume ign (drop 1 (take argc argv)) g")
    case None
    then show ?thesis using A by (simp add: agrees_def parseCustomParam_def)
  next
    case (Some r)
    then obtain kept g' where r: "consume ign (drop 1 (take argc argv)) g = Some (kept, g')" by (cases r) simp
    then obtain argc' argv' h where out: "parse_loop ign 1 argc argv g = Args argc' argv' h"
        "argc' \<le> length argv'" "take argc' argv' = argv ! 0 # kept" "quiet h = quiet g'"
      using A by (auto simp: agrees_def split: outcome.splits)
    have n: "argc' = Suc (length kept)" using arg_cong [OF out(3), of length] out(2) by simp
    have "gCompilationCacheMode h = gCompilationCacheMode g'" "gCompilationMode h = gCompilationMode g'"
      using out(4) by (metis (no_types, lifting) params.select_convs params.surjective params.update_convs(8) quiet_def)+
    then show ?thesis using r out n by (simp add: parseCustomParam_def)
  qed
qed

theorem parseCustomParam_refines_witness:
  "\<exists>argv' h. parseCustomParam 4 [''prog'', ''--num-worker-threads'', ''4'', ''test''] None default_params = Args 2 argv' h
     \<and> take 2 argv' = [''prog'', ''test'']"
proof -
  have spec: "consume None (drop 1 (take 4 [''prog'', ''--num-worker-threads'', ''4'', ''test''])) default_params
      = Some ([''test''], default_params\<lparr>gNumWorkerThreads := atoi ''4''\<rparr>)"
    by code_simp
  from parseCustomParam_refines [of 4 "[''prog'', ''--num-worker-threads'', ''4'', ''test'']" None default_params]
  show ?thesis unfolding spec
    by (auto simp: option_names_def default_params_def numeral_2_eq_2)
qed

text \<open>
  After it has deleted an option with a value the parser goes back one argument too far: the
  argument before the option is looked at again, so a \<open>-h\<close> there prints the help twice.
\<close>

theorem parseCustomParam_steps_back_too_far:
  "parseCustomParam 4 [''prog'', ''-h'', ''--compilation-mode'', ''binary''] None default_params
   = Args 2 [''prog'', ''-h'', ''--compilation-mode'', ''binary'']
       (default_params\<lparr>gCompilationMode := kBinary, helps := 2\<rparr>)"
  by code_simp

section \<open>The wimpy reduction factor\<close>

lemma top_bit:
  fixes w :: "32 word"
  assumes "2 ^ k \<le> unat w" "unat w < 2 ^ Suc k"
  shows "bit w k"
proof -
  have "unat w div 2 ^ k = 1" using assms by (intro div_nat_eqI) auto
  then show ?thesis by (simp add: bit_unat)
qed

lemma power_of_two_int: "is_power_of_two w \<longleftrightarrow> (\<exists>k<32. w = 2 ^ k)"
proof
  assume p: "is_power_of_two w"
  then have nz: "w \<noteq> 0" and z: "and w (w - 1) = 0" by (simp_all add: is_power_of_two_def)
  have n: "0 < unat w" using nz by (simp add: unat_gt_0)
  then obtain k where k: "2 ^ k \<le> unat w" "unat w < 2 ^ Suc k" using ex_power_ivl1 [of 2 "unat w"] by auto
  have "(2::nat) ^ k < 2 ^ 32" using k(1) unat_bound [of w] by simp
  then have k32: "k < 32" by (rule power_less_imp_less_exp [of "2::nat", rotated]) simp
  have "unat w = 2 ^ k"
  proof (rule ccontr)
    assume "unat w \<noteq> 2 ^ k"
    then have lt: "2 ^ k \<le> unat w - 1" "unat w - 1 < 2 ^ Suc k" using k by auto
    have "unat (w - 1) = unat w - 1" using nz by (simp add: unat_minus_one)
    then have "bit (w - 1) k" using lt by (intro top_bit) simp_all
    moreover have "bit w k" by (rule top_bit [OF k])
    ultimately have "bit (and w (w - 1)) k" by (simp add: bit_and_iff)
    then show False using z by simp
  qed
  then have "word_of_nat (unat w) = (2 ^ k :: 32 word)" by simp
  then have "w = 2 ^ k" by simp
  then show "\<exists>k<32. w = 2 ^ k" using k32 by blast
next
  assume "\<exists>k<32. w = 2 ^ k"
  then obtain k where k: "k < 32" "w = 2 ^ k" by blast
  have "(2 :: 32 word) ^ k - 1 = mask k" by (simp add: mask_eq_decr_exp)
  then have "and w (w - 1) = 0" using k(2) by (auto intro!: bit_word_eqI simp: bit_simps)
  moreover have "w \<noteq> 0" using k by (simp add: exp_eq_0_imp_not_bit)
  ultimately show "is_power_of_two w" by (simp add: is_power_of_two_def)
qed

lemma digits_value_stop: "\<not> digit c \<Longrightarrow> digits_value acc (xs @ c # ys) = digits_value acc xs"
  by (induction xs arbitrary: acc) auto

lemma dropWhile_stop: "\<not> P c \<Longrightarrow> \<exists>zs. dropWhile P (xs @ c # ys) = zs @ c # ys \<and> dropWhile P xs = zs"
  by (induction xs) auto

lemma atoi_stop:
  assumes "\<not> digit c" "\<not> space c" "c \<noteq> CHR ''-''" "c \<noteq> CHR ''+''"
  shows "atoi (xs @ c # ys) = atoi xs"
proof -
  obtain zs where zs: "dropWhile space (xs @ c # ys) = zs @ c # ys" "dropWhile space xs = zs"
    using dropWhile_stop [of space c xs ys] assms(2) by blast
  show ?thesis unfolding atoi_def zs Let_def
    using assms by (cases zs) (auto simp: digits_value_stop)
qed

text \<open>
  An argument \<open>[s]t\<close> is advanced to its bracket, and the factor becomes the number
  \<open>s\<close> reads as when that is a power of two, and stays otherwise; \<open>INT_MIN\<close>, of one bit, is
  such a power too.
\<close>

theorem parseWimpyReductionFactor_reads:
  assumes "CHR '']'' \<notin> set s"
  shows "parseWimpyReductionFactor (c # s @ CHR '']'' # t) f =
    (CHR '']'' # t, if \<exists>k<32. atoi s = 2 ^ k then atoi s else f)"
proof -
  have "dropWhile (\<lambda>c. c \<noteq> CHR '']'') (s @ CHR '']'' # t) = CHR '']'' # t" using assms by (induction s) auto
  moreover have "atoi (s @ CHR '']'' # t) = atoi s"
    using atoi_stop [of "CHR '']''" s t] by (simp add: digit_def space_def)
  ultimately show ?thesis by (simp add: parseWimpyReductionFactor_def power_of_two_int Let_def)
qed

theorem parseWimpyReductionFactor_reads_witness:
  "parseWimpyReductionFactor ''[64]'' 256 = ('']'', 64)"
proof -
  have v: "atoi ''64'' = 2 ^ 6" by code_simp
  then have ex: "\<exists>k<32. atoi ''64'' = 2 ^ k" by (intro exI [of _ 6]) simp
  from parseWimpyReductionFactor_reads [of "''64''" "CHR ''[''" "[]" 256] ex v
  show ?thesis by simp
qed

end
