(* ===== verification/TestHarness.thy ===== *)
theory TestHarness
  imports ParseParameters
begin

text \<open>
  The test harness, \<^verbatim>\<open>test_common/harness/testHarness.cpp\<close>: selection of tests by the
  command line, execution one after the other or by worker threads that share a queue, results and
  exit code, and the versions read from the device strings. The OpenCL runtime and the test
  functions are parameters (the record \<open>env\<close>); messages are not modelled.
\<close>

section \<open>Versions\<close>

record version =
  m_major :: "32 word"
  m_minor :: "32 word"

abbreviation Version :: "32 word \<Rightarrow> 32 word \<Rightarrow> version" where
  "Version a b \<equiv> \<lparr>m_major = a, m_minor = b\<rparr>"

definition to_uint :: "version \<Rightarrow> 32 word" where "to_uint v = m_major v * 10 + m_minor v"

definition contains :: "string \<Rightarrow> string \<Rightarrow> bool" where "contains hay needle \<longleftrightarrow> strstr_from 0 hay needle \<noteq> None"

text \<open>\<open>None\<close> is the exception.\<close>

definition get_device_cl_version :: "string \<Rightarrow> version option" where
  "get_device_cl_version str =
     (if contains str ''OpenCL 1.0'' then Some (Version 1 0)
      else if contains str ''OpenCL 1.1'' then Some (Version 1 1)
      else if contains str ''OpenCL 1.2'' then Some (Version 1 2)
      else if contains str ''OpenCL 2.0'' then Some (Version 2 0)
      else if contains str ''OpenCL 2.1'' then Some (Version 2 1)
      else if contains str ''OpenCL 2.2'' then Some (Version 2 2)
      else if contains str ''OpenCL 3.0'' then Some (Version 3 0)
      else None)"

definition get_device_spirv_il_version :: "string \<Rightarrow> version option" where
  "get_device_spirv_il_version str =
     (if contains str ''SPIR-V_1.5'' then Some (Version 1 5)
      else if contains str ''SPIR-V_1.4'' then Some (Version 1 4)
      else if contains str ''SPIR-V_1.3'' then Some (Version 1 3)
      else if contains str ''SPIR-V_1.2'' then Some (Version 1 2)
      else if contains str ''SPIR-V_1.1'' then Some (Version 1 1)
      else if contains str ''SPIR-V_1.0'' then Some (Version 1 0)
      else None)"

section \<open>Tests\<close>

record 'f test_definition =
  func :: "'f option"
  name :: string
  min_version :: version

datatype test_status = TEST_PASS | TEST_FAIL | TEST_SKIP | TEST_SKIPPED_ITSELF

text \<open>
  \<open>il_string\<close> is the answer to the IL version query, \<open>None\<close> when the query fails (the
  same for both names of the query); the result is that of \<open>check_device_spirv_version_reported\<close>,
  where \<open>None\<close> is the exception for an unknown version.
\<close>

definition check_device_spirv_version_reported :: "string option \<Rightarrow> bool option" where
  "check_device_spirv_version_reported il_string =
     (case il_string of
        None \<Rightarrow> Some False
      | Some str \<Rightarrow> if \<not> contains str ''SPIR-V'' then Some False
          else map_option (\<lambda>_. True) (get_device_spirv_il_version str))"

definition check_spirv_compilation_readiness :: "version \<Rightarrow> bool \<Rightarrow> string option \<Rightarrow> test_status option" where
  "check_spirv_compilation_readiness ocl_version il_program il_string =
     (if to_uint ocl_version < to_uint (Version 2 1) then
        if il_program then
          map_option (\<lambda>spirv_supported. if spirv_supported then TEST_PASS else TEST_FAIL)
            (check_device_spirv_version_reported il_string)
        else Some TEST_SKIP
      else
        map_option (\<lambda>spirv_supported.
            if to_uint ocl_version \<le> to_uint (Version 2 2) \<and> \<not> spirv_supported then TEST_FAIL
            else if to_uint ocl_version > to_uint (Version 2 2) \<and> \<not> spirv_supported then TEST_SKIP
            else TEST_PASS)
          (check_device_spirv_version_reported il_string))"

section \<open>Selection\<close>

definition matching :: "'f test_definition \<Rightarrow> string \<Rightarrow> bool \<Rightarrow> bool" where
  "matching t argument isWildcard \<longleftrightarrow>
     \<not> isWildcard \<and> name t = argument \<or>
     isWildcard \<and> take (length argument - 1) (name t) = take (length argument - 1) argument"

text \<open>The loop over the tests; \<open>None\<close> is \<open>EXIT_FAILURE\<close>, with \<open>found_tests\<close> in the result.\<close>

fun find_loop ::
  "'f test_definition list \<Rightarrow> bool list \<Rightarrow> string \<Rightarrow> bool \<Rightarrow> bool \<Rightarrow> (bool \<times> bool list) option" where
  "find_loop (t # ts) (s # ss) argument isWildcard found =
     (if matching t argument isWildcard then
        if s then None
        else if func t = None then None
        else if isWildcard then map_option (apsnd ((#) True)) (find_loop ts ss argument isWildcard True)
        else Some (True, True # ss)
      else map_option (apsnd ((#) s)) (find_loop ts ss argument isWildcard found))"
| "find_loop ts ss argument isWildcard found = Some (found, [])"

definition find_matching_tests :: "'f test_definition list \<Rightarrow> bool list \<Rightarrow> string \<Rightarrow> bool \<Rightarrow> bool list option" where
  "find_matching_tests testList selected argument isWildcard =
     (case find_loop testList selected argument isWildcard False of
        Some (True, selected) \<Rightarrow> Some selected
      | _ \<Rightarrow> None)"

fun args_loop :: "'f test_definition list \<Rightarrow> string list \<Rightarrow> bool list \<Rightarrow> bool list option" where
  "args_loop testList [] selected = Some selected"
| "args_loop testList (arg # args) selected =
     (if CHR ''*'' \<in> set arg then
        Option.bind (find_matching_tests testList selected arg True) (args_loop testList args)
      else if arg = ''all'' then Some (replicate (length testList) True)
      else Option.bind (find_matching_tests testList selected arg False) (args_loop testList args))"

text \<open>\<open>args\<close> is \<open>argv\<close> without the name of the program.\<close>

definition select_tests :: "'f test_definition list \<Rightarrow> string list \<Rightarrow> bool list option" where
  "select_tests testList args =
     (if args = [] then Some (replicate (length testList) True)
      else args_loop testList args (replicate (length testList) False))"

section \<open>One test\<close>

definition subtests_to_skip_with_offline_compiler :: "string list" where
  "subtests_to_skip_with_offline_compiler =
   [''get_kernel_arg_info'', ''binary_create'', ''load_program_source'', ''load_multistring_source'',
    ''load_two_kernel_source'', ''load_null_terminated_source'', ''load_null_terminated_multi_line_source'',
    ''load_null_terminated_partial_multi_line_source'', ''load_discreet_length_source'',
    ''get_program_source'', ''get_program_build_info'', ''options_build_optimizations'',
    ''options_build_macro'', ''options_build_macro_existence'', ''options_include_directory'',
    ''options_denorm_cache'', ''preprocessor_define_udef'', ''preprocessor_include'',
    ''preprocessor_line_error'', ''preprocessor_pragma'', ''compiler_defines_for_extensions'',
    ''image_macro'', ''simple_extern_compile_only'', ''simple_embedded_header_compile'',
    ''two_file_regular_variable_access'', ''two_file_regular_struct_access'',
    ''two_file_regular_function_access'', ''simple_embedded_header_link'',
    ''execute_after_simple_compile_and_link_with_defines'',
    ''execute_after_simple_compile_and_link_with_callbacks'', ''execute_after_embedded_header_link'',
    ''execute_after_included_header_link'', ''multi_file_libraries'', ''multiple_files'',
    ''multiple_libraries'', ''multiple_files_multiple_libraries'', ''multiple_embedded_headers'',
    ''program_binary_type'', ''compile_and_link_status_options_log'', ''kernel_preprocessor_macros'',
    ''execute_after_serialize_reload_library'', ''execute_after_serialize_reload_object'',
    ''execute_after_simple_compile_and_link'', ''execute_after_simple_compile_and_link_no_device_info'',
    ''execute_after_simple_library_with_link'', ''execute_after_two_file_link'', ''simple_compile_only'',
    ''simple_compile_with_callback'', ''simple_library_only'', ''simple_library_with_callback'',
    ''simple_library_with_link'', ''simple_link_only'', ''simple_link_with_callback'',
    ''simple_static_compile_only'', ''two_file_link'', ''async_build'', ''unload_repeated'',
    ''unload_compile_unload_link'', ''unload_build_unload_create_kernel'', ''unload_link_different'',
    ''unload_build_threaded'', ''unload_build_info'', ''unload_program_binaries'', ''features_macro'',
    ''progvar_prog_scope_misc'', ''library_function'']"

definition check_functions_for_offline_compiler :: "CompilationMode \<Rightarrow> string \<Rightarrow> bool" where
  "check_functions_for_offline_compiler mode subtestname \<longleftrightarrow>
     (mode \<noteq> kOnline \<longrightarrow> subtestname \<notin> set subtests_to_skip_with_offline_compiler)"

text \<open>
  What the runtime and the tests do: whether a context and a queue can be created for a test, what
  \<open>clFinish\<close> returns after it, and what the test function itself returns.
\<close>

record 'f env =
  device_version :: version
  compilation_mode :: CompilationMode
  forceNoContextCreation :: bool
  create_context :: "string \<Rightarrow> bool"
  create_queue :: "string \<Rightarrow> bool"
  finish :: "string \<Rightarrow> int"
  call :: "'f \<Rightarrow> int"

datatype counter = gTestsPassed | gTestsFailed | gFailCount

text \<open>The status, and the counters that are incremented, in order.\<close>

definition run_function :: "'f env \<Rightarrow> 'f test_definition \<Rightarrow> test_status \<times> counter list" where
  "run_function e test =
     (case func test of
        None \<Rightarrow> (TEST_SKIP, [])
      | Some f \<Rightarrow>
          if call e f = - 100 then (TEST_SKIP, [])
          else if call e f = 0 then (TEST_PASS, [gTestsPassed])
          else (TEST_FAIL, [gTestsFailed]))"

definition callSingleTestFunction :: "'f env \<Rightarrow> 'f test_definition \<Rightarrow> test_status \<times> counter list" where
  "callSingleTestFunction e test =
     (if to_uint (min_version test) > to_uint (device_version e) then (TEST_SKIP, [])
      else if \<not> check_functions_for_offline_compiler (compilation_mode e) (name test) then (TEST_SKIP, [])
      else if forceNoContextCreation e then run_function e test
      else if \<not> create_context e (name test) \<or> \<not> create_queue e (name test)
      then (TEST_FAIL, [gFailCount, gTestsFailed])
      else
        (case run_function e test of (status, counts) \<Rightarrow>
           if finish e (name test) \<noteq> 0 then (TEST_FAIL, counts @ [gFailCount, gTestsFailed])
           else (status, counts)))"

definition increment :: "counter \<Rightarrow> (counter \<Rightarrow> int) \<Rightarrow> counter \<Rightarrow> int" where
  "increment c n = n(c := n c + 1)"

section \<open>All tests, one after the other\<close>

record harness =
  results :: "test_status list"
  counts :: "counter \<Rightarrow> int"

definition run_one :: "'f env \<Rightarrow> 'f test_definition list \<Rightarrow> nat \<Rightarrow> harness \<Rightarrow> harness" where
  "run_one e testList i h =
     (case callSingleTestFunction e (testList ! i) of (status, incs) \<Rightarrow>
        \<lparr>results = (results h)[i := status], counts = fold increment incs (counts h)\<rparr>)"

fun serial_loop :: "'f env \<Rightarrow> 'f test_definition list \<Rightarrow> bool list \<Rightarrow> nat list \<Rightarrow> harness \<Rightarrow> harness" where
  "serial_loop e testList selected [] h = h"
| "serial_loop e testList selected (i # is) h =
     serial_loop e testList selected is (if selected ! i then run_one e testList i h else h)"

definition start_harness :: "nat \<Rightarrow> harness" where
  "start_harness testNum = \<lparr>results = replicate testNum TEST_PASS, counts = (\<lambda>_. 0)\<rparr>"

definition callTestFunctions_serial :: "'f env \<Rightarrow> 'f test_definition list \<Rightarrow> bool list \<Rightarrow> harness" where
  "callTestFunctions_serial e testList selected =
     serial_loop e testList selected [0..<length testList] (start_harness (length testList))"

section \<open>All tests, by worker threads\<close>

text \<open>
  What a worker does next: take a test from the queue and store a result are done under the mutex,
  hence one step each; an increment of a counter is not protected, hence a load and a store.
\<close>

datatype runner =
    R_Fetch
  | R_Call nat
  | R_Load nat test_status "counter list"
  | R_Store nat test_status "counter list" int
  | R_Done

record system =
  gTestQueue :: "nat list"
  harness :: harness
  runners :: "nat \<Rightarrow> runner"

fun runner_at :: "runner \<Rightarrow> 'f env \<Rightarrow> 'f test_definition list \<Rightarrow> nat \<Rightarrow> system \<Rightarrow> system option" where
  "runner_at R_Fetch e testList k s =
     (case gTestQueue s of
        [] \<Rightarrow> Some (s\<lparr>runners := (runners s)(k := R_Done)\<rparr>)
      | i # q \<Rightarrow> Some (s\<lparr>gTestQueue := q, runners := (runners s)(k := R_Call i)\<rparr>))"
| "runner_at (R_Call i) e testList k s =
     (case callSingleTestFunction e (testList ! i) of (status, incs) \<Rightarrow>
        Some (s\<lparr>runners := (runners s)(k := R_Load i status incs)\<rparr>))"
| "runner_at (R_Load i status []) e testList k s =
     Some (s\<lparr>harness := (harness s)\<lparr>results := (results (harness s))[i := status]\<rparr>,
        runners := (runners s)(k := R_Fetch)\<rparr>)"
| "runner_at (R_Load i status (c # incs)) e testList k s =
     Some (s\<lparr>runners := (runners s)(k := R_Store i status (c # incs) (counts (harness s) c))\<rparr>)"
| "runner_at (R_Store i status incs n) e testList k s =
     Some (s\<lparr>harness := (harness s)\<lparr>counts := (counts (harness s))(hd incs := n + 1)\<rparr>,
        runners := (runners s)(k := R_Load i status (tl incs))\<rparr>)"
| "runner_at R_Done e testList k s = None"

definition queue_tests :: "bool list \<Rightarrow> nat \<Rightarrow> nat list" where
  "queue_tests selected testNum = filter (\<lambda>i. selected ! i) [0..<testNum]"

definition spawn :: "'f test_definition list \<Rightarrow> bool list \<Rightarrow> system" where
  "spawn testList selected =
     \<lparr>gTestQueue = queue_tests selected (length testList), harness = start_harness (length testList),
      runners = (\<lambda>_. R_Fetch)\<rparr>"

text \<open>A schedule is the list of the workers that move, among \<open>numWorkerThreads\<close>.\<close>

fun run_schedule :: "'f env \<Rightarrow> 'f test_definition list \<Rightarrow> nat \<Rightarrow> nat list \<Rightarrow> system \<Rightarrow> system option" where
  "run_schedule e testList numWorkerThreads [] s = Some s"
| "run_schedule e testList numWorkerThreads (k # ks) s =
     (if k < numWorkerThreads
      then Option.bind (runner_at (runners s k) e testList k s) (run_schedule e testList numWorkerThreads ks)
      else None)"

text \<open>All workers have been joined.\<close>

definition joined :: "nat \<Rightarrow> system \<Rightarrow> bool" where
  "joined numWorkerThreads s \<longleftrightarrow> list_all (\<lambda>k. runners s k = R_Done) [0..<numWorkerThreads]"

section \<open>The exit code\<close>

definition bad :: "test_status \<Rightarrow> bool" where "bad result \<longleftrightarrow> result \<notin> {TEST_PASS, TEST_SKIP}"

text \<open>\<open>saved\<close> is the result of writing the JSON file; \<open>True\<close> is \<open>EXIT_SUCCESS\<close>.\<close>

definition exit_code :: "bool \<Rightarrow> test_status list \<Rightarrow> bool" where
  "exit_code saved resultTestList = (if list_ex bad resultTestList then False else saved)"

definition parseAndCallCommandLineTests :: "'f env \<Rightarrow> 'f test_definition list \<Rightarrow> bool \<Rightarrow> string list \<Rightarrow> bool" where
  "parseAndCallCommandLineTests e testList saved args =
     (case select_tests testList args of
        None \<Rightarrow> False
      | Some selected \<Rightarrow> exit_code saved (results (callTestFunctions_serial e testList selected)))"

text \<open>What is printed about the tests: \<open>(failed, count)\<close>.\<close>

definition print_results :: "int \<Rightarrow> int \<Rightarrow> int \<times> int" where
  "print_results failed count = (failed, if count < failed then failed else count)"

section \<open>The results\<close>

definition status_of :: "'f env \<Rightarrow> 'f test_definition list \<Rightarrow> nat \<Rightarrow> test_status" where
  "status_of e testList i = fst (callSingleTestFunction e (testList ! i))"

lemma run_one_results: "results (run_one e testList i h) = (results h)[i := status_of e testList i]"
  by (simp add: run_one_def status_of_def split: prod.split)

lemma serial_loop_results:
  "distinct is \<Longrightarrow> \<forall>i\<in>set is. i < length (results h) \<Longrightarrow> j < length (results h) \<Longrightarrow>
   length (results (serial_loop e testList selected is h)) = length (results h) \<and>
   results (serial_loop e testList selected is h) ! j =
     (if j \<in> set is \<and> selected ! j then status_of e testList j else results h ! j)"
proof (induction "is" arbitrary: h)
  case (Cons i "is")
  then show ?case by (cases "j = i") (auto simp: run_one_results)
qed simp

lemma start_results [simp]: "results (start_harness n) = replicate n TEST_PASS"
  by (simp add: start_harness_def)

lemma serial_results:
  "results (callTestFunctions_serial e testList selected) =
     map (\<lambda>i. if selected ! i then status_of e testList i else TEST_PASS) [0..<length testList]"
proof (cases "testList = []")
  case False
  let ?n = "length testList"
  have "length (results (callTestFunctions_serial e testList selected)) = ?n"
    using serial_loop_results [of "[0..<?n]" "start_harness ?n" 0 e testList selected] False
    by (simp add: callTestFunctions_serial_def)
  moreover have "results (callTestFunctions_serial e testList selected) ! j =
      (if selected ! j then status_of e testList j else TEST_PASS)" if "j < ?n" for j
    using serial_loop_results [of "[0..<?n]" "start_harness ?n" j e testList selected] that
    by (simp add: callTestFunctions_serial_def)
  ultimately show ?thesis by (intro nth_equalityI) simp_all
qed (simp add: callTestFunctions_serial_def)

section \<open>Worker threads\<close>

fun holds :: "runner \<Rightarrow> nat option" where
  "holds (R_Call i) = Some i" | "holds (R_Load i st incs) = Some i" | "holds (R_Store i st incs n) = Some i"
| "holds r = None"

fun status_ok :: "'f env \<Rightarrow> 'f test_definition list \<Rightarrow> runner \<Rightarrow> bool" where
  "status_ok e ts (R_Load i st incs) \<longleftrightarrow> st = status_of e ts i \<and> length incs \<le> 3"
| "status_ok e ts (R_Store i st incs n) \<longleftrightarrow> st = status_of e ts i \<and> incs \<noteq> [] \<and> length incs \<le> 3"
| "status_ok e ts r \<longleftrightarrow> True"

text \<open>
  A selected test is queued, in the hands of a worker, or has its result; nothing else changes.
\<close>

definition inv_runners :: "'f env \<Rightarrow> 'f test_definition list \<Rightarrow> bool list \<Rightarrow> nat \<Rightarrow> system \<Rightarrow> bool" where
  "inv_runners e ts selected N s \<longleftrightarrow>
     length (results (harness s)) = length ts \<and>
     set (gTestQueue s) \<subseteq> set (queue_tests selected (length ts)) \<and>
     (\<forall>k<N. \<forall>i. holds (runners s k) = Some i \<longrightarrow> i \<in> set (queue_tests selected (length ts))) \<and>
     (\<forall>k<N. status_ok e ts (runners s k)) \<and>
     (\<forall>k<N. runners s k = R_Done \<longrightarrow> gTestQueue s = []) \<and>
     (\<forall>i<length ts. i \<notin> set (queue_tests selected (length ts)) \<longrightarrow> results (harness s) ! i = TEST_PASS) \<and>
     (\<forall>i\<in>set (queue_tests selected (length ts)).
        i \<in> set (gTestQueue s) \<or> (\<exists>k<N. holds (runners s k) = Some i) \<or> results (harness s) ! i = status_of e ts i)"

definition work :: "runner \<Rightarrow> nat" where
  "work r = (case r of R_Fetch \<Rightarrow> 1 | R_Call i \<Rightarrow> 9 | R_Load i st incs \<Rightarrow> 2 + 2 * length incs
     | R_Store i st incs n \<Rightarrow> 1 + 2 * length incs | R_Done \<Rightarrow> 0)"

definition total_work :: "nat \<Rightarrow> system \<Rightarrow> nat" where
  "total_work N s = 9 * length (gTestQueue s) + (\<Sum>k<N. work (runners s k))"

lemma call_increments: "length (snd (callSingleTestFunction e t)) \<le> 3"
  by (auto simp: callSingleTestFunction_def run_function_def split: option.splits prod.splits if_splits)

lemma queue_tests_set: "set (queue_tests selected n) = {i. i < n \<and> selected ! i}"
  by (auto simp: queue_tests_def)

lemma spawn_inv: "inv_runners e ts selected N (spawn ts selected)"
  by (auto simp: inv_runners_def spawn_def)

lemma runner_frame:
  "runner_at r e ts k s = Some s' \<Longrightarrow> j \<noteq> k \<Longrightarrow> runners s' j = runners s j"
  by (cases "(r, e, ts, k, s)" rule: runner_at.cases) (auto split: list.splits prod.splits)

lemma inv_runnersD:
  assumes "inv_runners e ts selected N s"
  shows "length (results (harness s)) = length ts"
    "i \<in> set (gTestQueue s) \<Longrightarrow> i < length ts \<and> selected ! i"
    "k < N \<Longrightarrow> holds (runners s k) = Some i \<Longrightarrow> i < length ts \<and> selected ! i"
    "k < N \<Longrightarrow> status_ok e ts (runners s k)"
    "k < N \<Longrightarrow> runners s k = R_Done \<Longrightarrow> gTestQueue s = []"
    "i < length ts \<Longrightarrow> \<not> selected ! i \<Longrightarrow> results (harness s) ! i = TEST_PASS"
    "i < length ts \<Longrightarrow> selected ! i \<Longrightarrow>
      i \<in> set (gTestQueue s) \<or> (\<exists>k<N. holds (runners s k) = Some i) \<or> results (harness s) ! i = status_of e ts i"
  using assms unfolding inv_runners_def queue_tests_set by blast+

lemma inv_update:
  assumes inv: "inv_runners e ts selected N s" and k: "k < N" and frame: "\<And>j. j \<noteq> k \<Longrightarrow> runners s' j = runners s j"
    and len: "length (results (harness s')) = length (results (harness s))"
    and queue: "set (gTestQueue s') \<subseteq> set (gTestQueue s)"
    and status: "status_ok e ts (runners s' k)"
    and fin: "runners s' k = R_Done \<Longrightarrow> gTestQueue s' = []"
    and held: "\<And>i. holds (runners s' k) = Some i \<Longrightarrow> holds (runners s k) = Some i \<or> i \<in> set (gTestQueue s)"
    and same: "\<And>i. i < length ts \<Longrightarrow> results (harness s') ! i = results (harness s) ! i \<or>
      results (harness s') ! i = status_of e ts i \<and> holds (runners s k) = Some i"
    and take: "\<And>i. i \<in> set (gTestQueue s) \<Longrightarrow> i \<in> set (gTestQueue s') \<or> holds (runners s' k) = Some i"
    and keep: "\<And>i. i < length ts \<Longrightarrow> holds (runners s k) = Some i \<Longrightarrow>
      holds (runners s' k) = Some i \<or> results (harness s') ! i = status_of e ts i"
  shows "inv_runners e ts selected N s'"
proof -
  note D = inv_runnersD [OF inv]
  have 1: "i < length ts \<and> selected ! i" if "i \<in> set (gTestQueue s')" for i using D(2) queue that by blast
  have 2: "i < length ts \<and> selected ! i" if "j < N" "holds (runners s' j) = Some i" for i j
    using D(3) [OF that(1)] D(3) [OF k] held [of i] D(2) frame [of j] that(2) by (cases "j = k") auto
  have 3: "status_ok e ts (runners s' j)" if "j < N" for j
    using D(4) [OF that] frame [of j] status by (cases "j = k") auto
  have 4: "gTestQueue s' = []" if "j < N" "runners s' j = R_Done" for j
    using D(5) [OF that(1)] frame [of j] fin queue that(2) by (cases "j = k") auto
  have 5: "results (harness s') ! i = TEST_PASS" if "i < length ts" "\<not> selected ! i" for i
    using D(6) [OF that] same [OF that(1)] D(3) [OF k] that(2) by auto
  have 6: "i \<in> set (gTestQueue s') \<or> (\<exists>j<N. holds (runners s' j) = Some i) \<or> results (harness s') ! i = status_of e ts i"
    if i: "i < length ts" "selected ! i" for i
  proof -
    consider "i \<in> set (gTestQueue s)" | "holds (runners s k) = Some i"
      | j where "j < N" "j \<noteq> k" "holds (runners s j) = Some i" | "results (harness s) ! i = status_of e ts i"
      using D(7) [OF i] by blast
    then show ?thesis
    proof cases
      case 3
      then show ?thesis using frame [of j] by auto
    qed (use take k keep [OF i(1)] same [OF i(1)] in auto)
  qed
  show ?thesis unfolding inv_runners_def queue_tests_set using D(1) len 1 2 3 4 5 6 by auto
qed

lemma runner_inv:
  assumes inv: "inv_runners e ts selected N s" and step: "runner_at (runners s k) e ts k s = Some s'" and k: "k < N"
  shows "inv_runners e ts selected N s'"
proof (cases "runners s k")
  case R_Fetch
  then show ?thesis
    by (intro inv_update [OF inv k]) (use step in \<open>auto split: list.splits\<close>)
next
  case (R_Call i)
  then show ?thesis
    by (intro inv_update [OF inv k])
      (use step call_increments [of e "ts ! i"] in \<open>auto simp: status_of_def split: prod.splits\<close>)
next
  case (R_Load i st incs)
  then show ?thesis using inv_runnersD(1) [OF inv] inv_runnersD(4) [OF inv k] inv_runnersD(3) [OF inv k, of i]
    by (intro inv_update [OF inv k]; cases incs) (use step in \<open>auto simp: nth_list_update split: if_splits\<close>)
next
  case (R_Store i st incs n)
  then show ?thesis using inv_runnersD(4) [OF inv k]
    by (intro inv_update [OF inv k]; cases incs) (use step in auto)
qed (use step in simp)

lemma sum_less:
  fixes N :: nat
  assumes "k < N" "\<And>j. j \<noteq> k \<Longrightarrow> f' j = f j" "f' k + c < f k + (d :: nat)"
  shows "(\<Sum>j<N. f' j) + c < (\<Sum>j<N. f j) + d"
proof -
  have "(\<Sum>j<N. v j) = v k + (\<Sum>j\<in>{..<N} - {k}. v j)" for v :: "nat \<Rightarrow> nat"
    using assms(1) by (intro sum.remove) auto
  moreover have "(\<Sum>j\<in>{..<N} - {k}. f' j) = (\<Sum>j\<in>{..<N} - {k}. f j)" by (intro sum.cong) (auto simp: assms(2))
  ultimately show ?thesis using assms(3) by simp
qed

lemma runner_work:
  assumes inv: "inv_runners e ts selected N s" and step: "runner_at (runners s k) e ts k s = Some s'" and k: "k < N"
  shows "total_work N s' < total_work N s"
proof -
  have "work (runners s' k) + 9 * length (gTestQueue s') < work (runners s k) + 9 * length (gTestQueue s)"
  proof (cases "runners s k")
    case R_Fetch
    then show ?thesis using step by (auto simp: work_def split: list.splits)
  next
    case (R_Call i)
    then show ?thesis using step call_increments [of e "ts ! i"] by (auto simp: work_def split: prod.splits)
  next
    case (R_Load i st incs)
    then show ?thesis using step by (cases incs) (auto simp: work_def)
  next
    case (R_Store i st incs n)
    then show ?thesis using step inv_runnersD(4) [OF inv k] by (cases incs) (auto simp: work_def)
  qed (use step in simp)
  then have "(\<Sum>j<N. work (runners s' j)) + 9 * length (gTestQueue s') < (\<Sum>j<N. work (runners s j)) + 9 * length (gTestQueue s)"
    using runner_frame [OF step] by (intro sum_less [OF k]) auto
  then show ?thesis by (simp add: total_work_def)
qed

lemma schedule_inv:
  assumes "run_schedule e ts N ks s = Some s'" "inv_runners e ts selected N s"
  shows "inv_runners e ts selected N s' \<and> length ks + total_work N s' \<le> total_work N s"
  using assms
proof (induction ks arbitrary: s)
  case (Cons k ks)
  then obtain s1 where s1: "k < N" "runner_at (runners s k) e ts k s = Some s1" "run_schedule e ts N ks s1 = Some s'"
    by (auto simp: bind_eq_Some_conv split: if_splits)
  then show ?case using Cons.IH [OF s1(3) runner_inv [OF Cons.prems(2) s1(2,1)]] runner_work [OF Cons.prems(2) s1(2,1)]
    by simp
qed simp

lemma runner_can_move: "r \<noteq> R_Done \<Longrightarrow> runner_at r e ts k s \<noteq> None"
  by (cases "(r, e, ts, k, s)" rule: runner_at.cases) (auto split: list.splits prod.splits)

text \<open>
  C16. Run by any number of worker threads in any order, the tests end with the results of running
  them one after the other; the workers take a bounded number of steps, and one of them can move
  until all have ended.
\<close>

theorem worker_threads_equal_serial:
  assumes "0 < N" "run_schedule e testList N ks (spawn testList selected) = Some s"
  shows "length ks \<le> 9 * length (queue_tests selected (length testList)) + N \<and>
    (\<not> joined N s \<longrightarrow> (\<exists>k<N. run_schedule e testList N [k] s \<noteq> None)) \<and>
    (joined N s \<longrightarrow> results (harness s) = results (callTestFunctions_serial e testList selected))"
proof -
  have I: "inv_runners e testList selected N s" and
    W: "length ks + total_work N s \<le> total_work N (spawn testList selected)"
    using schedule_inv [OF assms(2) spawn_inv] by blast+
  have "total_work N (spawn testList selected) = 9 * length (queue_tests selected (length testList)) + N"
    by (simp add: total_work_def spawn_def work_def)
  then have 1: "length ks \<le> 9 * length (queue_tests selected (length testList)) + N" using W by simp
  have 2: "\<exists>k<N. run_schedule e testList N [k] s \<noteq> None" if nj: "\<not> joined N s"
  proof -
    obtain k where k: "k < N" "runners s k \<noteq> R_Done" using nj by (auto simp: joined_def list_all_iff)
    then show ?thesis using runner_can_move [OF k(2), of e testList k s] by (intro exI [of _ k]) auto
  qed
  have 3: "results (harness s) = results (callTestFunctions_serial e testList selected)" if j: "joined N s"
  proof -
    have fin: "runners s k = R_Done" if "k < N" for k using j that by (simp add: joined_def list_all_iff)
    then have "gTestQueue s = []" using inv_runnersD(5) [OF I assms(1)] assms(1) by blast
    then have "results (harness s) ! i = (if selected ! i then status_of e testList i else TEST_PASS)"
      if "i < length testList" for i
      using inv_runnersD(6,7) [OF I that] fin by auto
    then show ?thesis using inv_runnersD(1) [OF I] unfolding serial_results by (intro nth_equalityI) simp_all
  qed
  show ?thesis using 1 2 3 by blast
qed

theorem worker_threads_equal_serial_witness:
  "\<exists>s. run_schedule \<lparr>device_version = Version 3 0, compilation_mode = kOnline, forceNoContextCreation = True,
        create_context = (\<lambda>_. True), create_queue = (\<lambda>_. True), finish = (\<lambda>_. 0), call = (\<lambda>n. n)\<rparr>
      [\<lparr>func = Some 0, name = ''a'', min_version = Version 1 0\<rparr>, \<lparr>func = Some (1::int), name = ''b'', min_version = Version 1 0\<rparr>]
      2 [0, 1, 1, 0, 1, 1, 0, 0, 1, 0, 1, 0]
      (spawn [\<lparr>func = Some 0, name = ''a'', min_version = Version 1 0\<rparr>, \<lparr>func = Some (1::int), name = ''b'', min_version = Version 1 0\<rparr>]
        [True, True]) = Some s \<and> results (harness s) = [TEST_PASS, TEST_FAIL]"
  (is "\<exists>s. run_schedule ?e ?ts 2 ?ks (spawn ?ts ?sel) = Some s \<and> _")
proof -
  have "map_option (joined 2) (run_schedule ?e ?ts 2 ?ks (spawn ?ts ?sel)) = Some True" by code_simp
  then obtain s where s: "run_schedule ?e ?ts 2 ?ks (spawn ?ts ?sel) = Some s" "joined 2 s" by auto
  have "results (callTestFunctions_serial ?e ?ts ?sel) = [TEST_PASS, TEST_FAIL]" by code_simp
  then show ?thesis using worker_threads_equal_serial [OF _ s(1)] s by auto
qed

text \<open>
  The counters are not protected: two workers that finish a test at the same time can count
  one of them only, so that of two passed tests one is reported (the results are not affected).
\<close>

theorem worker_threads_lose_counts:
  "map_option (\<lambda>s. (joined 2 s, results (harness s), counts (harness s) gTestsPassed))
     (run_schedule \<lparr>device_version = Version 3 0, compilation_mode = kOnline, forceNoContextCreation = True,
        create_context = (\<lambda>_. True), create_queue = (\<lambda>_. True), finish = (\<lambda>_. 0), call = (\<lambda>_. 0)\<rparr>
      [\<lparr>func = Some (), name = ''a'', min_version = Version 1 0\<rparr>, \<lparr>func = Some (), name = ''b'', min_version = Version 1 0\<rparr>]
      2 [0, 1, 0, 1, 0, 1, 0, 1, 0, 1, 0, 1]
      (spawn [\<lparr>func = Some (), name = ''a'', min_version = Version 1 0\<rparr>, \<lparr>func = Some (), name = ''b'', min_version = Version 1 0\<rparr>]
        [True, True])) = Some (True, [TEST_PASS, TEST_PASS], 1)"
  by code_simp

section \<open>The exit code\<close>


section \<open>Selection\<close>

definition hits :: "string \<Rightarrow> 'f test_definition \<Rightarrow> bool" where
  "hits arg t \<longleftrightarrow> matching t arg (CHR ''*'' \<in> set arg)"

lemma find_loop_wild:
  "find_loop ts (map p ts) arg True found =
     (if \<exists>t\<in>set ts. matching t arg True \<and> (p t \<or> func t = None) then None
      else Some (found \<or> (\<exists>t\<in>set ts. matching t arg True), map (\<lambda>t. p t \<or> matching t arg True) ts))"
  by (induction ts arbitrary: found) auto

lemma find_loop_exact:
  "distinct (map name ts) \<Longrightarrow>
   find_loop ts (map p ts) arg False found =
     (if \<exists>t\<in>set ts. matching t arg False \<and> (p t \<or> func t = None) then None
      else Some (found \<or> (\<exists>t\<in>set ts. matching t arg False), map (\<lambda>t. p t \<or> matching t arg False) ts))"
proof (induction ts arbitrary: found)
  case (Cons t ts)
  have other: "\<not> matching u arg False" if "matching t arg False" "u \<in> set ts" for u
    using that Cons.prems by (auto simp: matching_def) (metis image_eqI)
  then have "map (\<lambda>u. p u \<or> matching u arg False) ts = map p ts" if "matching t arg False"
    using that by simp
  then show ?case using Cons other by auto
qed simp

lemma find_matching:
  assumes "distinct (map name ts)"
  shows "find_matching_tests ts (map p ts) arg (CHR ''*'' \<in> set arg) =
    (if (\<exists>t\<in>set ts. hits arg t) \<and> (\<forall>t\<in>set ts. hits arg t \<longrightarrow> \<not> p t \<and> func t \<noteq> None)
     then Some (map (\<lambda>t. p t \<or> hits arg t) ts) else None)"
  unfolding find_matching_tests_def hits_def
  by (cases "CHR ''*'' \<in> set arg") (auto simp: find_loop_wild find_loop_exact [OF assms])

fun acceptable :: "'f test_definition list \<Rightarrow> ('f test_definition \<Rightarrow> bool) \<Rightarrow> string list \<Rightarrow> bool" where
  "acceptable ts p [] = True"
| "acceptable ts p (arg # args) \<longleftrightarrow>
     (\<exists>t\<in>set ts. hits arg t) \<and> (\<forall>t\<in>set ts. hits arg t \<longrightarrow> \<not> p t \<and> func t \<noteq> None) \<and>
     acceptable ts (\<lambda>t. p t \<or> hits arg t) args"

definition before_all :: "string list \<Rightarrow> string list" where
  "before_all args = takeWhile (\<lambda>arg. arg \<noteq> ''all'') args"

lemma bind_if: "Option.bind (if C then Some x else None) f = (if C then f x else None)"
  by simp

lemma args_loop_spec:
  "distinct (map name ts) \<Longrightarrow>
   args_loop ts args (map p ts) =
     (if acceptable ts p (before_all args) then
        Some (if ''all'' \<in> set args then replicate (length ts) True
              else map (\<lambda>t. p t \<or> (\<exists>arg\<in>set args. hits arg t)) ts)
      else None)"
proof (induction args arbitrary: p)
  case (Cons arg args)
  show ?case
  proof (cases "arg = ''all''")
    case False
    have "args_loop ts (arg # args) (map p ts) =
        Option.bind (find_matching_tests ts (map p ts) arg (CHR ''*'' \<in> set arg)) (args_loop ts args)"
      using False by simp
    also have "\<dots> = (if (\<exists>t\<in>set ts. hits arg t) \<and> (\<forall>t\<in>set ts. hits arg t \<longrightarrow> \<not> p t \<and> func t \<noteq> None)
        then args_loop ts args (map (\<lambda>t. p t \<or> hits arg t) ts) else None)"
      unfolding find_matching [OF Cons.prems] by (rule bind_if)
    also have "\<dots> = (if (\<exists>t\<in>set ts. hits arg t) \<and> (\<forall>t\<in>set ts. hits arg t \<longrightarrow> \<not> p t \<and> func t \<noteq> None) \<and>
          acceptable ts (\<lambda>t. p t \<or> hits arg t) (before_all args)
        then Some (if ''all'' \<in> set args then replicate (length ts) True
              else map (\<lambda>t. (p t \<or> hits arg t) \<or> (\<exists>arg\<in>set args. hits arg t)) ts) else None)"
      by (simp only: Cons.IH [OF Cons.prems] if_if_eq_conj conj_assoc)
    finally show ?thesis using False by (simp add: before_all_def disj_assoc)
  qed (simp add: before_all_def)
qed (simp add: before_all_def)

lemma acceptable_one:
  fixes n :: nat
  assumes "n = 0 \<longleftrightarrow> \<not> later"
  shows "(now \<longrightarrow> \<not> p \<and> ok) \<and> (later \<longrightarrow> \<not> (p \<or> now) \<and> ok \<and> n = 1) \<longleftrightarrow>
    (now \<or> later \<longrightarrow> \<not> p \<and> ok \<and> (if now then Suc n else n) = 1)"
  using assms by auto

lemma acceptable_iff:
  "acceptable ts p args \<longleftrightarrow>
     (\<forall>arg\<in>set args. \<exists>t\<in>set ts. hits arg t) \<and>
     (\<forall>t\<in>set ts. (\<exists>arg\<in>set args. hits arg t) \<longrightarrow>
        \<not> p t \<and> func t \<noteq> None \<and> length (filter (\<lambda>arg. hits arg t) args) = 1)"
proof (induction args arbitrary: p)
  case (Cons arg args)
  have one: "(hits arg t \<longrightarrow> \<not> p t \<and> func t \<noteq> None) \<and>
      ((\<exists>a\<in>set args. hits a t) \<longrightarrow> \<not> (p t \<or> hits arg t) \<and> func t \<noteq> None \<and> length (filter (\<lambda>a. hits a t) args) = 1)
    \<longleftrightarrow> ((\<exists>a\<in>set (arg # args). hits a t) \<longrightarrow>
        \<not> p t \<and> func t \<noteq> None \<and> length (filter (\<lambda>a. hits a t) (arg # args)) = 1)" for t
    using acceptable_one [of "length (filter (\<lambda>a. hits a t) args)" "\<exists>a\<in>set args. hits a t" "hits arg t" "p t" "func t \<noteq> None"]
    by (simp add: filter_empty_conv)
  have "(\<forall>t\<in>set ts. hits arg t \<longrightarrow> \<not> p t \<and> func t \<noteq> None) \<and>
      (\<forall>t\<in>set ts. (\<exists>a\<in>set args. hits a t) \<longrightarrow>
         \<not> (p t \<or> hits arg t) \<and> func t \<noteq> None \<and> length (filter (\<lambda>a. hits a t) args) = 1)
    \<longleftrightarrow> (\<forall>t\<in>set ts. (\<exists>a\<in>set (arg # args). hits a t) \<longrightarrow>
        \<not> p t \<and> func t \<noteq> None \<and> length (filter (\<lambda>a. hits a t) (arg # args)) = 1)"
    using one by blast
  moreover have "(\<forall>a\<in>set (arg # args). \<exists>t\<in>set ts. hits a t) \<longleftrightarrow>
      (\<exists>t\<in>set ts. hits arg t) \<and> (\<forall>a\<in>set args. \<exists>t\<in>set ts. hits a t)" by simp
  ultimately show ?case unfolding acceptable.simps Cons.IH by blast
qed simp

text \<open>
  C17. Which tests the arguments select: those some argument names or, as a prefix before its last
  character, covers if it has an asterisk, or all if \<open>all\<close> is among them. The selection fails
  exactly when an argument (before \<open>all\<close>) matches no test, two match the same one, or one
  matches a test without a function.
\<close>

theorem select_tests_spec:
  assumes "distinct (map name testList)" "args \<noteq> []"
  shows "select_tests testList args =
    (if (\<forall>arg\<in>set (before_all args). \<exists>t\<in>set testList. hits arg t) \<and>
        (\<forall>t\<in>set testList. (\<exists>arg\<in>set (before_all args). hits arg t) \<longrightarrow>
           func t \<noteq> None \<and> length (filter (\<lambda>arg. hits arg t) (before_all args)) = 1)
     then Some (if ''all'' \<in> set args then replicate (length testList) True
                else map (\<lambda>t. \<exists>arg\<in>set args. hits arg t) testList)
     else None)"
proof -
  have "select_tests testList args = args_loop testList args (map (\<lambda>_. False) testList)"
    using assms(2) by (simp add: select_tests_def map_replicate_const)
  then show ?thesis unfolding args_loop_spec [OF assms(1)] acceptable_iff
    by (simp only: simp_thms not_False_eq_True)
qed

theorem select_tests_spec_witness:
  "select_tests [\<lparr>func = Some (), name = ''vload'', min_version = Version 1 0\<rparr>,
      \<lparr>func = Some (), name = ''vstore'', min_version = Version 1 0\<rparr>] [''vl*''] = Some [True, False]"
proof -
  let ?ts = "[\<lparr>func = Some (), name = ''vload'', min_version = Version 1 0\<rparr>,
      \<lparr>func = Some (), name = ''vstore'', min_version = Version 1 0\<rparr>]"
  have "distinct (map name ?ts)" by simp
  from select_tests_spec [OF this, of "[''vl*'']"] show ?thesis
    by (simp add: before_all_def hits_def matching_def)
qed

section \<open>The device version\<close>

definition to_string :: "version \<Rightarrow> string" where
  "to_string v = decimal (unat (m_major v)) @ ''.'' @ decimal (unat (m_minor v))"

definition known_versions :: "version list" where
  "known_versions = [Version 1 0, Version 1 1, Version 1 2, Version 2 0, Version 2 1, Version 2 2, Version 3 0]"

lemma strstr_shift: "strstr_from k hay n = None \<longleftrightarrow> strstr_from j hay n = None"
proof (induction hay arbitrary: k j)
  case (Cons c cs)
  show ?case unfolding strstr_from.simps using Cons.IH [of "Suc k" "Suc j"] by simp
qed simp

lemma strstr_longer: "strstr_from k hay n = None \<Longrightarrow> strstr_from k hay (n @ m) = None"
proof (induction hay arbitrary: k)
  case (Cons c cs)
  have "take (length n) (c # cs) = n" if "take (length (n @ m)) (c # cs) = n @ m"
    using arg_cong [OF that, of "take (length n)"] by simp
  then show ?case using Cons by (auto split: if_splits)
qed (simp split: if_splits)

lemma vendor_plain:
  assumes "\<not> contains vendor ''OpenCL ''"
  shows "strstr_from k vendor (''OpenCL '' @ m) = None"
  using assms strstr_longer [of k vendor "''OpenCL ''" m] strstr_shift [of 0 vendor "''OpenCL ''" k]
  by (simp add: contains_def)

lemma strstr_skip:
  "c \<notin> set pre \<Longrightarrow> strstr_from k (pre @ hay) (c # n) = None \<longleftrightarrow> strstr_from k hay (c # n) = None"
proof (induction pre arbitrary: k)
  case (Cons d pre)
  then have "strstr_from k ((d # pre) @ hay) (c # n) = strstr_from (Suc k) (pre @ hay) (c # n)" by auto
  then show ?case using Cons strstr_shift by auto
qed simp

lemma announced_version:
  assumes "\<not> contains vendor ''OpenCL ''" "a \<noteq> CHR ''O''" "b \<noteq> CHR ''O''"
  shows "contains (''OpenCL '' @ [a, CHR ''.'', b] @ '' '' @ vendor) (''OpenCL '' @ [c, CHR ''.'', d]) \<longleftrightarrow> a = c \<and> b = d"
proof -
  let ?n = "''penCL '' @ [c, CHR ''.'', d]" and ?rest = "''penCL '' @ [a, CHR ''.'', b] @ '' ''"
  have "strstr_from (Suc 0) vendor (CHR ''O'' # ?n) = None"
    using vendor_plain [OF assms(1), of "Suc 0" "[c, CHR ''.'', d]"] by simp
  moreover have "CHR ''O'' \<notin> set ?rest" using assms(2,3) by simp
  ultimately have "strstr_from (Suc 0) (?rest @ vendor) (CHR ''O'' # ?n) = None"
    using strstr_skip [of "CHR ''O''" ?rest "Suc 0" vendor ?n] by blast
  then show ?thesis by (auto simp: contains_def)
qed

lemma known_strings:
  "to_string (Version 1 0) = ''1.0''" "to_string (Version 1 1) = ''1.1''" "to_string (Version 1 2) = ''1.2''"
  "to_string (Version 2 0) = ''2.0''" "to_string (Version 2 1) = ''2.1''" "to_string (Version 2 2) = ''2.2''"
  "to_string (Version 3 0) = ''3.0''"
  by code_simp+

text \<open>
  The version a device announces as \<open>OpenCL\<close>, the version and a vendor text is read back, for every
  version the harness knows and every vendor text without another \<open>OpenCL\<close>.
\<close>

theorem device_version_roundtrip:
  assumes "v \<in> set known_versions" "\<not> contains vendor ''OpenCL ''"
  shows "get_device_cl_version (''OpenCL '' @ to_string v @ '' '' @ vendor) = Some v"
proof -
  note at = announced_version [OF assms(2)]
  consider "v = Version 1 0" | "v = Version 1 1" | "v = Version 1 2" | "v = Version 2 0" | "v = Version 2 1"
    | "v = Version 2 2" | "v = Version 3 0"
    using assms(1) unfolding known_versions_def by auto
  then show ?thesis
    by cases (simp_all add: get_device_cl_version_def known_strings at [simplified])
qed

theorem device_version_roundtrip_witness:
  "get_device_cl_version ''OpenCL 2.1 Acme'' = Some (Version 2 1)"
proof -
  have "\<not> contains ''Acme'' ''OpenCL ''" by code_simp
  from device_version_roundtrip [of "Version 2 1", OF _ this] show ?thesis
    by (simp add: known_versions_def known_strings)
qed

text \<open>
  A vendor text that mentions another version wins: a device of version 3.0 whose text names
  compatibility with 1.2 is taken for a device of version 1.2.
\<close>

theorem device_version_vendor_text:
  "get_device_cl_version ''OpenCL 3.0 Acme (OpenCL 1.2 compatible)'' = Some (Version 1 2)"
  by code_simp


end
