(* ===== verification/ImageFormats.thy ===== *)
theory ImageFormats
  imports TestHarness
begin

text \<open>
  Image formats, from \<^verbatim>\<open>test_common/harness/imageHelpers.cpp\<close> and the names in
  \<^verbatim>\<open>errorHelpers.cpp\<close>: sizes, channel counts, ranges, alignment, the lists of
  required formats. The channel types and orders are those the sources name, without the ones under
  \<^verbatim>\<open>#ifdef\<close> for Apple's headers; their numbers come from the OpenCL headers and
  do not matter here.
\<close>

section \<open>Channel types and orders\<close>

datatype channel_type =
    CL_SNORM_INT8 | CL_SNORM_INT16 | CL_UNORM_INT8 | CL_UNORM_INT16 | CL_UNORM_INT24
  | CL_UNORM_SHORT_565 | CL_UNORM_SHORT_555 | CL_UNORM_INT_101010 | CL_UNORM_INT_101010_2
  | CL_UNORM_INT_2_101010_EXT | CL_SIGNED_INT8 | CL_SIGNED_INT16 | CL_SIGNED_INT32
  | CL_UNSIGNED_INT8 | CL_UNSIGNED_INT16 | CL_UNSIGNED_INT32 | CL_HALF_FLOAT | CL_FLOAT
  | CL_UNSIGNED_INT_RAW10_EXT | CL_UNSIGNED_INT_RAW12_EXT

datatype channel_order =
    CL_R | CL_A | CL_Rx | CL_RG | CL_RA | CL_RGx | CL_RGB | CL_RGBx | CL_RGBA | CL_BGRA | CL_ARGB
  | CL_ABGR | CL_INTENSITY | CL_LUMINANCE | CL_DEPTH | CL_DEPTH_STENCIL | CL_sRGB | CL_sRGBx
  | CL_sRGBA | CL_sBGRA

record image_format =
  image_channel_order :: channel_order
  image_channel_data_type :: channel_type

abbreviation format_of :: "channel_order \<Rightarrow> channel_type \<Rightarrow> image_format" where
  "format_of ord ty \<equiv> \<lparr>image_channel_order = ord, image_channel_data_type = ty\<rparr>"

datatype mem_object_type =
    CL_MEM_OBJECT_IMAGE1D | CL_MEM_OBJECT_IMAGE1D_BUFFER | CL_MEM_OBJECT_IMAGE1D_ARRAY
  | CL_MEM_OBJECT_IMAGE2D | CL_MEM_OBJECT_IMAGE2D_ARRAY | CL_MEM_OBJECT_IMAGE3D

fun get_channel_data_type_size :: "channel_type \<Rightarrow> u32" where
  "get_channel_data_type_size CL_SNORM_INT8 = 1"
| "get_channel_data_type_size CL_UNORM_INT8 = 1"
| "get_channel_data_type_size CL_SIGNED_INT8 = 1"
| "get_channel_data_type_size CL_UNSIGNED_INT8 = 1"
| "get_channel_data_type_size CL_SNORM_INT16 = 2"
| "get_channel_data_type_size CL_UNORM_INT16 = 2"
| "get_channel_data_type_size CL_SIGNED_INT16 = 2"
| "get_channel_data_type_size CL_UNSIGNED_INT16 = 2"
| "get_channel_data_type_size CL_HALF_FLOAT = 2"
| "get_channel_data_type_size CL_SIGNED_INT32 = 4"
| "get_channel_data_type_size CL_UNSIGNED_INT32 = 4"
| "get_channel_data_type_size CL_UNORM_SHORT_565 = 2"
| "get_channel_data_type_size CL_UNORM_SHORT_555 = 2"
| "get_channel_data_type_size CL_UNORM_INT_101010 = 4"
| "get_channel_data_type_size CL_UNORM_INT_101010_2 = 4"
| "get_channel_data_type_size CL_UNORM_INT_2_101010_EXT = 4"
| "get_channel_data_type_size CL_FLOAT = 4"
| "get_channel_data_type_size _ = 0"

definition get_format_type_size :: "image_format \<Rightarrow> u32" where
  "get_format_type_size format = get_channel_data_type_size (image_channel_data_type format)"

fun get_channel_order_channel_count :: "channel_order \<Rightarrow> u32" where
  "get_channel_order_channel_count CL_R = 1"
| "get_channel_order_channel_count CL_A = 1"
| "get_channel_order_channel_count CL_Rx = 1"
| "get_channel_order_channel_count CL_INTENSITY = 1"
| "get_channel_order_channel_count CL_LUMINANCE = 1"
| "get_channel_order_channel_count CL_DEPTH = 1"
| "get_channel_order_channel_count CL_DEPTH_STENCIL = 1"
| "get_channel_order_channel_count CL_RG = 2"
| "get_channel_order_channel_count CL_RA = 2"
| "get_channel_order_channel_count CL_RGx = 2"
| "get_channel_order_channel_count CL_RGB = 3"
| "get_channel_order_channel_count CL_RGBx = 3"
| "get_channel_order_channel_count CL_sRGB = 3"
| "get_channel_order_channel_count CL_sRGBx = 3"
| "get_channel_order_channel_count CL_RGBA = 4"
| "get_channel_order_channel_count CL_ARGB = 4"
| "get_channel_order_channel_count CL_BGRA = 4"
| "get_channel_order_channel_count CL_sRGBA = 4"
| "get_channel_order_channel_count CL_sBGRA = 4"
| "get_channel_order_channel_count CL_ABGR = 4"

definition get_format_channel_count :: "image_format \<Rightarrow> u32" where
  "get_format_channel_count format = get_channel_order_channel_count (image_channel_order format)"

definition is_format_signed :: "image_format \<Rightarrow> bool" where
  "is_format_signed format \<longleftrightarrow>
     image_channel_data_type format \<in>
       {CL_SNORM_INT8, CL_SIGNED_INT8, CL_SNORM_INT16, CL_SIGNED_INT16, CL_SIGNED_INT32, CL_HALF_FLOAT, CL_FLOAT}"

definition get_pixel_size :: "image_format \<Rightarrow> u32" where
  "get_pixel_size format =
     (case image_channel_data_type format of
        CL_SNORM_INT8 \<Rightarrow> get_format_channel_count format
      | CL_UNORM_INT8 \<Rightarrow> get_format_channel_count format
      | CL_SIGNED_INT8 \<Rightarrow> get_format_channel_count format
      | CL_UNSIGNED_INT8 \<Rightarrow> get_format_channel_count format
      | CL_SNORM_INT16 \<Rightarrow> get_format_channel_count format * 2
      | CL_UNORM_INT16 \<Rightarrow> get_format_channel_count format * 2
      | CL_SIGNED_INT16 \<Rightarrow> get_format_channel_count format * 2
      | CL_UNSIGNED_INT16 \<Rightarrow> get_format_channel_count format * 2
      | CL_HALF_FLOAT \<Rightarrow> get_format_channel_count format * 2
      | CL_SIGNED_INT32 \<Rightarrow> get_format_channel_count format * 4
      | CL_UNSIGNED_INT32 \<Rightarrow> get_format_channel_count format * 4
      | CL_UNORM_SHORT_565 \<Rightarrow> 2
      | CL_UNORM_SHORT_555 \<Rightarrow> 2
      | CL_UNORM_INT_101010 \<Rightarrow> 4
      | CL_FLOAT \<Rightarrow> get_format_channel_count format * 4
      | CL_UNORM_INT_101010_2 \<Rightarrow> 4
      | CL_UNORM_INT_2_101010_EXT \<Rightarrow> 4
      | CL_UNSIGNED_INT_RAW10_EXT \<Rightarrow> 2
      | CL_UNSIGNED_INT_RAW12_EXT \<Rightarrow> 2
      | _ \<Rightarrow> 0)"

definition next_power_of_two :: "u32 \<Rightarrow> u32" where
  "next_power_of_two v =
     (let v = v - 1;
          v = v OR drop_bit 1 v;
          v = v OR drop_bit 2 v;
          v = v OR drop_bit 4 v;
          v = v OR drop_bit 8 v;
          v = v OR drop_bit 16 v
      in v + 1)"

definition get_pixel_alignment :: "image_format \<Rightarrow> u32" where
  "get_pixel_alignment format = next_power_of_two (get_pixel_size format)"

definition is_sRGBA_order :: "channel_order \<Rightarrow> bool" where
  "is_sRGBA_order ord \<longleftrightarrow> ord \<in> {CL_sRGB, CL_sRGBx, CL_sRGBA, CL_sBGRA}"

text \<open>\<open>CL_DEPTH_STENCIL\<close> is the default case, an error message and 0.\<close>

definition has_alpha :: "image_format \<Rightarrow> bool" where
  "has_alpha format \<longleftrightarrow>
     image_channel_order format \<in>
       {CL_A, CL_RA, CL_RGBA, CL_BGRA, CL_ARGB, CL_ABGR, CL_INTENSITY, CL_sRGBA, CL_sBGRA}"

fun max_int :: "channel_type \<Rightarrow> u64" where
  "max_int CL_SNORM_INT8 = 127"
| "max_int CL_SIGNED_INT8 = 127"
| "max_int CL_UNORM_INT8 = 255"
| "max_int CL_UNSIGNED_INT8 = 255"
| "max_int CL_SNORM_INT16 = 32767"
| "max_int CL_SIGNED_INT16 = 32767"
| "max_int CL_UNORM_INT16 = 65535"
| "max_int CL_UNSIGNED_INT16 = 65535"
| "max_int CL_SIGNED_INT32 = 2147483647"
| "max_int CL_UNSIGNED_INT32 = 4294967295"
| "max_int CL_UNORM_SHORT_565 = 31"
| "max_int CL_UNORM_SHORT_555 = 31"
| "max_int CL_UNORM_INT_101010 = 1023"
| "max_int CL_UNORM_INT_101010_2 = 1023"
| "max_int CL_UNORM_INT_2_101010_EXT = 1023"
| "max_int CL_HALF_FLOAT = 1024"
| "max_int _ = 0"

definition get_format_max_int :: "image_format \<Rightarrow> u64" where
  "get_format_max_int format = max_int (image_channel_data_type format)"

fun min_int :: "channel_type \<Rightarrow> u32" where
  "min_int CL_SNORM_INT8 = - 128"
| "min_int CL_SIGNED_INT8 = - 128"
| "min_int CL_SNORM_INT16 = - 32768"
| "min_int CL_SIGNED_INT16 = - 32768"
| "min_int CL_SIGNED_INT32 = - 2147483648"
| "min_int CL_HALF_FLOAT = - 1024"
| "min_int _ = 0"

definition get_format_min_int :: "image_format \<Rightarrow> u32" where
  "get_format_min_int format = min_int (image_channel_data_type format)"

section \<open>Names\<close>

text \<open>The search of a name with or without its prefix \<open>CL_\<close>; \<open>None\<close> is -1.\<close>

fun from_name :: "('a \<times> string) list \<Rightarrow> string \<Rightarrow> 'a option" where
  "from_name [] nam = None"
| "from_name ((v, full) # names) nam =
     (if full = nam \<or> drop 3 full = nam then Some v else from_name names nam)"

definition typeNames :: "(channel_type \<times> string) list" where
  "typeNames =
     [(CL_SNORM_INT8, ''CL_SNORM_INT8''), (CL_SNORM_INT16, ''CL_SNORM_INT16''),
      (CL_UNORM_INT8, ''CL_UNORM_INT8''), (CL_UNORM_INT16, ''CL_UNORM_INT16''),
      (CL_UNORM_INT24, ''CL_UNORM_INT24''), (CL_UNORM_SHORT_565, ''CL_UNORM_SHORT_565''),
      (CL_UNORM_SHORT_555, ''CL_UNORM_SHORT_555''), (CL_UNORM_INT_101010, ''CL_UNORM_INT_101010''),
      (CL_UNORM_INT_101010_2, ''CL_UNORM_INT_101010_2''),
      (CL_UNORM_INT_2_101010_EXT, ''CL_UNORM_INT_2_101010_EXT''),
      (CL_SIGNED_INT8, ''CL_SIGNED_INT8''), (CL_SIGNED_INT16, ''CL_SIGNED_INT16''),
      (CL_SIGNED_INT32, ''CL_SIGNED_INT32''), (CL_UNSIGNED_INT8, ''CL_UNSIGNED_INT8''),
      (CL_UNSIGNED_INT16, ''CL_UNSIGNED_INT16''), (CL_UNSIGNED_INT32, ''CL_UNSIGNED_INT32''),
      (CL_HALF_FLOAT, ''CL_HALF_FLOAT''), (CL_FLOAT, ''CL_FLOAT'')]"

definition get_channel_type_from_name :: "string \<Rightarrow> channel_type option" where
  "get_channel_type_from_name = from_name typeNames"

definition orderNames :: "(channel_order \<times> string) list" where
  "orderNames =
     [(CL_R, ''CL_R''), (CL_A, ''CL_A''), (CL_Rx, ''CL_Rx''), (CL_RG, ''CL_RG''), (CL_RA, ''CL_RA''),
      (CL_RGx, ''CL_RGx''), (CL_RGB, ''CL_RGB''), (CL_RGBx, ''CL_RGBx''), (CL_RGBA, ''CL_RGBA''),
      (CL_BGRA, ''CL_BGRA''), (CL_ARGB, ''CL_ARGB''), (CL_INTENSITY, ''CL_INTENSITY''),
      (CL_LUMINANCE, ''CL_LUMINANCE''), (CL_DEPTH, ''CL_DEPTH''),
      (CL_DEPTH_STENCIL, ''CL_DEPTH_STENCIL''), (CL_sRGB, ''CL_sRGB''), (CL_sRGBx, ''CL_sRGBx''),
      (CL_sRGBA, ''CL_sRGBA''), (CL_sBGRA, ''CL_sBGRA''), (CL_ABGR, ''CL_ABGR'')]"

definition get_channel_order_from_name :: "string \<Rightarrow> channel_order option" where
  "get_channel_order_from_name = from_name orderNames"

fun GetChannelOrderName :: "channel_order \<Rightarrow> string" where
  "GetChannelOrderName CL_R = ''CL_R''"
| "GetChannelOrderName CL_A = ''CL_A''"
| "GetChannelOrderName CL_Rx = ''CL_Rx''"
| "GetChannelOrderName CL_RG = ''CL_RG''"
| "GetChannelOrderName CL_RA = ''CL_RA''"
| "GetChannelOrderName CL_RGx = ''CL_RGx''"
| "GetChannelOrderName CL_RGB = ''CL_RGB''"
| "GetChannelOrderName CL_RGBx = ''CL_RGBx''"
| "GetChannelOrderName CL_RGBA = ''CL_RGBA''"
| "GetChannelOrderName CL_ARGB = ''CL_ARGB''"
| "GetChannelOrderName CL_BGRA = ''CL_BGRA''"
| "GetChannelOrderName CL_INTENSITY = ''CL_INTENSITY''"
| "GetChannelOrderName CL_LUMINANCE = ''CL_LUMINANCE''"
| "GetChannelOrderName CL_DEPTH = ''CL_DEPTH''"
| "GetChannelOrderName CL_DEPTH_STENCIL = ''CL_DEPTH_STENCIL''"
| "GetChannelOrderName CL_sRGB = ''CL_sRGB''"
| "GetChannelOrderName CL_sRGBA = ''CL_sRGBA''"
| "GetChannelOrderName CL_sRGBx = ''CL_sRGBx''"
| "GetChannelOrderName CL_sBGRA = ''CL_sBGRA''"
| "GetChannelOrderName CL_ABGR = ''CL_ABGR''"

fun GetChannelTypeName :: "channel_type \<Rightarrow> string" where
  "GetChannelTypeName CL_SNORM_INT8 = ''CL_SNORM_INT8''"
| "GetChannelTypeName CL_SNORM_INT16 = ''CL_SNORM_INT16''"
| "GetChannelTypeName CL_UNORM_INT8 = ''CL_UNORM_INT8''"
| "GetChannelTypeName CL_UNORM_INT16 = ''CL_UNORM_INT16''"
| "GetChannelTypeName CL_UNORM_SHORT_565 = ''CL_UNORM_SHORT_565''"
| "GetChannelTypeName CL_UNORM_SHORT_555 = ''CL_UNORM_SHORT_555''"
| "GetChannelTypeName CL_UNORM_INT_101010 = ''CL_UNORM_INT_101010''"
| "GetChannelTypeName CL_UNORM_INT_101010_2 = ''CL_UNORM_INT_101010_2''"
| "GetChannelTypeName CL_UNORM_INT_2_101010_EXT = ''CL_UNORM_INT_2_101010_EXT''"
| "GetChannelTypeName CL_SIGNED_INT8 = ''CL_SIGNED_INT8''"
| "GetChannelTypeName CL_SIGNED_INT16 = ''CL_SIGNED_INT16''"
| "GetChannelTypeName CL_SIGNED_INT32 = ''CL_SIGNED_INT32''"
| "GetChannelTypeName CL_UNSIGNED_INT8 = ''CL_UNSIGNED_INT8''"
| "GetChannelTypeName CL_UNSIGNED_INT16 = ''CL_UNSIGNED_INT16''"
| "GetChannelTypeName CL_UNSIGNED_INT32 = ''CL_UNSIGNED_INT32''"
| "GetChannelTypeName CL_HALF_FLOAT = ''CL_HALF_FLOAT''"
| "GetChannelTypeName CL_FLOAT = ''CL_FLOAT''"
| "GetChannelTypeName CL_UNORM_INT24 = ''CL_UNORM_INT24''"
| "GetChannelTypeName CL_UNSIGNED_INT_RAW10_EXT = ''CL_UNSIGNED_INT_RAW10_EXT''"
| "GetChannelTypeName CL_UNSIGNED_INT_RAW12_EXT = ''CL_UNSIGNED_INT_RAW12_EXT''"

definition IsChannelOrderSupported :: "channel_order \<Rightarrow> bool" where
  "IsChannelOrderSupported ord \<longleftrightarrow>
     ord \<in> {CL_R, CL_A, CL_Rx, CL_RG, CL_RA, CL_RGx, CL_RGB, CL_RGBx, CL_RGBA, CL_ARGB, CL_BGRA,
       CL_INTENSITY, CL_LUMINANCE, CL_ABGR, CL_sRGB, CL_sRGBx, CL_sBGRA, CL_sRGBA, CL_DEPTH}"

definition IsChannelTypeSupported :: "channel_type \<Rightarrow> bool" where
  "IsChannelTypeSupported ty \<longleftrightarrow>
     ty \<in> {CL_SNORM_INT8, CL_SNORM_INT16, CL_UNORM_INT8, CL_UNORM_INT16, CL_UNORM_INT24,
       CL_UNORM_SHORT_565, CL_UNORM_SHORT_555, CL_UNORM_INT_101010, CL_UNORM_INT_101010_2,
       CL_UNORM_INT_2_101010_EXT, CL_SIGNED_INT8, CL_SIGNED_INT16, CL_SIGNED_INT32, CL_UNSIGNED_INT8,
       CL_UNSIGNED_INT16, CL_UNSIGNED_INT32, CL_HALF_FLOAT, CL_FLOAT}"

section \<open>Required formats\<close>

definition embeddedProfile_readOrWrite :: "image_format list" where
  "embeddedProfile_readOrWrite =
     [format_of CL_RGBA CL_UNORM_INT8, format_of CL_RGBA CL_UNORM_INT16,
      format_of CL_RGBA CL_SIGNED_INT8, format_of CL_RGBA CL_SIGNED_INT16,
      format_of CL_RGBA CL_SIGNED_INT32, format_of CL_RGBA CL_UNSIGNED_INT8,
      format_of CL_RGBA CL_UNSIGNED_INT16, format_of CL_RGBA CL_UNSIGNED_INT32,
      format_of CL_RGBA CL_HALF_FLOAT, format_of CL_RGBA CL_FLOAT]"

definition fullProfile_readOrWrite :: "image_format list" where
  "fullProfile_readOrWrite =
     [format_of CL_RGBA CL_UNORM_INT8, format_of CL_RGBA CL_UNORM_INT16,
      format_of CL_RGBA CL_SIGNED_INT8, format_of CL_RGBA CL_SIGNED_INT16,
      format_of CL_RGBA CL_SIGNED_INT32, format_of CL_RGBA CL_UNSIGNED_INT8,
      format_of CL_RGBA CL_UNSIGNED_INT16, format_of CL_RGBA CL_UNSIGNED_INT32,
      format_of CL_RGBA CL_HALF_FLOAT, format_of CL_RGBA CL_FLOAT, format_of CL_BGRA CL_UNORM_INT8]"

definition fullProfile_2x_readOrWrite :: "image_format list" where
  "fullProfile_2x_readOrWrite =
     [format_of CL_R CL_UNORM_INT8, format_of CL_R CL_UNORM_INT16, format_of CL_R CL_SNORM_INT8,
      format_of CL_R CL_SNORM_INT16, format_of CL_R CL_SIGNED_INT8, format_of CL_R CL_SIGNED_INT16,
      format_of CL_R CL_SIGNED_INT32, format_of CL_R CL_UNSIGNED_INT8, format_of CL_R CL_UNSIGNED_INT16,
      format_of CL_R CL_UNSIGNED_INT32, format_of CL_R CL_HALF_FLOAT, format_of CL_R CL_FLOAT,
      format_of CL_RG CL_UNORM_INT8, format_of CL_RG CL_UNORM_INT16, format_of CL_RG CL_SNORM_INT8,
      format_of CL_RG CL_SNORM_INT16, format_of CL_RG CL_SIGNED_INT8, format_of CL_RG CL_SIGNED_INT16,
      format_of CL_RG CL_SIGNED_INT32, format_of CL_RG CL_UNSIGNED_INT8, format_of CL_RG CL_UNSIGNED_INT16,
      format_of CL_RG CL_UNSIGNED_INT32, format_of CL_RG CL_HALF_FLOAT, format_of CL_RG CL_FLOAT,
      format_of CL_RGBA CL_UNORM_INT8, format_of CL_RGBA CL_UNORM_INT16, format_of CL_RGBA CL_SNORM_INT8,
      format_of CL_RGBA CL_SNORM_INT16, format_of CL_RGBA CL_SIGNED_INT8, format_of CL_RGBA CL_SIGNED_INT16,
      format_of CL_RGBA CL_SIGNED_INT32, format_of CL_RGBA CL_UNSIGNED_INT8,
      format_of CL_RGBA CL_UNSIGNED_INT16, format_of CL_RGBA CL_UNSIGNED_INT32,
      format_of CL_RGBA CL_HALF_FLOAT, format_of CL_RGBA CL_FLOAT, format_of CL_BGRA CL_UNORM_INT8]"

definition fullProfile_2x_readOrWrite_Depth :: "image_format list" where
  "fullProfile_2x_readOrWrite_Depth = [format_of CL_DEPTH CL_UNORM_INT16, format_of CL_DEPTH CL_FLOAT]"

definition fullProfile_2x_readOrWrite_srgb :: "image_format list" where
  "fullProfile_2x_readOrWrite_srgb = [format_of CL_sRGBA CL_UNORM_INT8]"

definition fullProfile_readAndWrite :: "image_format list" where
  "fullProfile_readAndWrite =
     [format_of CL_R CL_UNORM_INT8, format_of CL_R CL_SIGNED_INT8, format_of CL_R CL_SIGNED_INT16,
      format_of CL_R CL_SIGNED_INT32, format_of CL_R CL_UNSIGNED_INT8, format_of CL_R CL_UNSIGNED_INT16,
      format_of CL_R CL_UNSIGNED_INT32, format_of CL_R CL_HALF_FLOAT, format_of CL_R CL_FLOAT,
      format_of CL_RGBA CL_UNORM_INT8, format_of CL_RGBA CL_SIGNED_INT8, format_of CL_RGBA CL_SIGNED_INT16,
      format_of CL_RGBA CL_SIGNED_INT32, format_of CL_RGBA CL_UNSIGNED_INT8,
      format_of CL_RGBA CL_UNSIGNED_INT16, format_of CL_RGBA CL_UNSIGNED_INT32,
      format_of CL_RGBA CL_HALF_FLOAT, format_of CL_RGBA CL_FLOAT]"

text \<open>
  \<open>kernel_read_and_write\<close> is \<open>flags & CL_MEM_KERNEL_READ_AND_WRITE\<close>, \<open>read_only\<close> is
  \<open>flags == CL_MEM_READ_ONLY\<close>; \<open>device_string\<close> is what the device reports as its version, \<open>None\<close>
  the exception of \<open>get_device_cl_version\<close>.
\<close>

definition build_required_image_formats ::
  "bool \<Rightarrow> bool \<Rightarrow> mem_object_type \<Rightarrow> bool \<Rightarrow> string \<Rightarrow> image_format list option" where
  "build_required_image_formats kernel_read_and_write read_only image_type gIsEmbedded device_string =
     (if gIsEmbedded then Some embeddedProfile_readOrWrite
      else
        map_option (\<lambda>ver.
          if to_uint ver < to_uint (Version 2 0) \<or> to_uint (Version 3 0) \<le> to_uint ver then
            (if kernel_read_and_write then fullProfile_readAndWrite else fullProfile_readOrWrite)
          else if kernel_read_and_write then fullProfile_readAndWrite
          else fullProfile_2x_readOrWrite
            @ (if image_type = CL_MEM_OBJECT_IMAGE2D \<or> image_type = CL_MEM_OBJECT_IMAGE2D_ARRAY
               then fullProfile_2x_readOrWrite_Depth else [])
            @ (if image_type \<noteq> CL_MEM_OBJECT_IMAGE1D_BUFFER \<and> read_only
               then fullProfile_2x_readOrWrite_srgb else []))
          (get_device_cl_version device_string))"

definition is_image_format_required ::
  "image_format \<Rightarrow> bool \<Rightarrow> bool \<Rightarrow> mem_object_type \<Rightarrow> bool \<Rightarrow> string \<Rightarrow> bool option" where
  "is_image_format_required format kernel_read_and_write read_only image_type gIsEmbedded device_string =
     map_option
       (list_ex (\<lambda>f. image_channel_order f = image_channel_order format \<and>
          image_channel_data_type f = image_channel_data_type format))
       (build_required_image_formats kernel_read_and_write read_only image_type gIsEmbedded device_string)"

definition find_format :: "image_format list \<Rightarrow> image_format \<Rightarrow> bool" where
  "find_format formatList formatToFind \<longleftrightarrow>
     list_ex (\<lambda>f. image_channel_order f = image_channel_order formatToFind \<and>
       image_channel_data_type f = image_channel_data_type formatToFind) formatList"

section \<open>Names are read back\<close>

text \<open>
  C19. Every name printed for a channel order or type is read back to it, with and without
  \<open>CL_\<close>, except for the two raw types, which the reader does not know.
\<close>

theorem channel_names_roundtrip:
  "get_channel_order_from_name (GetChannelOrderName ord) = Some ord \<and>
   get_channel_order_from_name (drop 3 (GetChannelOrderName ord)) = Some ord \<and>
   (if ty \<in> {CL_UNSIGNED_INT_RAW10_EXT, CL_UNSIGNED_INT_RAW12_EXT}
    then get_channel_type_from_name (GetChannelTypeName ty) = None
    else get_channel_type_from_name (GetChannelTypeName ty) = Some ty \<and>
      get_channel_type_from_name (drop 3 (GetChannelTypeName ty)) = Some ty)"
proof -
  have "get_channel_order_from_name (GetChannelOrderName ord) = Some ord \<and>
      get_channel_order_from_name (drop 3 (GetChannelOrderName ord)) = Some ord"
    by (cases ord) (simp_all add: get_channel_order_from_name_def orderNames_def numeral_eq_Suc)
  moreover have "if ty \<in> {CL_UNSIGNED_INT_RAW10_EXT, CL_UNSIGNED_INT_RAW12_EXT}
      then get_channel_type_from_name (GetChannelTypeName ty) = None
      else get_channel_type_from_name (GetChannelTypeName ty) = Some ty \<and>
        get_channel_type_from_name (drop 3 (GetChannelTypeName ty)) = Some ty"
    by (cases ty) (simp_all add: get_channel_type_from_name_def typeNames_def numeral_eq_Suc)
  ultimately show ?thesis by blast
qed

section \<open>Sizes and alignment\<close>

lemma pixel_size_cases:
  "get_pixel_size format =
     (if image_channel_data_type format \<in> {CL_UNORM_SHORT_565, CL_UNORM_SHORT_555, CL_UNSIGNED_INT_RAW10_EXT,
         CL_UNSIGNED_INT_RAW12_EXT} then 2
      else if image_channel_data_type format \<in> {CL_UNORM_INT_101010, CL_UNORM_INT_101010_2,
         CL_UNORM_INT_2_101010_EXT} then 4
      else get_format_channel_count format * get_format_type_size format)"
  by (cases "image_channel_data_type format") (simp_all add: get_pixel_size_def get_format_type_size_def)

text \<open>The smeared word has a bit set at \<open>n\<close> if the original has one in the next \<open>k\<close>.\<close>

definition smeared :: "nat \<Rightarrow> u32 \<Rightarrow> u32 \<Rightarrow> bool" where
  "smeared k w v \<longleftrightarrow> (\<forall>n. bit v n \<longleftrightarrow> (\<exists>j<k. bit w (n + j)))"

lemma smeared_step:
  assumes "smeared k w v"
  shows "smeared (k + k) w (v OR drop_bit k v)"
  unfolding smeared_def
proof
  fix n
  have "(\<exists>j<k + k. bit w (n + j)) \<longleftrightarrow> (\<exists>j<k. bit w (n + j)) \<or> (\<exists>j<k. bit w (n + k + j))" (is "?l \<longleftrightarrow> ?r")
  proof
    assume ?l
    then obtain j where j: "j < k + k" "bit w (n + j)" by blast
    show ?r
    proof (cases "j < k")
      case False
      then have "j - k < k" "n + k + (j - k) = n + j" using j(1) by auto
      then show ?thesis using j(2) by metis
    qed (use j in blast)
  next
    assume ?r
    then show ?l by (metis add.assoc add_less_cancel_left trans_less_add1)
  qed
  then show "bit (v OR drop_bit k v) n \<longleftrightarrow> (\<exists>j<k + k. bit w (n + j))"
    using assms by (simp add: smeared_def bit_or_iff bit_drop_bit_eq add.commute)
qed

lemma smeared_32:
  assumes "smeared 32 w v" "bit w h" "\<And>n. bit w n \<Longrightarrow> n \<le> h"
  shows "v = mask (Suc h)"
proof (rule bit_eqI)
  fix n
  have h: "h < 32" using bit_imp_le_length [OF assms(2)] by simp
  have "(\<exists>j<32. bit w (n + j)) \<longleftrightarrow> n \<le> h"
  proof
    assume "n \<le> h"
    then show "\<exists>j<32. bit w (n + j)" using h assms(2) by (intro exI [of _ "h - n"]) simp
  next
    assume "\<exists>j<32. bit w (n + j)"
    then show "n \<le> h" using assms(3) by (meson add_leD1)
  qed
  then show "bit v n \<longleftrightarrow> bit (mask (Suc h) :: u32) n"
    using assms(1) h by (auto simp: smeared_def bit_mask_iff)
qed

lemma next_power_of_two_smears: "\<exists>v'. smeared 32 (v - 1) v' \<and> next_power_of_two v = v' + 1"
proof -
  note step = smeared_step [where w = "v - 1"]
  have "smeared 1 (v - 1) (v - 1)" by (simp add: smeared_def)
  note s2 = step [OF this, unfolded one_add_one]
  show ?thesis unfolding next_power_of_two_def Let_def
    by (rule exI, rule conjI [OF _ refl])
      (use step [of 16] step [of 8] step [of 4] step [of 2] s2 in \<open>simp only: numeral_plus_numeral add_num_simps\<close>)
qed

lemma bit_le_value: "bit (w :: u32) n \<Longrightarrow> 2 ^ n \<le> unat w"
  by (rule ccontr) (simp add: bit_unat)

text \<open>The least power of two that is not smaller, and 0 when there is none in range.\<close>

definition least_power :: "nat \<Rightarrow> nat \<Rightarrow> bool" where
  "least_power n p \<longleftrightarrow> (\<exists>k. p = 2 ^ k) \<and> n \<le> p \<and> p < 2 * n"

lemma next_power_of_two_ok:
  "if v = 0 \<or> 2 ^ 31 < unat v then next_power_of_two v = 0
   else least_power (unat v) (unat (next_power_of_two v))"
proof (cases "v = 1")
  case True
  have "next_power_of_two 1 = 1" by code_simp
  then show ?thesis using True by (auto simp: least_power_def intro: exI [of _ 0])
next
  case False
  obtain v' where v': "smeared 32 (v - 1) v'" "next_power_of_two v = v' + 1"
    using next_power_of_two_smears by blast
  have "0 < unat (v - 1)" using False by (simp add: unat_gt_0)
  then obtain h where h: "2 ^ h \<le> unat (v - 1)" "unat (v - 1) < 2 ^ Suc h"
    using ex_power_ivl1 [of 2 "unat (v - 1)"] by auto
  have top: "bit (v - 1) h" by (rule top_bit [OF h])
  have le: "n \<le> h" if "bit (v - 1) n" for n
    using bit_le_value [OF that] h(2) by (meson le_less_trans less_Suc_eq_le one_less_numeral_iff
        power_less_imp_less_exp semiring_norm(76))
  have h32: "h < 32" using bit_imp_le_length [OF top] by simp
  have r: "next_power_of_two v = 2 ^ Suc h"
    using v'(2) smeared_32 [OF v'(1) top le] by (simp add: mask_eq_decr_exp)
  show ?thesis
  proof (cases "v = 0")
    case True
    then have "bit (v - 1) 31" by simp
    then have "h = 31" using le [of 31] h32 by simp
    then show ?thesis using True r by simp
  next
    case nz: False
    then have u: "unat (v - 1) = unat v - 1" "0 < unat v" by (simp_all add: unat_minus_one unat_gt_0)
    show ?thesis
    proof (cases "h = 31")
      case True
      then have "2 ^ 31 < unat v" using h(1) u by simp
      then show ?thesis using True r by simp
    next
      case False
      then have k: "Suc h < 32" using h32 by simp
      then have "unat (next_power_of_two v) = 2 ^ Suc h" using r unat_word_of_nat [of "2 ^ Suc h", where ?'a = 32] power_strict_increasing [OF k, of "2::nat"]
        by simp
      moreover have "unat v \<le> 2 ^ Suc h" "2 ^ Suc h < 2 * unat v" using h u by auto
      moreover have "(2::nat) ^ Suc h \<le> 2 ^ 31" using k by (intro power_increasing) simp_all
      moreover have "unat v \<le> 2 ^ 31" using calculation(2,4) by (rule le_trans)
      ultimately show ?thesis using nz unfolding least_power_def
        by (simp only: simp_thms not_le if_False) (metis leD)
    qed
  qed
qed

text \<open>
  \<open>next_power_of_two\<close> is the least power of two not below a value in 1..2^31 and 0 beyond;
  so the alignment of every format is the least power of two not below its pixel size, except for
  24-bit channels, whose size is not known to the harness and whose alignment is 0.
\<close>

theorem pixel_alignment_power:
  "(if v = 0 \<or> 2 ^ 31 < unat v then next_power_of_two v = 0
    else least_power (unat v) (unat (next_power_of_two v))) \<and>
   (if image_channel_data_type format = CL_UNORM_INT24 then get_pixel_alignment format = 0
    else least_power (unat (get_pixel_size format)) (unat (get_pixel_alignment format)))"
proof -
  obtain ord ty where f: "format = format_of ord ty" by (cases format) simp
  have count: "get_channel_order_channel_count ord \<in> {1, 2, 3, 4}" by (cases ord) simp_all
  have "if ty = CL_UNORM_INT24 then get_pixel_size format = 0
      else get_pixel_size format \<in> {1, 2, 3, 4, 6, 8, 12, 16}"
    using count unfolding f
    by (cases ty) (auto simp: get_pixel_size_def get_format_channel_count_def)
  then have "if ty = CL_UNORM_INT24 then get_pixel_size format = 0
      else get_pixel_size format \<noteq> 0 \<and> unat (get_pixel_size format) \<le> 2 ^ 31"
    by (auto split: if_splits)
  then have "if ty = CL_UNORM_INT24 then get_pixel_alignment format = 0
      else least_power (unat (get_pixel_size format)) (unat (get_pixel_alignment format))"
    using next_power_of_two_ok [of "get_pixel_size format"]
    by (auto simp: get_pixel_alignment_def split: if_splits)
  then show ?thesis using next_power_of_two_ok [of v] unfolding f by simp
qed

section \<open>Required formats\<close>

lemma same_format:
  "image_channel_order g = image_channel_order f \<and> image_channel_data_type g = image_channel_data_type f
   \<longleftrightarrow> g = (f :: image_format)"
  by (cases f, cases g) auto

definition proper_formats :: "image_format list \<Rightarrow> bool" where
  "proper_formats formats \<longleftrightarrow> distinct formats \<and>
     list_all (\<lambda>f. IsChannelOrderSupported (image_channel_order f) \<and>
       IsChannelTypeSupported (image_channel_data_type f) \<and> get_pixel_size f \<in> {1, 2, 4, 8, 16}) formats"

lemma proper_lists:
  "proper_formats embeddedProfile_readOrWrite" "proper_formats fullProfile_readOrWrite"
  "proper_formats fullProfile_readAndWrite" "proper_formats fullProfile_2x_readOrWrite"
  "proper_formats (fullProfile_2x_readOrWrite @ fullProfile_2x_readOrWrite_Depth)"
  "proper_formats (fullProfile_2x_readOrWrite @ fullProfile_2x_readOrWrite_srgb)"
  "proper_formats (fullProfile_2x_readOrWrite @ fullProfile_2x_readOrWrite_Depth @ fullProfile_2x_readOrWrite_srgb)"
  by code_simp+

text \<open>
  What must be supported grows with the profile: the embedded formats are all required of
  every full device for reading or writing, and those of the full profile of 1.2 and 3.0 are all
  required of 2.x; a device of any version must support the same formats in a kernel that reads
  and writes, and of 2.x all of them without that too. No list has a format twice, and each of its
  formats has an order and a type the harness supports and a pixel of 1, 2, 4, 8 or 16 bytes. There
  is no list only where the version of a full device is unknown.
\<close>

theorem required_formats_grow:
  "set embeddedProfile_readOrWrite \<subseteq> set fullProfile_readOrWrite \<and>
   set fullProfile_readOrWrite \<subseteq> set fullProfile_2x_readOrWrite \<and>
   set fullProfile_readAndWrite \<subseteq> set fullProfile_2x_readOrWrite \<and>
   (case build_required_image_formats rw ro ty emb str of
      None \<Rightarrow> \<not> emb \<and> get_device_cl_version str = None
    | Some formats \<Rightarrow> proper_formats formats \<and>
        (is_image_format_required f rw ro ty emb str = Some (f \<in> set formats)))"
proof -
  have "set embeddedProfile_readOrWrite \<subseteq> set fullProfile_readOrWrite"
      "set fullProfile_readOrWrite \<subseteq> set fullProfile_2x_readOrWrite"
      "set fullProfile_readAndWrite \<subseteq> set fullProfile_2x_readOrWrite"
    by code_simp+
  moreover have "list_ex (\<lambda>g. image_channel_order g = image_channel_order f \<and>
      image_channel_data_type g = image_channel_data_type f) fs \<longleftrightarrow> f \<in> set fs" for fs
    by (auto simp: list_ex_iff same_format)
  ultimately show ?thesis
    by (auto simp: build_required_image_formats_def is_image_format_required_def proper_lists split: option.split)
qed

end
