(* ===== verification/ImageMemory.thy ===== *)
theory ImageMemory
  imports ImageFormats
begin

text \<open>
  The bytes of an image and the code of \<^verbatim>\<open>imageHelpers.cpp\<close> that goes over them
  as channels of 8, 16 or 32 bits: \<open>escape_inf_nan_subnormal_values\<close> and
  \<open>compare_scanlines\<close>. A memory gives the byte at each offset from the start of the image; a
  pointer into the image is an offset. Words are stored with the least significant byte first.
\<close>

section \<open>Channels in memory\<close>

type_synonym memory = "nat \<Rightarrow> u8"

definition get8 :: "memory \<Rightarrow> nat \<Rightarrow> u8" where "get8 m p = m p"

definition put8 :: "memory \<Rightarrow> nat \<Rightarrow> u8 \<Rightarrow> memory" where "put8 m p w = m(p := w)"

definition get16 :: "memory \<Rightarrow> nat \<Rightarrow> u16" where
  "get16 m p = ucast (m p) OR push_bit 8 (ucast (m (p + 1)))"

definition put16 :: "memory \<Rightarrow> nat \<Rightarrow> u16 \<Rightarrow> memory" where
  "put16 m p w = m(p := ucast w, p + 1 := ucast (drop_bit 8 w))"

definition get32 :: "memory \<Rightarrow> nat \<Rightarrow> u32" where
  "get32 m p = ucast (get16 m p) OR push_bit 16 (ucast (get16 m (p + 2)))"

definition put32 :: "memory \<Rightarrow> nat \<Rightarrow> u32 \<Rightarrow> memory" where
  "put32 m p w = put16 (put16 m p (ucast w)) (p + 2) (ucast (drop_bit 16 w))"

text \<open>
  The loops \<open>for (i = 0; i < n; i++) ptr[i] = g(i)\<close> and
  \<open>for (i = 0; i < n; i++) ptr[i] = f(ptr[i])\<close> over channels of a size.
\<close>

definition put_array :: "(memory \<Rightarrow> nat \<Rightarrow> 'w \<Rightarrow> memory) \<Rightarrow> nat \<Rightarrow> nat \<Rightarrow> (nat \<Rightarrow> 'w) \<Rightarrow> nat \<Rightarrow> memory \<Rightarrow> memory" where
  "put_array put sz p g n m = fold (\<lambda>i m. put m (p + i * sz) (g i)) [0..<n] m"

definition update_array ::
  "(memory \<Rightarrow> nat \<Rightarrow> 'w) \<Rightarrow> (memory \<Rightarrow> nat \<Rightarrow> 'w \<Rightarrow> memory) \<Rightarrow> nat \<Rightarrow> ('w \<Rightarrow> 'w) \<Rightarrow> nat \<Rightarrow> memory \<Rightarrow> memory" where
  "update_array get put sz f n m = fold (\<lambda>i m. put m (i * sz) (f (get m (i * sz)))) [0..<n] m"

locale channel_memory =
  fixes sz :: nat and get :: "memory \<Rightarrow> nat \<Rightarrow> 'w" and put :: "memory \<Rightarrow> nat \<Rightarrow> 'w \<Rightarrow> memory"
  assumes get_put: "get (put m p w) p = w"
    and put_frame: "q < p \<or> p + sz \<le> q \<Longrightarrow> put m p w q = m q"
    and get_local: "(\<And>k. k < sz \<Longrightarrow> m (p + k) = m' (p + k)) \<Longrightarrow> get m p = get m' p"
begin

lemma get_put_apart: "q + sz \<le> p \<or> p + sz \<le> q \<Longrightarrow> get (put m p w) q = get m q"
  by (rule get_local) (auto intro: put_frame)

lemma put_array_Suc: "put_array put sz p g (Suc n) m = put (put_array put sz p g n m) (p + n * sz) (g n)"
  by (simp add: put_array_def)

lemma put_array_frame: "q < p \<or> p + n * sz \<le> q \<Longrightarrow> put_array put sz p g n m q = m q"
proof (induction n)
  case (Suc n)
  then show ?case unfolding put_array_Suc by (subst put_frame) auto
qed (simp add: put_array_def)

lemma stride: "i < n \<Longrightarrow> p + i * sz + sz \<le> p + n * sz"
  using mult_le_mono1 [of "Suc i" n sz] by simp

lemma put_array_get: "i < n \<Longrightarrow> get (put_array put sz p g n m) (p + i * sz) = g i"
proof (induction n)
  case (Suc n)
  show ?case
  proof (cases "i = n")
    case False
    then have i: "i < n" using Suc.prems by simp
    have "get (put_array put sz p g (Suc n) m) (p + i * sz) = get (put_array put sz p g n m) (p + i * sz)"
      unfolding put_array_Suc by (rule get_put_apart) (use stride [OF i] in simp)
    then show ?thesis using Suc.IH [OF i] by simp
  qed (simp add: put_array_Suc get_put)
qed simp

lemma update_array_Suc:
  "update_array get put sz f (Suc n) m =
     put (update_array get put sz f n m) (n * sz) (f (get (update_array get put sz f n m) (n * sz)))"
  by (simp add: update_array_def)

lemma update_array_frame: "n * sz \<le> q \<Longrightarrow> update_array get put sz f n m q = m q"
proof (induction n)
  case (Suc n)
  then show ?case unfolding update_array_Suc by (subst put_frame) auto
qed (simp add: update_array_def)

lemma update_array_get:
  "get (update_array get put sz f n m) (i * sz) = (if i < n then f (get m (i * sz)) else get m (i * sz))"
proof (induction n)
  case (Suc n)
  have above: "get (update_array get put sz f n m) (n * sz) = get m (n * sz)"
    by (rule get_local) (simp add: update_array_frame)
  show ?case
  proof (cases "i = n")
    case True
    then show ?thesis unfolding update_array_Suc by (simp add: get_put above)
  next
    case False
    then have "i * sz + sz \<le> n * sz \<or> n * sz + sz \<le> i * sz"
      using stride [of i n 0] stride [of n i 0] by (auto simp: neq_iff)
    then have "get (update_array get put sz f (Suc n) m) (i * sz) = get (update_array get put sz f n m) (i * sz)"
      unfolding update_array_Suc by (rule get_put_apart)
    then show ?thesis using Suc.IH False by simp
  qed
qed (simp add: update_array_def)

end

lemma bit_get16: "bit (get16 m p) n \<longleftrightarrow> n < 16 \<and> bit (m (p + n div 8)) (n mod 8)"
proof (cases "n < 8")
  case True
  then show ?thesis by (simp add: get16_def bit_simps)
next
  case False
  then show ?thesis
    by (cases "n < 16") (auto simp: get16_def bit_simps le_div_geq le_mod_geq dest: bit_imp_le_length)
qed

lemma get16_put16 [simp]: "get16 (put16 m p w) p = w"
  by (rule bit_eqI) (auto simp: get16_def put16_def bit_simps)

lemma get16_apart: "q + 2 \<le> p \<or> p + 2 \<le> q \<Longrightarrow> get16 (put16 m p w) q = get16 m q"
  by (auto simp: get16_def put16_def)

lemma get32_parts:
  assumes "get16 m p = ucast w" "get16 m (p + 2) = ucast (drop_bit 16 w)"
  shows "get32 m p = w"
  unfolding get32_def assms by (rule bit_eqI) (auto simp: bit_simps)

interpretation mem8: channel_memory 1 get8 put8
  by unfold_locales (auto simp: get8_def put8_def)

interpretation mem16: channel_memory 2 get16 put16
proof unfold_locales
  fix m m' :: memory and p :: nat
  assume "\<And>k. k < 2 \<Longrightarrow> m (p + k) = m' (p + k)"
  from this [of 0] this [of 1] show "get16 m p = get16 m' p" by (simp add: get16_def)
next
  fix m p w
  show "get16 (put16 m p w) p = w" by (rule get16_put16)
qed (auto simp: put16_def)

interpretation mem32: channel_memory 4 get32 put32
proof unfold_locales
  fix m m' :: memory and p :: nat
  assume "\<And>k. k < 4 \<Longrightarrow> m (p + k) = m' (p + k)"
  from this [of 0] this [of 1] this [of 2] this [of 3] show "get32 m p = get32 m' p"
    by (simp add: get32_def get16_def numeral_3_eq_3)
next
  fix m p w
  show "get32 (put32 m p w) p = w"
    by (rule get32_parts) (simp_all add: put32_def get16_apart)
qed (auto simp: put32_def put16_def)

section \<open>Escaping special floats\<close>

definition escape32 :: "u32 \<Rightarrow> u32" where
  "escape32 w =
     (if w AND 0x7F800000 = 0x7F800000 then w XOR 0x40000000
      else if w AND 0x7F800000 = 0 then w XOR 0x40000000 else w)"

definition escape16 :: "u16 \<Rightarrow> u16" where
  "escape16 w =
     (if w AND 0x7C00 = 0x7C00 then w XOR 0x4000
      else if w AND 0x7C00 = 0 then w XOR 0x4000 else w)"

definition escape_inf_nan_subnormal_values :: "memory \<Rightarrow> nat \<Rightarrow> memory" where
  "escape_inf_nan_subnormal_values data allocSize =
     (let data = update_array get32 put32 4 escape32 (allocSize div 4) data
      in update_array get16 put16 2 escape16 (allocSize div 2) data)"

lemma sixteen_more: "(16 + j) mod 8 = j mod (8::nat)" "(16 + j) div 8 = 2 + j div (8::nat)"
  using mod_mult_self3 [of 2 8 j] div_mult_self3 [of 8 2 j] by simp_all

lemma bit_get32: "bit (get32 m p) n \<longleftrightarrow> n < 32 \<and> bit (m (p + n div 8)) (n mod 8)"
proof (cases "n < 16")
  case True
  then show ?thesis by (simp add: get32_def bit_simps bit_get16)
next
  case False
  then obtain j where n: "n = 16 + j" by (metis le_add_diff_inverse not_less)
  have lo: "\<not> bit (get16 m p) (16 + j)" using bit_imp_le_length [of "get16 m p" "16 + j"] by auto
  have "bit (get32 m p) n \<longleftrightarrow> n < 32 \<and> bit (get16 m (p + 2)) j"
    unfolding n by (simp add: get32_def bit_simps lo) auto
  then show ?thesis unfolding n by (simp add: bit_get16 sixteen_more)
qed

text \<open>
  The channels the escape must not leave behind: exponents of all zeros (zeros and subnormals) or
  all ones (infinities and NaNs).
\<close>

definition special32 :: "u32 \<Rightarrow> bool" where
  "special32 w \<longleftrightarrow> take_bit 8 (drop_bit 23 w) = 0 \<or> take_bit 8 (drop_bit 23 w) = 255"

definition special16 :: "u16 \<Rightarrow> bool" where
  "special16 w \<longleftrightarrow> take_bit 5 (drop_bit 10 w) = 0 \<or> take_bit 5 (drop_bit 10 w) = 31"

lemma masks: "(0x7F800000 :: u32) = push_bit 23 (mask 8)" "(0x7C00 :: u16) = push_bit 10 (mask 5)"
  by (simp_all add: push_bit_eq_mult mask_eq_exp_minus_1)

lemma field_mask:
  fixes w :: "'a::len word"
  assumes "k + n \<le> LENGTH('a)"
  shows "w AND push_bit k (mask n) = push_bit k (mask n) \<longleftrightarrow> take_bit n (drop_bit k w) = mask n"
    and "w AND push_bit k (mask n) = 0 \<longleftrightarrow> take_bit n (drop_bit k w) = 0"
proof -
  have e: "w AND push_bit k (mask n) = push_bit k (take_bit n (drop_bit k w))"
    by (rule bit_eqI) (auto simp: bit_simps)
  have again: "drop_bit k (push_bit k (take_bit n x)) = take_bit n x" for x :: "'a word"
    using assms by (intro bit_eqI) (auto simp: bit_simps)
  have m: "mask n = (take_bit n (mask n) :: 'a word)" by simp
  show "w AND push_bit k (mask n) = push_bit k (mask n) \<longleftrightarrow> take_bit n (drop_bit k w) = mask n"
    unfolding e using again [of "drop_bit k w"] again [of "mask n"] by (metis m)
  show "w AND push_bit k (mask n) = 0 \<longleftrightarrow> take_bit n (drop_bit k w) = 0"
    unfolding e using again [of "drop_bit k w"] by (metis drop_bit_of_0 push_bit_of_0)
qed

lemma special32_mask: "special32 w \<longleftrightarrow> w AND 0x7F800000 = 0x7F800000 \<or> w AND 0x7F800000 = 0"
  using field_mask [of 23 8 w] unfolding special32_def masks by (auto simp: mask_eq_exp_minus_1)

lemma special16_mask: "special16 w \<longleftrightarrow> w AND 0x7C00 = 0x7C00 \<or> w AND 0x7C00 = 0"
  using field_mask [of 10 5 w] unfolding special16_def masks by (auto simp: mask_eq_exp_minus_1)

text \<open>Flipping the top bit of such an exponent gives 0b01..1 or 0b10..0.\<close>

lemma escape32_ok: "\<not> special32 (escape32 w)"
proof -
  have "(w XOR 0x40000000) AND 0x7F800000 = (w AND 0x7F800000) XOR 0x40000000"
    by (simp add: and.commute bit.conj_xor_distrib)
  then show ?thesis by (auto simp: special32_mask escape32_def)
qed

lemma escape16_ok: "\<not> special16 (escape16 w)"
proof -
  have "(w XOR 0x4000) AND 0x7C00 = (w AND 0x7C00) XOR 0x4000"
    by (simp add: and.commute bit.conj_xor_distrib)
  then show ?thesis by (auto simp: special16_mask escape16_def)
qed

text \<open>The exponent of a float is in its upper half; the escape of that half as a half float does not undo its own.\<close>

definition special_high :: "u16 \<Rightarrow> bool" where
  "special_high h \<longleftrightarrow> h AND 0x7F80 = 0x7F80 \<or> h AND 0x7F80 = 0"

lemma unat_ucast16: "unat (ucast (x :: u16) :: u32) = unat x"
  using unat_bound [of x] by (simp add: unsigned_ucast_eq take_bit_nat_eq_self)

lemma ucast16_eq: "(ucast x = (0 :: u32)) = (x = (0 :: u16))" "(ucast x = (255 :: u32)) = (x = (255 :: u16))"
  by (simp_all add: word_unat_eq_iff unat_ucast16)

lemma special32_high: "special32 (get32 m p) \<longleftrightarrow> special_high (get16 m (p + 2))"
proof -
  have c: "(0x7F80 :: u16) = push_bit 7 (mask 8)" by (simp add: push_bit_eq_mult mask_eq_exp_minus_1)
  have "take_bit 8 (drop_bit 23 (get32 m p)) = (ucast (take_bit 8 (drop_bit 7 (get16 m (p + 2)))) :: u32)" (is "?l = ?r")
  proof (rule bit_eqI)
    fix n
    have "bit ?l n \<longleftrightarrow> n < 8 \<and> bit (m (p + (n + 23) div 8)) ((n + 23) mod 8)"
      by (auto simp: bit_simps bit_get32 add.commute)
    also have "\<dots> \<longleftrightarrow> n < 8 \<and> bit (m (p + 2 + (n + 7) div 8)) ((n + 7) mod 8)"
    proof -
      have "(n + 23) div 8 = 2 + (n + 7) div 8" "(n + 23) mod 8 = (n + 7) mod 8" by presburger+
      then show ?thesis by (simp add: add.assoc)
    qed
    also have "\<dots> \<longleftrightarrow> bit ?r n" by (auto simp: bit_simps bit_get16 add.commute)
    finally show "bit ?l n \<longleftrightarrow> bit ?r n" .
  qed
  then show ?thesis unfolding special32_def special_high_def c
    using field_mask [of 7 8 "get16 m (p + 2)"] by (simp add: ucast16_eq mask_eq_exp_minus_1) auto
qed

lemma special_high_16: "special_high h \<Longrightarrow> special16 h"
proof -
  have "h AND 0x7C00 = (h AND 0x7F80) AND 0x7C00" by (simp add: and.assoc)
  then show "special_high h \<Longrightarrow> special16 h" by (auto simp: special_high_def special16_mask)
qed

lemma no_high_bit: "8 \<le> j \<Longrightarrow> \<not> bit (w :: u8) j"
  using bit_imp_le_length [of w j] by auto

lemma update16_bits:
  assumes f: "\<And>w j. j \<noteq> 14 \<Longrightarrow> bit (f w) j = bit w j" and j: "\<not> (odd q \<and> j = 6)"
  shows "bit (update_array get16 put16 2 f n m q) j = bit (m q) j"
proof (cases "n * 2 \<le> q \<or> 8 \<le> j")
  case True
  then show ?thesis using no_high_bit [of j] by (auto simp: mem16.update_array_frame)
next
  case False
  define i r where "i = q div 2" and "r = q mod 2"
  have q: "q = i * 2 + r" "r < 2" "i < n" using False by (auto simp: i_def r_def)
  have b: "bit (get16 m (i * 2)) (8 * r + j) \<longleftrightarrow> bit (m q) j" for m
    using False q(1,2) by (simp add: bit_get16)
  have "8 * r + j \<noteq> 14" using j q False by (auto simp: less_2_cases_iff)
  then show ?thesis using b [of "update_array get16 put16 2 f n m"] b [of m] q(3)
    by (simp add: mem16.update_array_get f)
qed

lemma update32_bits:
  assumes f: "\<And>w j. j \<noteq> 30 \<Longrightarrow> bit (f w) j = bit w j" and j: "\<not> (odd q \<and> j = 6)"
  shows "bit (update_array get32 put32 4 f n m q) j = bit (m q) j"
proof (cases "n * 4 \<le> q \<or> 8 \<le> j")
  case True
  then show ?thesis using no_high_bit [of j] by (auto simp: mem32.update_array_frame)
next
  case False
  define i r where "i = q div 4" and "r = q mod 4"
  have q: "q = i * 4 + r" "r < 4" "i < n" using False by (auto simp: i_def r_def)
  have b: "bit (get32 m (i * 4)) (8 * r + j) \<longleftrightarrow> bit (m q) j" for m
    using False q(1,2) by (simp add: bit_get32)
  have "8 * r + j \<noteq> 30" if "r = 3" using j q(1) that by auto
  then have "8 * r + j \<noteq> 30" using q(2) False by (cases "r = 3") auto
  then show ?thesis using b [of "update_array get32 put32 4 f n m"] b [of m] q(3)
    by (simp add: mem32.update_array_get f)
qed

lemma escape_bits:
  "j \<noteq> 14 \<Longrightarrow> bit (escape16 w) j = bit w j" "j \<noteq> 30 \<Longrightarrow> bit (escape32 v) j = bit v j"
proof -
  have "bit (2 ^ 14 :: u16) j \<Longrightarrow> j = 14" "bit (2 ^ 30 :: u32) j \<Longrightarrow> j = 30"
    by (simp_all only: bit_exp_iff)
  then have "j \<noteq> 14 \<Longrightarrow> \<not> bit (0x4000 :: u16) j" "j \<noteq> 30 \<Longrightarrow> \<not> bit (0x40000000 :: u32) j"
    by auto
  then show "j \<noteq> 14 \<Longrightarrow> bit (escape16 w) j = bit w j" "j \<noteq> 30 \<Longrightarrow> bit (escape32 v) j = bit v j"
    by (auto simp: escape16_def escape32_def bit_xor_iff)
qed

text \<open>
  After the escape no aligned 4-byte word of the data is an infinity, a NaN, a zero or a
  subnormal as a float, and no aligned pair of bytes is one as a half: the pass over the halves does not undo the
  one over the floats. Nothing changes but bit 6 of bytes at odd offsets inside the data, so signs,
  mantissas and 8-bit channels at even offsets stay.
\<close>

theorem escape_leaves_normal_values:
  assumes "data' = escape_inf_nan_subnormal_values data allocSize"
  shows "(\<forall>i<allocSize div 4. \<not> special32 (get32 data' (i * 4))) \<and>
    (\<forall>i<allocSize div 2. \<not> special16 (get16 data' (i * 2))) \<and>
    (\<forall>q j. bit (data' q) j = bit (data q) j \<or> q < allocSize \<and> odd q \<and> j = 6)"
proof -
  define data1 where "data1 = update_array get32 put32 4 escape32 (allocSize div 4) data"
  have d: "data' = update_array get16 put16 2 escape16 (allocSize div 2) data1"
    by (simp add: assms escape_inf_nan_subnormal_values_def data1_def Let_def)
  have half: "\<not> special16 (get16 data' (i * 2))" if "i < allocSize div 2" for i
    using that by (simp add: d mem16.update_array_get escape16_ok)
  have "\<not> special32 (get32 data' (i * 4))" if "i < allocSize div 4" for i
  proof -
    have "2 * i + 1 < allocSize div 2" using that by simp
    from half [OF this] have "\<not> special16 (get16 data' (i * 4 + 2))" by (simp add: algebra_simps)
    then show ?thesis using special_high_16 special32_high by blast
  qed
  moreover have "bit (data' q) j = bit (data q) j \<or> q < allocSize \<and> odd q \<and> j = 6" for q j
  proof (cases "allocSize \<le> q")
    case True
    then have "data' q = data q" unfolding d data1_def
      by (subst mem16.update_array_frame, simp, subst mem32.update_array_frame) simp_all
    then show ?thesis by simp
  next
    case False
    then show ?thesis unfolding d data1_def
      using update16_bits [of escape16 q j] update32_bits [of escape32 q j] by (auto simp: escape_bits)
  qed
  ultimately show ?thesis using half by blast
qed

theorem escape_leaves_normal_values_witness:
  "\<not> special32 (get32 (escape_inf_nan_subnormal_values (\<lambda>_. 255) 8) 4)"
  using escape_leaves_normal_values [OF refl, where data = "\<lambda>_. 255" and allocSize = 8] by (auto dest: spec [of _ 1])

section \<open>Comparing rows\<close>

record image_descriptor =
  width :: u64
  height :: u64
  depth :: u64
  rowPitch :: u64
  slicePitch :: u64
  arraySize :: u64
  pixel_format :: image_format
  image_type :: mem_object_type
  num_mip_levels :: u32

text \<open>Whether the pixels at \<open>aPtr\<close> and \<open>bPtr\<close> pass as equal; \<open>memcmp\<close> compares bytes.\<close>

definition pixels_match :: "image_format \<Rightarrow> memory \<Rightarrow> nat \<Rightarrow> memory \<Rightarrow> nat \<Rightarrow> bool" where
  "pixels_match format a aPtr b bPtr =
     (case image_channel_data_type format of
        CL_UNORM_INT_101010 \<Rightarrow> get32 a aPtr AND 0x3fffffff = get32 b bPtr AND 0x3fffffff
      | CL_UNORM_SHORT_555 \<Rightarrow> get16 a aPtr AND 0x7fff = get16 b bPtr AND 0x7fff
      | CL_SNORM_INT8 \<Rightarrow>
          (let aPixel = get8 a aPtr; bPixel = get8 b bPtr;
               aPixel = (if aPixel = 0x80 then 0x81 else aPixel);
               bPixel = (if bPixel = 0x80 then 0x81 else bPixel)
           in aPixel = bPixel)
      | CL_SNORM_INT16 \<Rightarrow>
          (let aPixel = get16 a aPtr; bPixel = get16 b bPtr;
               aPixel = (if aPixel = 0x8000 then 0x8001 else aPixel);
               bPixel = (if bPixel = 0x8000 then 0x8001 else bPixel)
           in aPixel = bPixel)
      | _ \<Rightarrow> list_all (\<lambda>k. a (aPtr + k) = b (bPtr + k)) [0..<unat (get_pixel_size format)])"

function compare_loop :: "image_format \<Rightarrow> nat \<Rightarrow> nat \<Rightarrow> memory \<Rightarrow> nat \<Rightarrow> memory \<Rightarrow> nat \<Rightarrow> nat" where
  "compare_loop format column w a aPtr b bPtr =
     (if column < w then
        if \<not> pixels_match format a aPtr b bPtr then column
        else compare_loop format (Suc column) w
               a (aPtr + unat (get_pixel_size format)) b (bPtr + unat (get_pixel_size format))
      else column)"
  by pat_completeness auto
termination
  by (relation "measure (\<lambda>(_, column, w, _). w - column)") auto

declare compare_loop.simps [simp del]

definition compare_scanlines :: "image_descriptor \<Rightarrow> memory \<Rightarrow> memory \<Rightarrow> nat" where
  "compare_scanlines imageInfo a b =
     compare_loop (pixel_format imageInfo) 0 (unat (width imageInfo)) a 0 b 0"

text \<open>
  What it should decide: the pixels have the same bits, but for the unused ones of the packed formats, or
  the same signed normalized values in every channel, of which the least two are both -1.
\<close>

definition snorm :: "'a::len word \<Rightarrow> int" where
  "snorm w = max (sint w) (1 - 2 ^ (LENGTH('a) - 1))"

definition same_pixel :: "image_format \<Rightarrow> memory \<Rightarrow> nat \<Rightarrow> memory \<Rightarrow> nat \<Rightarrow> bool" where
  "same_pixel format a p b q \<longleftrightarrow>
     (let n = unat (get_format_channel_count format) in
      if image_channel_data_type format = CL_UNORM_INT_101010
      then \<forall>j<30. bit (get32 a p) j = bit (get32 b q) j
      else if image_channel_data_type format = CL_UNORM_SHORT_555
      then \<forall>j<15. bit (get16 a p) j = bit (get16 b q) j
      else if image_channel_data_type format = CL_SNORM_INT8
      then \<forall>i<n. snorm (get8 a (p + i)) = snorm (get8 b (q + i))
      else if image_channel_data_type format = CL_SNORM_INT16
      then \<forall>i<n. snorm (get16 a (p + i * 2)) = snorm (get16 b (q + i * 2))
      else \<forall>k<unat (get_pixel_size format). a (p + k) = b (q + k))"

lemma sint_eq_iff: "sint (x :: 'a::len word) = sint y \<longleftrightarrow> x = y"
  using signed_word_eqI by blast

lemma snorm8: "snorm (w :: u8) = sint (if w = 0x80 then 0x81 else w)"
proof (cases "w = 0x80")
  case False
  have "sint (0x80 :: u8) = - 128" by simp
  then have "sint w \<noteq> - 128" using False by (metis signed_word_eqI)
  then show ?thesis using False sint_greater_eq [of w] by (simp add: snorm_def)
qed (simp add: snorm_def)

lemma snorm16: "snorm (w :: u16) = sint (if w = 0x8000 then 0x8001 else w)"
proof (cases "w = 0x8000")
  case False
  have "sint (0x8000 :: u16) = - 32768" by simp
  then have "sint w \<noteq> - 32768" using False by (metis signed_word_eqI)
  then show ?thesis using False sint_greater_eq [of w] by (simp add: snorm_def)
qed (simp add: snorm_def)

lemma low_bits_eq: "(x :: 'a::len word) AND mask n = y AND mask n \<longleftrightarrow> (\<forall>j<n. bit x j = bit y j)"
  by (auto simp: bit_eq_iff bit_simps dest: bit_imp_le_length)

definition signed_normalized :: "image_format \<Rightarrow> bool" where
  "signed_normalized format \<longleftrightarrow> image_channel_data_type format \<in> {CL_SNORM_INT8, CL_SNORM_INT16}"

lemma channel_count_positive: "0 < unat (get_format_channel_count format)"
  by (cases "image_channel_order format") (simp_all add: get_format_channel_count_def)

lemma packed_masks: "(0x3fffffff :: u32) = mask 30" "(0x7fff :: u16) = mask 15"
  by (simp_all add: mask_eq_exp_minus_1)

lemma match_same:
  "\<not> signed_normalized format \<Longrightarrow> pixels_match format a p b q \<longleftrightarrow> same_pixel format a p b q"
  by (cases "image_channel_data_type format")
    (simp_all add: signed_normalized_def pixels_match_def same_pixel_def packed_masks low_bits_eq list_all_iff Ball_def)

lemma match_first_channel:
  assumes "signed_normalized format"
  shows "same_pixel format a p b q \<Longrightarrow> pixels_match format a p b q"
    and "unat (get_format_channel_count format) = 1 \<Longrightarrow> pixels_match format a p b q \<Longrightarrow> same_pixel format a p b q"
proof -
  have m: "pixels_match format a p b q \<longleftrightarrow>
      (if image_channel_data_type format = CL_SNORM_INT8 then snorm (get8 a p) = snorm (get8 b q)
       else snorm (get16 a p) = snorm (get16 b q))"
    using assms unfolding snorm8 snorm16 sint_eq_iff
    by (auto simp: signed_normalized_def pixels_match_def Let_def)
  have s: "same_pixel format a p b q \<longleftrightarrow>
      (\<forall>i<unat (get_format_channel_count format).
        if image_channel_data_type format = CL_SNORM_INT8 then snorm (get8 a (p + i)) = snorm (get8 b (q + i))
        else snorm (get16 a (p + i * 2)) = snorm (get16 b (q + i * 2)))"
    using assms by (auto simp: signed_normalized_def same_pixel_def Let_def)
  show "same_pixel format a p b q \<Longrightarrow> pixels_match format a p b q"
    using channel_count_positive [of format] unfolding m s by (auto dest: spec [of _ 0])
  show "unat (get_format_channel_count format) = 1 \<Longrightarrow> pixels_match format a p b q \<Longrightarrow> same_pixel format a p b q"
    unfolding m s by simp
qed

lemma compare_loop_first:
  fixes format a b
  defines "s \<equiv> unat (get_pixel_size format)"
  defines "ok \<equiv> \<lambda>k. pixels_match format a (k * s) b (k * s)"
  assumes "c \<le> w" "r = compare_loop format c w a (c * s) b (c * s)"
  shows "c \<le> r \<and> r \<le> w \<and> (\<forall>k. c \<le> k \<and> k < r \<longrightarrow> ok k) \<and> (r = w \<or> \<not> ok r)"
  using assms(3,4)
proof (induction "w - c" arbitrary: c)
  case 0
  then show ?case by (subst (asm) compare_loop.simps) auto
next
  case (Suc d)
  then have lt: "c < w" by simp
  show ?case
  proof (cases "ok c")
    case False
    then have "r = c" using Suc.prems lt by (subst (asm) compare_loop.simps) (simp add: ok_def)
    then show ?thesis using False lt by auto
  next
    case True
    then have r: "r = compare_loop format (Suc c) w a (Suc c * s) b (Suc c * s)"
      using Suc.prems lt by (subst (asm) compare_loop.simps) (simp add: ok_def s_def add.commute)
    have IH: "Suc c \<le> r" "r \<le> w" "\<forall>k. Suc c \<le> k \<and> k < r \<longrightarrow> ok k" "r = w \<or> \<not> ok r"
      using Suc.hyps(1) [OF _ _ r] Suc.hyps(2) lt by simp_all
    have "ok k" if "c \<le> k" "k < r" for k
      using that True IH(3) by (cases "k = c") simp_all
    then show ?thesis using IH by simp
  qed
qed



text \<open>Rows that differ in the second channel are taken to be equal.\<close>

theorem compare_scanlines_misses_channels:
  "compare_scanlines \<lparr>width = 1, height = 1, depth = 1, rowPitch = 4, slicePitch = 4, arraySize = 0,
     pixel_format = format_of CL_RGBA CL_SNORM_INT8, image_type = CL_MEM_OBJECT_IMAGE2D, num_mip_levels = 1\<rparr>
     (\<lambda>_. 0) ((\<lambda>_. 0)(1 := 64)) = 1"
  by code_simp

end
