(* ===== verification/ImageLevels.thy ===== *)
theory ImageLevels
  imports ImageMemory
begin

text \<open>
  Sizes of images and of their mipmap levels (\<^verbatim>\<open>imageHelpers.cpp\<close>,
  \<^verbatim>\<open>imageHelpers.h\<close>). \<^verbatim>\<open>size_t\<close> and \<^verbatim>\<open>cl_ulong\<close> have
  64 bits; products and sums wrap.
\<close>

section \<open>Levels\<close>

definition pixel_bytes :: "image_descriptor \<Rightarrow> u64" where
  "pixel_bytes imageInfo = ucast (get_pixel_size (pixel_format imageInfo))"

function count_levels :: "u64 \<Rightarrow> u32 \<Rightarrow> u32" where
  "count_levels max_dim retMaxMipLevels =
     (if max_dim \<noteq> 0 then count_levels (drop_bit 1 max_dim) (retMaxMipLevels + 1) else retMaxMipLevels)"
  by pat_completeness auto
termination
  by (relation "measure (\<lambda>(max_dim, _). unat max_dim)") (auto simp: unat_drop unat_gt_0 simp del: unat_drop_bit_eq)

declare count_levels.simps [simp del]

definition compute_max_mip_levels :: "u64 \<Rightarrow> u64 \<Rightarrow> u64 \<Rightarrow> u32" where
  "compute_max_mip_levels w h d =
     (let max_dim = w;
          max_dim = (if h > max_dim then h else max_dim);
          max_dim = (if d > max_dim then d else max_dim)
      in count_levels max_dim 0)"

text \<open>\<open>x >> k ? x >> k : 1\<close>\<close>

definition shifted :: "nat \<Rightarrow> u64 \<Rightarrow> u64" where
  "shifted k x = (if drop_bit k x \<noteq> 0 then drop_bit k x else 1)"

text \<open>The width, height and depth of the next level; the switch falls through.\<close>

fun next_level :: "mem_object_type \<Rightarrow> u64 \<times> u64 \<times> u64 \<Rightarrow> u64 \<times> u64 \<times> u64" where
  "next_level CL_MEM_OBJECT_IMAGE3D (w, h, d) = (shifted 1 w, shifted 1 h, shifted 1 d)"
| "next_level CL_MEM_OBJECT_IMAGE2D (w, h, d) = (shifted 1 w, shifted 1 h, d)"
| "next_level CL_MEM_OBJECT_IMAGE2D_ARRAY (w, h, d) = (shifted 1 w, shifted 1 h, d)"
| "next_level _ (w, h, d) = (shifted 1 w, h, d)"

text \<open>One iteration of each loop, on the sum and the dimensions.\<close>

definition size_step :: "image_descriptor \<Rightarrow> u64 \<times> u64 \<times> u64 \<times> u64 \<Rightarrow> u64 \<times> u64 \<times> u64 \<times> u64" where
  "size_step imageInfo = (\<lambda>(retSize, w, h, d).
     (retSize +
        (case image_type imageInfo of
           CL_MEM_OBJECT_IMAGE3D \<Rightarrow> w * h * d * pixel_bytes imageInfo
         | CL_MEM_OBJECT_IMAGE2D \<Rightarrow> w * h * pixel_bytes imageInfo
         | CL_MEM_OBJECT_IMAGE1D_BUFFER \<Rightarrow> w * pixel_bytes imageInfo
         | CL_MEM_OBJECT_IMAGE1D \<Rightarrow> w * pixel_bytes imageInfo
         | CL_MEM_OBJECT_IMAGE1D_ARRAY \<Rightarrow> w * arraySize imageInfo * pixel_bytes imageInfo
         | CL_MEM_OBJECT_IMAGE2D_ARRAY \<Rightarrow> w * h * arraySize imageInfo * pixel_bytes imageInfo),
      next_level (image_type imageInfo) (w, h, d)))"

definition compute_mipmapped_image_size :: "image_descriptor \<Rightarrow> u64" where
  "compute_mipmapped_image_size imageInfo =
     fst ((size_step imageInfo ^^ nat (sint (num_mip_levels imageInfo)))
       (0, width imageInfo, height imageInfo, depth imageInfo))"

definition offset_step :: "image_descriptor \<Rightarrow> u64 \<times> u64 \<times> u64 \<times> u64 \<Rightarrow> u64 \<times> u64 \<times> u64 \<times> u64" where
  "offset_step imageInfo = (\<lambda>(retOffset, w, h, d).
     (retOffset +
        (case image_type imageInfo of
           CL_MEM_OBJECT_IMAGE2D_ARRAY \<Rightarrow> w * h * arraySize imageInfo * pixel_bytes imageInfo
         | CL_MEM_OBJECT_IMAGE3D \<Rightarrow> w * h * d * pixel_bytes imageInfo
         | CL_MEM_OBJECT_IMAGE1D_ARRAY \<Rightarrow> w * arraySize imageInfo * pixel_bytes imageInfo
         | CL_MEM_OBJECT_IMAGE2D \<Rightarrow> w * h * pixel_bytes imageInfo
         | CL_MEM_OBJECT_IMAGE1D_BUFFER \<Rightarrow> w * pixel_bytes imageInfo
         | CL_MEM_OBJECT_IMAGE1D \<Rightarrow> w * pixel_bytes imageInfo),
      next_level (image_type imageInfo) (w, h, d)))"

definition compute_mip_level_offset :: "image_descriptor \<Rightarrow> u64 \<Rightarrow> u64" where
  "compute_mip_level_offset imageInfo lod =
     fst ((offset_step imageInfo ^^ unat lod) (0, width imageInfo, height imageInfo, depth imageInfo))"

definition get_image_size :: "image_descriptor \<Rightarrow> u64" where
  "get_image_size imageInfo =
     (if num_mip_levels imageInfo > 1 then compute_mipmapped_image_size imageInfo
      else
        (case image_type imageInfo of
           CL_MEM_OBJECT_IMAGE1D_BUFFER \<Rightarrow> rowPitch imageInfo
         | CL_MEM_OBJECT_IMAGE1D \<Rightarrow> rowPitch imageInfo
         | CL_MEM_OBJECT_IMAGE2D \<Rightarrow> height imageInfo * rowPitch imageInfo
         | CL_MEM_OBJECT_IMAGE3D \<Rightarrow> depth imageInfo * slicePitch imageInfo
         | CL_MEM_OBJECT_IMAGE1D_ARRAY \<Rightarrow> arraySize imageInfo * slicePitch imageInfo
         | CL_MEM_OBJECT_IMAGE2D_ARRAY \<Rightarrow> arraySize imageInfo * slicePitch imageInfo))"

definition get_image_size_mb :: "image_descriptor \<Rightarrow> u64" where
  "get_image_size_mb imageInfo =
     (let imageSize = get_image_size imageInfo; mb = imageSize div (1024 * 1024)
      in if imageSize mod (1024 * 1024) > 0 then mb + 1 else mb)"

definition is_width_compatible :: "image_descriptor \<Rightarrow> bool" where
  "is_width_compatible imageInfo \<longleftrightarrow>
     (if image_channel_data_type (pixel_format imageInfo) = CL_UNSIGNED_INT_RAW10_EXT \<and> width imageInfo mod 4 \<noteq> 0
      then False
      else if image_channel_data_type (pixel_format imageInfo) = CL_UNSIGNED_INT_RAW12_EXT \<and> width imageInfo mod 2 \<noteq> 0
      then False else True)"

definition calculate_row_pitch :: "image_descriptor \<Rightarrow> u64 \<Rightarrow> u64" where
  "calculate_row_pitch imageInfo pixelSize =
     (if image_channel_data_type (pixel_format imageInfo) = CL_UNSIGNED_INT_RAW10_EXT
      then (width imageInfo * 5) div 4
      else if image_channel_data_type (pixel_format imageInfo) = CL_UNSIGNED_INT_RAW12_EXT
      then (width imageInfo * 3) div 2
      else width imageInfo * pixelSize)"

section \<open>The layout of the levels\<close>

text \<open>
  The dimensions of level \<open>i\<close> without a loop, as \<open>read_image_pixel\<close> and \<open>copy_image_data\<close>
  compute them, and the bytes of the level.
\<close>

definition level_dim :: "nat \<Rightarrow> u64 \<Rightarrow> u64" where
  "level_dim i x = (if i = 0 then x else shifted i x)"

fun level_pixels :: "image_descriptor \<Rightarrow> nat \<Rightarrow> u64" where
  "level_pixels img i =
     (let w = level_dim i (width img); h = level_dim i (height img); d = level_dim i (depth img)
      in case image_type img of
           CL_MEM_OBJECT_IMAGE1D \<Rightarrow> w
         | CL_MEM_OBJECT_IMAGE1D_BUFFER \<Rightarrow> w
         | CL_MEM_OBJECT_IMAGE1D_ARRAY \<Rightarrow> w * arraySize img
         | CL_MEM_OBJECT_IMAGE2D \<Rightarrow> w * h
         | CL_MEM_OBJECT_IMAGE2D_ARRAY \<Rightarrow> w * h * arraySize img
         | CL_MEM_OBJECT_IMAGE3D \<Rightarrow> w * h * d)"

declare level_pixels.simps [simp del]

lemma shifted_Suc: "shifted (Suc 0) (level_dim i x) = level_dim (Suc i) x"
proof (cases "i = 0 \<or> drop_bit i x \<noteq> 0")
  case False
  have "drop_bit (1 + i) x = drop_bit 1 (drop_bit i x)" by (simp only: drop_bit_drop_bit)
  then have "drop_bit (Suc i) x = 0" using False by (simp del: drop_bit_drop_bit)
  moreover have "drop_bit 1 (1 :: u64) = 0" by simp
  ultimately show ?thesis using False by (simp add: level_dim_def shifted_def)
qed (auto simp: level_dim_def shifted_def drop_bit_drop_bit)

text \<open>Which dimensions shrink, by type.\<close>

definition dims_at :: "image_descriptor \<Rightarrow> nat \<Rightarrow> u64 \<times> u64 \<times> u64" where
  "dims_at img i =
     (level_dim i (width img),
      if image_type img \<in> {CL_MEM_OBJECT_IMAGE2D, CL_MEM_OBJECT_IMAGE2D_ARRAY, CL_MEM_OBJECT_IMAGE3D}
      then level_dim i (height img) else height img,
      if image_type img = CL_MEM_OBJECT_IMAGE3D then level_dim i (depth img) else depth img)"

lemma next_dims: "next_level (image_type img) (dims_at img i) = dims_at img (Suc i)"
  by (cases "image_type img") (simp_all add: dims_at_def shifted_Suc)

lemma size_step_at:
  "size_step img (s, dims_at img n) = (s + level_pixels img n * pixel_bytes img, dims_at img (Suc n))"
  unfolding size_step_def next_dims [symmetric] dims_at_def
  by (cases "image_type img") (simp_all add: level_pixels.simps shifted_Suc)

lemma offset_step_at:
  "offset_step img (s, dims_at img n) = (s + level_pixels img n * pixel_bytes img, dims_at img (Suc n))"
  unfolding offset_step_def next_dims [symmetric] dims_at_def
  by (cases "image_type img") (simp_all add: level_pixels.simps shifted_Suc)

lemma dims_at_0: "(width img, height img, depth img) = dims_at img 0"
  by (simp add: dims_at_def level_dim_def)

lemma size_loop:
  "(size_step img ^^ n) (0, dims_at img 0) = (\<Sum>i<n. level_pixels img i * pixel_bytes img, dims_at img n)"
  by (induction n) (simp_all add: size_step_at)

lemma offset_loop:
  "(offset_step img ^^ n) (0, dims_at img 0) = (\<Sum>i<n. level_pixels img i * pixel_bytes img, dims_at img n)"
  by (induction n) (simp_all add: offset_step_at)

lemma nat_sint: "0 \<le> sint (w :: u32) \<Longrightarrow> nat (sint w) = unat w"
proof -
  assume "0 \<le> sint w"
  moreover have "sint w < 2 ^ 31" using sint_less [of w] by simp
  ultimately have "take_bit 32 (sint w) = sint w" by (intro take_bit_int_eq_self) simp_all
  moreover have "uint w = take_bit LENGTH(32) (sint w)" by (rule uint_sint)
  ultimately have "sint w = int (unat w)" by simp
  then show ?thesis by (simp only: nat_int)
qed

text \<open>
  C23. The offset of a level is the sum of the sizes of those before it, and the size of the image
  is where one more level would start; the size of a level is that of the dimensions
  \<open>x >> i ? x >> i : 1\<close> by which pixels are addressed and copied, although both loops halve step by step.
\<close>

theorem mip_levels_are_adjacent:
  "compute_mip_level_offset img lod = (\<Sum>i<unat lod. level_pixels img i * pixel_bytes img) \<and>
   compute_mipmapped_image_size img =
     compute_mip_level_offset img (if 0 \<le> sint (num_mip_levels img) then ucast (num_mip_levels img) else 0) \<and>
   (if i = 0 then level_dim i x = x else level_dim i x = shifted i x)"
proof -
  have o: "compute_mip_level_offset img k = (\<Sum>i<unat k. level_pixels img i * pixel_bytes img)" for k
    by (simp only: compute_mip_level_offset_def dims_at_0 offset_loop fst_conv)
  have "nat (sint (num_mip_levels img)) =
      unat (if 0 \<le> sint (num_mip_levels img) then ucast (num_mip_levels img) else 0 :: u64)"
    using unat_bound [of "num_mip_levels img"]
    by (simp add: nat_sint unsigned_ucast_eq take_bit_nat_eq_self)
  then have "compute_mipmapped_image_size img =
      compute_mip_level_offset img (if 0 \<le> sint (num_mip_levels img) then ucast (num_mip_levels img) else 0)"
    unfolding o by (simp only: compute_mipmapped_image_size_def dims_at_0 size_loop fst_conv)
  then show ?thesis using o by (simp add: level_dim_def)
qed

section \<open>The number of levels\<close>

text \<open>The number of binary digits.\<close>

definition digits2 :: "nat \<Rightarrow> nat \<Rightarrow> bool" where
  "digits2 n x \<longleftrightarrow> x < 2 ^ n \<and> (n = 0 \<or> 2 ^ (n - 1) \<le> x)"

lemma digits2_half: "digits2 n x \<Longrightarrow> 0 < x \<Longrightarrow> 0 < n \<and> digits2 (n - 1) (x div 2)"
  by (cases n; cases "n - 1") (auto simp: digits2_def)

lemma count_levels_digits: "digits2 n (unat x) \<Longrightarrow> count_levels x r = r + of_nat n"
proof (induction x r arbitrary: n rule: count_levels.induct)
  case (1 x r)
  show ?case
  proof (cases "x = 0")
    case True
    then have "n = 0" using 1(2) by (auto simp: digits2_def)
    then show ?thesis using True by (subst count_levels.simps) simp
  next
    case False
    then have n: "0 < n" "digits2 (n - 1) (unat x div 2)"
      using digits2_half [OF 1(2)] by (simp_all add: unat_gt_0)
    have "unat (drop_bit 1 x) = unat x div 2" by (simp only: unat_drop power_one_right)
    then have "count_levels (drop_bit 1 x) (r + 1) = r + 1 + of_nat (n - 1)"
      using 1(1) [OF False] n(2) by simp
    then show ?thesis using False n(1) by (subst count_levels.simps) (simp add: of_nat_diff)
  qed
qed

lemma digits2_exists: "\<exists>n. digits2 n x"
proof (cases "x = 0")
  case False
  then obtain k where "2 ^ k \<le> x" "x < 2 ^ Suc k" using ex_power_ivl1 [of 2 x] by auto
  then show ?thesis by (intro exI [of _ "Suc k"]) (simp add: digits2_def)
qed (auto simp: digits2_def intro: exI [of _ 0])

text \<open>
  The number of levels is the number of binary digits of the largest dimension, at most 64,
  and 0 when all are 0: after that many halvings the largest dimension is 0.
\<close>

theorem max_mip_levels_digits:
  "\<exists>n. unat (compute_max_mip_levels w h d) = n \<and> n \<le> 64 \<and> digits2 n (max (unat w) (max (unat h) (unat d)))"
proof -
  define m where "m = (let m = (if h > w then h else w) in if d > m then d else m)"
  have m: "unat m = max (unat w) (max (unat h) (unat d))"
    by (auto simp: m_def Let_def word_less_nat_alt)
  obtain n where n: "digits2 n (unat m)" using digits2_exists by blast
  have "n \<le> 64"
  proof (rule ccontr)
    assume "\<not> n \<le> 64"
    then have "2 ^ 64 \<le> (2 :: nat) ^ (n - 1)" by (intro power_increasing) auto
    then show False using n unat_bound [of m] \<open>\<not> n \<le> 64\<close> by (simp add: digits2_def)
  qed
  moreover have "compute_max_mip_levels w h d = of_nat n"
    using count_levels_digits [OF n, of 0] by (simp add: compute_max_mip_levels_def m_def Let_def)
  ultimately show ?thesis using n unat_word_of_nat [of n, where ?'a = 32] by (simp add: m)
qed

end
