(* ===== verification/ImagePixels.thy ===== *)
theory ImagePixels
  imports ImageLevels
begin

text \<open>
  Pixels: \<open>read_image_pixel\<close> (\<^verbatim>\<open>imageHelpers.h\<close>) and the integer versions of
  \<open>pack_image_pixel\<close> (\<^verbatim>\<open>imageHelpers.cpp\<close>). The template parameter of the
  reader is a type variable with the conversions to it; those of half floats are in the OpenCL
  headers. A pixel is a list of four components.
\<close>

section \<open>Reading\<close>

record 't conversions =
  of_integer :: "int \<Rightarrow> 't"
  of_half :: "u16 \<Rightarrow> 't"
  of_float :: "u32 \<Rightarrow> 't"

text \<open>\<open>for (i = 0; i < n; i++) tempData[i] = f(i)\<close>\<close>

definition fill :: "nat \<Rightarrow> (nat \<Rightarrow> 't) \<Rightarrow> 't list \<Rightarrow> 't list" where
  "fill n f tempData = fold (\<lambda>i t. t[i := f i]) [0..<n] tempData"

text \<open>\<open>(int)\<close> of a \<open>size_t\<close>\<close>

definition to_int :: "u64 \<Rightarrow> int" where "to_int x = sint (ucast x :: u32)"

text \<open>The dimensions and pitches of the level: width, height, depth, row and slice pitch.\<close>

definition lod_geometry :: "image_descriptor \<Rightarrow> nat \<Rightarrow> u64 \<times> u64 \<times> u64 \<times> u64 \<times> u64" where
  "lod_geometry imageInfo lod =
     (let width_lod = shifted lod (width imageInfo);
          height_lod = (if image_type imageInfo \<noteq> CL_MEM_OBJECT_IMAGE1D_ARRAY \<and>
              image_type imageInfo \<noteq> CL_MEM_OBJECT_IMAGE1D
            then shifted lod (height imageInfo) else height imageInfo);
          depth_lod = (if image_type imageInfo = CL_MEM_OBJECT_IMAGE3D
            then shifted lod (depth imageInfo) else depth imageInfo);
          row_pitch_lod = (if num_mip_levels imageInfo > 0 then width_lod * pixel_bytes imageInfo else rowPitch imageInfo);
          slice_pitch_lod = (if num_mip_levels imageInfo > 0 then row_pitch_lod * height_lod else slicePitch imageInfo);
          (height_lod, depth_lod) =
            (if image_type imageInfo = CL_MEM_OBJECT_IMAGE1D_ARRAY \<and> height_lod = 1 \<and> depth_lod = 1
             then (0, 0) else (height_lod, depth_lod));
          depth_lod = (if image_type imageInfo = CL_MEM_OBJECT_IMAGE2D_ARRAY \<and> depth_lod = 1 then 0 else depth_lod)
      in (width_lod, height_lod, depth_lod, row_pitch_lod, slice_pitch_lod))"

definition outside :: "image_descriptor \<Rightarrow> nat \<Rightarrow> int \<Rightarrow> int \<Rightarrow> int \<Rightarrow> bool" where
  "outside imageInfo lod x y z \<longleftrightarrow>
     (case lod_geometry imageInfo lod of (width_lod, height_lod, depth_lod, _, _) \<Rightarrow>
        x < 0 \<or> x \<ge> to_int width_lod \<or>
        (height_lod \<noteq> 0 \<and> (y < 0 \<or> y \<ge> to_int height_lod)) \<or>
        (depth_lod \<noteq> 0 \<and> (z < 0 \<or> z \<ge> to_int depth_lod)) \<or>
        (arraySize imageInfo \<noteq> 0 \<and> (z < 0 \<or> z \<ge> to_int (arraySize imageInfo))))"

text \<open>The offset of the pixel from the start of the level, a sum of \<open>size_t\<close>.\<close>

definition pixel_ptr :: "image_descriptor \<Rightarrow> nat \<Rightarrow> int \<Rightarrow> int \<Rightarrow> int \<Rightarrow> nat" where
  "pixel_ptr imageInfo lod x y z =
     (case lod_geometry imageInfo lod of (_, _, _, row_pitch_lod, slice_pitch_lod) \<Rightarrow>
        unat (word_of_int z * slice_pitch_lod + word_of_int y * row_pitch_lod +
          (case image_channel_data_type (pixel_format imageInfo) of
             CL_UNSIGNED_INT_RAW10_EXT \<Rightarrow> (word_of_int x div 4) * 5
           | CL_UNSIGNED_INT_RAW12_EXT \<Rightarrow> (word_of_int x div 2) * 3
           | _ \<Rightarrow> word_of_int x * pixel_bytes imageInfo)))"

text \<open>
  The channels at \<open>ptr\<close>; \<open>tempData\<close> is uninitialized. The types without a case leave it so.
\<close>

definition read_channels ::
  "'t conversions \<Rightarrow> image_format \<Rightarrow> int \<Rightarrow> memory \<Rightarrow> nat \<Rightarrow> 't list \<Rightarrow> 't list" where
  "read_channels T format x m ptr tempData =
     (let n = unat (get_format_channel_count format);
          u8 = fill n (\<lambda>i. of_integer T (uint (get8 m (ptr + i))));
          s8 = fill n (\<lambda>i. of_integer T (sint (get8 m (ptr + i))));
          u16 = fill n (\<lambda>i. of_integer T (uint (get16 m (ptr + i * 2))));
          s16 = fill n (\<lambda>i. of_integer T (sint (get16 m (ptr + i * 2))));
          bits16 = (\<lambda>k mask. of_integer T (uint (drop_bit k (get16 m ptr) AND mask)));
          bits32 = (\<lambda>k. of_integer T (uint (drop_bit k (get32 m ptr) AND 0x3ff)));
          raw = (\<lambda>i w lo. of_integer T (uint ((push_bit w (ucast (m (ptr + i))) :: u16) OR
            ucast (drop_bit (i * w) ((ucast (m (ptr + lo)) :: u32) AND push_bit (i * w) (2 ^ w - 1))))))
      in case image_channel_data_type format of
           CL_SNORM_INT8 \<Rightarrow> s8 tempData
         | CL_UNORM_INT8 \<Rightarrow> u8 tempData
         | CL_SIGNED_INT8 \<Rightarrow> s8 tempData
         | CL_UNSIGNED_INT8 \<Rightarrow> u8 tempData
         | CL_SNORM_INT16 \<Rightarrow> s16 tempData
         | CL_UNORM_INT16 \<Rightarrow> u16 tempData
         | CL_SIGNED_INT16 \<Rightarrow> s16 tempData
         | CL_UNSIGNED_INT16 \<Rightarrow> u16 tempData
         | CL_HALF_FLOAT \<Rightarrow> fill n (\<lambda>i. of_half T (get16 m (ptr + i * 2))) tempData
         | CL_SIGNED_INT32 \<Rightarrow> fill n (\<lambda>i. of_integer T (sint (get32 m (ptr + i * 4)))) tempData
         | CL_UNSIGNED_INT32 \<Rightarrow> fill n (\<lambda>i. of_integer T (uint (get32 m (ptr + i * 4)))) tempData
         | CL_UNORM_SHORT_565 \<Rightarrow> tempData[0 := bits16 11 (- 1), 1 := bits16 5 63, 2 := bits16 0 31]
         | CL_UNORM_SHORT_555 \<Rightarrow> tempData[0 := bits16 10 31, 1 := bits16 5 31, 2 := bits16 0 31]
         | CL_UNORM_INT_101010 \<Rightarrow> tempData[0 := bits32 20, 1 := bits32 10, 2 := bits32 0]
         | CL_FLOAT \<Rightarrow> fill n (\<lambda>i. of_float T (get32 m (ptr + i * 4))) tempData
         | CL_UNSIGNED_INT_RAW10_EXT \<Rightarrow> tempData[0 := raw (nat (x mod 4)) 2 4]
         | CL_UNSIGNED_INT_RAW12_EXT \<Rightarrow> tempData[0 := raw (nat (x mod 2)) 4 2]
         | _ \<Rightarrow> tempData)"

definition order_channels :: "channel_order \<Rightarrow> 't list \<Rightarrow> 't list \<Rightarrow> 't list" where
  "order_channels ord t outData =
     (case ord of
        CL_A \<Rightarrow> outData[3 := t ! 0]
      | CL_R \<Rightarrow> outData[0 := t ! 0]
      | CL_Rx \<Rightarrow> outData[0 := t ! 0]
      | CL_RA \<Rightarrow> outData[0 := t ! 0, 3 := t ! 1]
      | CL_RG \<Rightarrow> outData[0 := t ! 0, 1 := t ! 1]
      | CL_RGx \<Rightarrow> outData[0 := t ! 0, 1 := t ! 1]
      | CL_RGB \<Rightarrow> outData[0 := t ! 0, 1 := t ! 1, 2 := t ! 2]
      | CL_sRGB \<Rightarrow> outData[0 := t ! 0, 1 := t ! 1, 2 := t ! 2]
      | CL_RGBA \<Rightarrow> outData[0 := t ! 0, 1 := t ! 1, 2 := t ! 2, 3 := t ! 3]
      | CL_sRGBA \<Rightarrow> outData[0 := t ! 0, 1 := t ! 1, 2 := t ! 2, 3 := t ! 3]
      | CL_ARGB \<Rightarrow> outData[0 := t ! 1, 1 := t ! 2, 2 := t ! 3, 3 := t ! 0]
      | CL_ABGR \<Rightarrow> outData[0 := t ! 3, 1 := t ! 2, 2 := t ! 1, 3 := t ! 0]
      | CL_BGRA \<Rightarrow> outData[0 := t ! 2, 1 := t ! 1, 2 := t ! 0, 3 := t ! 3]
      | CL_sBGRA \<Rightarrow> outData[0 := t ! 2, 1 := t ! 1, 2 := t ! 0, 3 := t ! 3]
      | CL_INTENSITY \<Rightarrow> outData[0 := t ! 0, 1 := t ! 0, 2 := t ! 0, 3 := t ! 0]
      | CL_LUMINANCE \<Rightarrow> outData[0 := t ! 0, 1 := t ! 0, 2 := t ! 0]
      | CL_DEPTH \<Rightarrow> outData[0 := t ! 0]
      | _ \<Rightarrow> outData)"

text \<open>\<open>CL_RGBx\<close> and \<open>CL_sRGBx\<close> also set the alpha channel, to 0; \<open>CL_DEPTH_STENCIL\<close> is an error message.\<close>

definition read_image_pixel ::
  "'t conversions \<Rightarrow> 't list \<Rightarrow> memory \<Rightarrow> image_descriptor \<Rightarrow> int \<Rightarrow> int \<Rightarrow> int \<Rightarrow> 't list \<Rightarrow> nat \<Rightarrow> 't list" where
  "read_image_pixel T tempData imageData imageInfo x y z outData lod =
     (let ord = image_channel_order (pixel_format imageInfo); k = of_integer T
      in if outside imageInfo lod x y z then
           (if ord = CL_DEPTH then outData[0 := k 1]
            else let outData = outData[0 := k 0, 1 := k 0, 2 := k 0, 3 := k 0]
                 in if \<not> has_alpha (pixel_format imageInfo) then outData[3 := k 1] else outData)
         else
           let t = read_channels T (pixel_format imageInfo) x imageData (pixel_ptr imageInfo lod x y z) tempData;
               outData = outData[0 := k 0, 1 := k 0, 2 := k 0, 3 := k 1]
           in if ord = CL_RGBx \<or> ord = CL_sRGBx
              then outData[0 := t ! 0, 1 := t ! 1, 2 := t ! 2, 3 := k 0]
              else order_channels ord t outData)"

section \<open>Packing\<close>

definition swizzle_vector_for_image :: "'t list \<Rightarrow> channel_order \<Rightarrow> 't list" where
  "swizzle_vector_for_image v ord =
     (case ord of
        CL_A \<Rightarrow> v[0 := v ! 3]
      | CL_RA \<Rightarrow> v[1 := v ! 3]
      | CL_ARGB \<Rightarrow> let temp = v ! 3; v = v[3 := v ! 2]; v = v[2 := v ! 1]; v = v[1 := v ! 0] in v[0 := temp]
      | CL_ABGR \<Rightarrow>
          let temp = v ! 3; v = v[3 := v ! 0]; v = v[0 := temp]; temp = v ! 2; v = v[2 := v ! 1] in v[1 := temp]
      | CL_BGRA \<Rightarrow> let temp = v ! 0; v = v[0 := v ! 2] in v[2 := temp]
      | CL_sBGRA \<Rightarrow> let temp = v ! 0; v = v[0 := v ! 2] in v[2 := temp]
      | CL_INTENSITY \<Rightarrow> let v = v[3 := v ! 0]; v = v[2 := v ! 0] in v[1 := v ! 0]
      | CL_LUMINANCE \<Rightarrow> let v = v[2 := v ! 0] in v[1 := v ! 0]
      | _ \<Rightarrow> v)"

definition saturate :: "int \<Rightarrow> int \<Rightarrow> int \<Rightarrow> int" where
  "saturate lo hi v = (if v < lo then lo else if v > hi then hi else v)"

text \<open>
  Both return the vector, swizzled in place, and the memory after the channels have been stored at
  \<open>outData\<close>; a format of the other signedness stores nothing.
\<close>

definition pack_image_pixel_unsigned ::
  "u32 list \<Rightarrow> image_format \<Rightarrow> nat \<Rightarrow> memory \<Rightarrow> u32 list \<times> memory" where
  "pack_image_pixel_unsigned srcVector format outData m =
     (let v = swizzle_vector_for_image srcVector (image_channel_order format);
          n = unat (get_format_channel_count format)
      in (v, case image_channel_data_type format of
               CL_UNSIGNED_INT8 \<Rightarrow> put_array put8 1 outData (\<lambda>i. word_of_int (saturate 0 255 (uint (v ! i)))) n m
             | CL_UNSIGNED_INT16 \<Rightarrow> put_array put16 2 outData (\<lambda>i. word_of_int (saturate 0 65535 (uint (v ! i)))) n m
             | CL_UNSIGNED_INT32 \<Rightarrow> put_array put32 4 outData (\<lambda>i. v ! i) n m
             | _ \<Rightarrow> m))"

definition pack_image_pixel_signed ::
  "u32 list \<Rightarrow> image_format \<Rightarrow> nat \<Rightarrow> memory \<Rightarrow> u32 list \<times> memory" where
  "pack_image_pixel_signed srcVector format outData m =
     (let v = swizzle_vector_for_image srcVector (image_channel_order format);
          n = unat (get_format_channel_count format)
      in (v, case image_channel_data_type format of
               CL_SIGNED_INT8 \<Rightarrow> put_array put8 1 outData (\<lambda>i. word_of_int (saturate (- 128) 127 (sint (v ! i)))) n m
             | CL_SIGNED_INT16 \<Rightarrow>
                 put_array put16 2 outData (\<lambda>i. word_of_int (saturate (- 32768) 32767 (sint (v ! i)))) n m
             | CL_SIGNED_INT32 \<Rightarrow> put_array put32 4 outData (\<lambda>i. v ! i) n m
             | _ \<Rightarrow> m))"

section \<open>What is packed is read\<close>

lemma length_fill [simp]: "length (fill n f t) = length t"
  unfolding fill_def by (induction n) simp_all

lemma fill_nth: "i < n \<Longrightarrow> i < length t \<Longrightarrow> fill n f t ! i = f i"
proof (induction n)
  case (Suc n)
  have "fill (Suc n) f t = (fill n f t)[n := f n]" by (simp add: fill_def)
  then show ?case using Suc by (cases "i = n") auto
qed simp

text \<open>The value a channel is stored as: the closest of the range of its type.\<close>

definition packed_value :: "channel_type \<Rightarrow> u32 \<Rightarrow> int" where
  "packed_value ty c =
     (case ty of
        CL_UNSIGNED_INT8 \<Rightarrow> min 255 (uint c)
      | CL_UNSIGNED_INT16 \<Rightarrow> min 65535 (uint c)
      | CL_UNSIGNED_INT32 \<Rightarrow> uint c
      | CL_SIGNED_INT8 \<Rightarrow> max (- 128) (min 127 (sint c))
      | CL_SIGNED_INT16 \<Rightarrow> max (- 32768) (min 32767 (sint c))
      | _ \<Rightarrow> sint c)"

definition packs :: "channel_type \<Rightarrow> (u32 list \<Rightarrow> image_format \<Rightarrow> nat \<Rightarrow> memory \<Rightarrow> u32 list \<times> memory) \<Rightarrow> bool" where
  "packs ty pack \<longleftrightarrow>
     ty \<in> {CL_UNSIGNED_INT8, CL_UNSIGNED_INT16, CL_UNSIGNED_INT32} \<and> pack = pack_image_pixel_unsigned \<or>
     ty \<in> {CL_SIGNED_INT8, CL_SIGNED_INT16, CL_SIGNED_INT32} \<and> pack = pack_image_pixel_signed"

lemma unsigned_in_range: "0 \<le> k \<Longrightarrow> k < 2 ^ LENGTH('a) \<Longrightarrow> uint (word_of_int k :: 'a::len word) = k"
  by (simp add: unsigned_of_int take_bit_int_eq_self)

lemma signed_in_range:
  "- (2 ^ (LENGTH('a) - 1)) \<le> k \<Longrightarrow> k < 2 ^ (LENGTH('a) - 1) \<Longrightarrow> sint (word_of_int k :: 'a::len word) = k"
  by (simp add: signed_of_int signed_take_bit_int_eq_self)

lemma packed_saturates:
  "uint (word_of_int (saturate 0 255 (uint c)) :: u8) = packed_value CL_UNSIGNED_INT8 c"
  "uint (word_of_int (saturate 0 65535 (uint c)) :: u16) = packed_value CL_UNSIGNED_INT16 c"
  "sint (word_of_int (saturate (- 128) 127 (sint c)) :: u8) = packed_value CL_SIGNED_INT8 c"
  "sint (word_of_int (saturate (- 32768) 32767 (sint c)) :: u16) = packed_value CL_SIGNED_INT16 c"
proof -
  have "0 \<le> uint c" by simp
  then show "uint (word_of_int (saturate 0 255 (uint c)) :: u8) = packed_value CL_UNSIGNED_INT8 c"
      "uint (word_of_int (saturate 0 65535 (uint c)) :: u16) = packed_value CL_UNSIGNED_INT16 c"
    by (subst unsigned_in_range; auto simp: saturate_def packed_value_def)+
  show "sint (word_of_int (saturate (- 128) 127 (sint c)) :: u8) = packed_value CL_SIGNED_INT8 c"
      "sint (word_of_int (saturate (- 32768) 32767 (sint c)) :: u16) = packed_value CL_SIGNED_INT16 c"
    by (subst signed_in_range; auto simp: saturate_def packed_value_def)+
qed

lemma read_packed:
  assumes "packs (image_channel_data_type format) pack" "i < unat (get_format_channel_count format)" "i < length t"
  shows "read_channels T format x (snd (pack v format ptr m)) ptr t ! i =
    of_integer T (packed_value (image_channel_data_type format)
      (swizzle_vector_for_image v (image_channel_order format) ! i))"
  using assms mem8.put_array_get [OF assms(2), of ptr] mem16.put_array_get [OF assms(2), of ptr]
    mem32.put_array_get [OF assms(2), of ptr]
  by (auto simp: packs_def read_channels_def pack_image_pixel_unsigned_def pack_image_pixel_signed_def Let_def
      fill_nth packed_saturates, simp_all add: packed_value_def)

text \<open>
  What a reader of the order sees of the four components \<open>v\<close>: red, green, blue and alpha where the
  format has them, 0 for a missing color and 1 for a missing alpha.
\<close>

definition visible :: "channel_order \<Rightarrow> 't \<Rightarrow> 't \<Rightarrow> 't list \<Rightarrow> 't list" where
  "visible ord zero one v =
     (case ord of
        CL_A \<Rightarrow> [zero, zero, zero, v ! 3]
      | CL_R \<Rightarrow> [v ! 0, zero, zero, one]
      | CL_Rx \<Rightarrow> [v ! 0, zero, zero, one]
      | CL_DEPTH \<Rightarrow> [v ! 0, zero, zero, one]
      | CL_RG \<Rightarrow> [v ! 0, v ! 1, zero, one]
      | CL_RGx \<Rightarrow> [v ! 0, v ! 1, zero, one]
      | CL_RA \<Rightarrow> [v ! 0, zero, zero, v ! 3]
      | CL_RGB \<Rightarrow> [v ! 0, v ! 1, v ! 2, one]
      | CL_sRGB \<Rightarrow> [v ! 0, v ! 1, v ! 2, one]
      | CL_RGBx \<Rightarrow> [v ! 0, v ! 1, v ! 2, zero]
      | CL_sRGBx \<Rightarrow> [v ! 0, v ! 1, v ! 2, zero]
      | CL_INTENSITY \<Rightarrow> [v ! 0, v ! 0, v ! 0, v ! 0]
      | CL_LUMINANCE \<Rightarrow> [v ! 0, v ! 0, v ! 0, one]
      | _ \<Rightarrow> v)"

lemma four: "length v = 4 \<Longrightarrow> \<exists>a b c d. v = [a, b, c, d]"
  by (auto simp: numeral_eq_Suc length_Suc_conv)

lemma upd4:
  "[p, q, r, s][0 := e] = [e, q, r, s]" "[p, q, r, s][Suc 0 := e] = [p, e, r, s]"
  "[p, q, r, s][2 := e] = [p, q, e, s]" "[p, q, r, s][3 := e] = [p, q, r, e]"
  by (simp_all add: numeral_eq_Suc)

lemma ordered:
  assumes "length v = 4" "length outData = 4" "ord \<noteq> CL_DEPTH_STENCIL"
    and t: "\<And>i. i < unat (get_channel_order_channel_count ord) \<Longrightarrow> t ! i = f (swizzle_vector_for_image v ord ! i)"
  shows "(if ord = CL_RGBx \<or> ord = CL_sRGBx
      then outData[0 := zero, 1 := zero, 2 := zero, 3 := one, 0 := t ! 0, 1 := t ! 1, 2 := t ! 2, 3 := zero]
      else order_channels ord t (outData[0 := zero, 1 := zero, 2 := zero, 3 := one])) =
    visible ord zero one (map f v)"
proof -
  obtain a b c d where v: "v = [a, b, c, d]" using four [OF assms(1)] by blast
  obtain p q r s where o: "outData = [p, q, r, s]" using four [OF assms(2)] by blast
  show ?thesis using t [of 0] t [of 1] t [of 2] t [of 3] assms(3) unfolding v o
    by (cases ord) (simp_all add: order_channels_def visible_def swizzle_vector_for_image_def Let_def upd4)
qed

text \<open>
  C20. An integer pixel packed at the address of a pixel of an image, in any of the 19 channel orders
  that can be packed, is read there as the vector that was packed: every component the order has is
  the closest value of the channel type, at its place, whatever the swizzle; missing colors are 0 and
  a missing alpha is 1, except that \<open>CL_RGBx\<close> and \<open>CL_sRGBx\<close> show 0.
\<close>

theorem pack_read_roundtrip:
  assumes "packs (image_channel_data_type (pixel_format img)) pack"
    "image_channel_order (pixel_format img) \<noteq> CL_DEPTH_STENCIL"
    "length v = 4" "length outData = 4" "length tempData = 4" "\<not> outside img lod x y z"
  shows "read_image_pixel T tempData (snd (pack v (pixel_format img) (pixel_ptr img lod x y z) m)) img x y z outData lod =
    visible (image_channel_order (pixel_format img)) (of_integer T 0) (of_integer T 1)
      (map (\<lambda>c. of_integer T (packed_value (image_channel_data_type (pixel_format img)) c)) v)"
proof -
  let ?ord = "image_channel_order (pixel_format img)"
  have count: "unat (get_channel_order_channel_count ?ord) \<le> 4" by (cases ?ord) simp_all
  define t where "t = read_channels T (pixel_format img) x
    (snd (pack v (pixel_format img) (pixel_ptr img lod x y z) m)) (pixel_ptr img lod x y z) tempData"
  have "t ! i = of_integer T (packed_value (image_channel_data_type (pixel_format img)) (swizzle_vector_for_image v ?ord ! i))"
    if "i < unat (get_channel_order_channel_count ?ord)" for i
    unfolding t_def using that count assms(5)
    by (intro read_packed [OF assms(1)]) (simp_all add: get_format_channel_count_def)
  from ordered [OF assms(3,4,2) this, of "of_integer T 0" "of_integer T 1"]
  show ?thesis using assms(6) by (simp only: read_image_pixel_def Let_def t_def [symmetric] if_False)
qed

theorem pack_read_roundtrip_witness:
  "read_image_pixel \<lparr>of_integer = \<lambda>k. k, of_half = \<lambda>_. 0, of_float = \<lambda>_. 0\<rparr> [0, 0, 0, 0]
     (snd (pack_image_pixel_signed [300, 2, - 300, 4] (format_of CL_BGRA CL_SIGNED_INT8) 28 (\<lambda>_. 0)))
     \<lparr>width = 4, height = 2, depth = 1, rowPitch = 16, slicePitch = 0, arraySize = 0,
       pixel_format = format_of CL_BGRA CL_SIGNED_INT8, image_type = CL_MEM_OBJECT_IMAGE2D, num_mip_levels = 0\<rparr>
     3 1 0 [0, 0, 0, 0] 0 = [127, 2, - 128, 4]"
  (is "read_image_pixel ?T ?t (snd (pack_image_pixel_signed ?v ?f 28 ?m)) ?img 3 1 0 ?t 0 = _")
proof -
  have ptr: "pixel_ptr ?img 0 3 1 0 = 28" "\<not> outside ?img 0 3 1 0" by code_simp+
  have "packs (image_channel_data_type (pixel_format ?img)) pack_image_pixel_signed" by (simp add: packs_def)
  from pack_read_roundtrip [OF this _ _ _ _ ptr(2), of ?v ?t ?t ?T ?m] ptr(1)
  show ?thesis by (simp add: visible_def packed_value_def)
qed

section \<open>Where pixels are\<close>

text \<open>
  An image without mipmap levels as the tests describe it: a row holds the pixels of a row, a slice the rows
  of a slice, the unused dimensions are 0 or 1, and the whole fits in memory. \<open>rows\<close> and \<open>slices\<close> are the
  ranges of the second and third coordinate.
\<close>

definition rows :: "image_descriptor \<Rightarrow> nat" where
  "rows img =
     (if image_type img \<in> {CL_MEM_OBJECT_IMAGE2D, CL_MEM_OBJECT_IMAGE2D_ARRAY, CL_MEM_OBJECT_IMAGE3D}
      then unat (height img) else 1)"

definition slices :: "image_descriptor \<Rightarrow> nat" where
  "slices img =
     (if image_type img = CL_MEM_OBJECT_IMAGE3D then unat (depth img)
      else if image_type img \<in> {CL_MEM_OBJECT_IMAGE1D_ARRAY, CL_MEM_OBJECT_IMAGE2D_ARRAY} then unat (arraySize img)
      else 1)"

definition sliced :: "image_descriptor \<Rightarrow> bool" where
  "sliced img \<longleftrightarrow>
     image_type img \<in> {CL_MEM_OBJECT_IMAGE3D, CL_MEM_OBJECT_IMAGE1D_ARRAY, CL_MEM_OBJECT_IMAGE2D_ARRAY}"

definition flat_image :: "image_descriptor \<Rightarrow> bool" where
  "flat_image img \<longleftrightarrow>
     num_mip_levels img = 0 \<and>
     image_channel_data_type (pixel_format img) \<notin> {CL_UNSIGNED_INT_RAW10_EXT, CL_UNSIGNED_INT_RAW12_EXT} \<and>
     unat (width img) * unat (get_pixel_size (pixel_format img)) \<le> unat (rowPitch img) \<and>
     (if sliced img then rows img * unat (rowPitch img) \<le> unat (slicePitch img) \<and>
        slices img * unat (slicePitch img) < 2 ^ 64
      else rows img * unat (rowPitch img) < 2 ^ 64) \<and>
     width img < 2 ^ 31 \<and> height img < 2 ^ 31 \<and> depth img < 2 ^ 31 \<and> arraySize img < 2 ^ 31 \<and>
     (if image_type img = CL_MEM_OBJECT_IMAGE1D_ARRAY then height img = 1 \<and> depth img = 1 \<or> depth img = 0
      else if image_type img = CL_MEM_OBJECT_IMAGE2D_ARRAY then depth img = 0 \<or> depth img = 1
      else image_type img = CL_MEM_OBJECT_IMAGE3D \<longrightarrow> arraySize img = 0)"

definition inside :: "image_descriptor \<Rightarrow> nat \<Rightarrow> nat \<Rightarrow> nat \<Rightarrow> bool" where
  "inside img x y z \<longleftrightarrow> x < unat (width img) \<and> y < rows img \<and> z < slices img"

lemma to_int_small: "x < 2 ^ 31 \<Longrightarrow> to_int x = int (unat x)"
proof -
  assume "x < 2 ^ 31"
  then have b: "unat x < 2 ^ 31" by (simp add: word_less_nat_alt)
  have "(ucast x :: u32) = word_of_int (int (unat x))" by simp
  moreover have "sint (word_of_int (int (unat x)) :: u32) = int (unat x)"
    by (rule signed_in_range; use b in \<open>simp del: of_nat_unat\<close>)
  ultimately show ?thesis unfolding to_int_def by simp
qed

lemma pixel_bytes_unat: "unat (pixel_bytes img) = unat (get_pixel_size (pixel_format img))"
  using unat_bound [of "get_pixel_size (pixel_format img)"]
  by (simp add: pixel_bytes_def unsigned_ucast_eq take_bit_nat_eq_self)

lemma row_fits:
  fixes x w s R :: nat
  assumes "x < w" "w * s \<le> R"
  shows "x * s + s \<le> R"
  using mult_le_mono1 [of "Suc x" w s] assms by simp

lemma flat_imageD:
  assumes "flat_image img"
  shows "unat (width img) * unat (get_pixel_size (pixel_format img)) \<le> unat (rowPitch img)"
    and "sliced img \<Longrightarrow> rows img * unat (rowPitch img) \<le> unat (slicePitch img)"
    and "sliced img \<Longrightarrow> slices img * unat (slicePitch img) < 2 ^ 64"
    and "\<not> sliced img \<Longrightarrow> rows img * unat (rowPitch img) < 2 ^ 64 \<and> slices img = 1"
  using assms by (auto simp: flat_image_def slices_def sliced_def split: if_splits)

text \<open>The extent of the image, and the place of a pixel in it, as plain numbers.\<close>

definition extent :: "image_descriptor \<Rightarrow> nat" where
  "extent img = (if sliced img then slices img * unat (slicePitch img) else rows img * unat (rowPitch img))"

definition place :: "image_descriptor \<Rightarrow> nat \<Rightarrow> nat \<Rightarrow> nat \<Rightarrow> nat" where
  "place img x y z = z * unat (slicePitch img) + y * unat (rowPitch img) +
     x * unat (get_pixel_size (pixel_format img))"

lemma place_in_extent:
  assumes "flat_image img" "inside img x y z"
  shows "place img x y z + unat (get_pixel_size (pixel_format img)) \<le> extent img"
proof -
  let ?s = "unat (get_pixel_size (pixel_format img))" and ?R = "unat (rowPitch img)" and ?S = "unat (slicePitch img)"
  have i: "x < unat (width img)" "y < rows img" "z < slices img" using assms(2) by (simp_all add: inside_def)
  have "y * ?R + (x * ?s + ?s) \<le> rows img * ?R"
    using row_fits [OF i(1) flat_imageD(1) [OF assms(1)]] row_fits [OF i(2) order_refl, of ?R] by linarith
  then show ?thesis
  proof (cases "sliced img")
    case True
    assume "y * ?R + (x * ?s + ?s) \<le> rows img * ?R"
    then have "z * ?S + (y * ?R + (x * ?s + ?s)) \<le> slices img * ?S"
      using row_fits [OF i(3) order_refl, of ?S] flat_imageD(2) [OF assms(1) True] by linarith
    then show ?thesis using True by (simp add: place_def extent_def)
  next
    case False
    assume "y * ?R + (x * ?s + ?s) \<le> rows img * ?R"
    then show ?thesis using False flat_imageD(4) [OF assms(1) False] i(3) by (simp add: place_def extent_def)
  qed
qed

lemma extent_bound: "flat_image img \<Longrightarrow> extent img < 2 ^ 64"
  using flat_imageD(3,4) by (cases "sliced img") (auto simp: extent_def)

lemma extent_size: "flat_image img \<Longrightarrow> unat (get_image_size img) = extent img"
proof -
  assume f: "flat_image img"
  have e: "get_image_size img = (if sliced img then of_nat (slices img) * slicePitch img else of_nat (rows img) * rowPitch img)"
    using f by (cases "image_type img")
      (simp_all add: get_image_size_def flat_image_def sliced_def slices_def rows_def)
  have "get_image_size img = of_nat (extent img)"
    unfolding e extent_def by simp
  then show ?thesis using extent_bound [OF f] by (simp add: unat_word_of_nat)
qed

lemma pixel_ptr_place:
  assumes "flat_image img" "inside img x y z"
  shows "pixel_ptr img 0 (int x) (int y) (int z) = place img x y z"
proof -
  have "place img x y z < 2 ^ 64"
    using place_in_extent [OF assms(1,2)] extent_bound [OF assms(1)] by simp
  moreover have "pixel_ptr img 0 (int x) (int y) (int z) = unat (of_nat (place img x y z) :: u64)"
  proof -
    have "of_nat (unat (get_pixel_size (pixel_format img))) = pixel_bytes img"
      by (simp flip: pixel_bytes_unat)
    then have "of_nat (place img x y z) = of_nat z * slicePitch img + of_nat y * rowPitch img + of_nat x * pixel_bytes img"
      by (simp add: place_def)
    moreover have "pixel_ptr img 0 (int x) (int y) (int z) =
        unat (of_nat z * slicePitch img + of_nat y * rowPitch img + of_nat x * pixel_bytes img)"
      using assms(1) by (cases "image_channel_data_type (pixel_format img)")
        (simp_all add: pixel_ptr_def lod_geometry_def flat_image_def Let_def)
    ultimately show ?thesis by simp
  qed
  ultimately show ?thesis by (simp add: unat_word_of_nat)
qed

text \<open>The test of a coordinate against a dimension, which counts only if it is not 0.\<close>

definition fits :: "int \<Rightarrow> u64 \<Rightarrow> bool" where
  "fits c n \<longleftrightarrow> \<not> (n \<noteq> 0 \<and> (c < 0 \<or> c \<ge> to_int n))"

lemma fits_less: "c < unat n \<Longrightarrow> n < 2 ^ 31 \<Longrightarrow> fits (int c) n"
  by (simp add: fits_def to_int_small del: of_nat_unat)

lemma fits_zero: "n < 2 ^ 31 \<Longrightarrow> fits 0 n"
  using fits_less [of 0 n] by (cases "n = 0") (simp_all add: unat_gt_0, simp add: fits_def)

lemma outside_fits:
  "outside img lod x y z \<longleftrightarrow>
     (case lod_geometry img lod of (w, h, d, _, _) \<Rightarrow>
        \<not> (0 \<le> x \<and> x < to_int w \<and> fits y h \<and> fits z d \<and> fits z (arraySize img)))"
  by (auto simp: outside_def fits_def split: prod.split)

lemma not_outside:
  assumes "flat_image img" "inside img x y z"
  shows "\<not> outside img 0 (int x) (int y) (int z)"
proof -
  have small: "width img < 2 ^ 31" "height img < 2 ^ 31" "depth img < 2 ^ 31" "arraySize img < 2 ^ 31"
    using assms(1) by (simp_all add: flat_image_def)
  have i: "x < unat (width img)" "y < rows img" "z < slices img" using assms(2) by (simp_all add: inside_def)
  have s0: "shifted 0 n = (if n \<noteq> 0 then n else 1)" for n by (simp add: shifted_def)
  have nz: "c < unat n \<Longrightarrow> n \<noteq> 0" for c and n :: u64 by auto
  have w: "int x < to_int (shifted 0 (width img))"
    using i(1) nz small(1) by (simp add: s0 to_int_small del: of_nat_unat)
  have zero: "fits 0 (height img)" "fits 0 (depth img)" "fits 0 (arraySize img)" "fits c 0" "fits 0 1" for c
    using fits_zero small by (simp_all add: fits_def to_int_small)
  show ?thesis
  proof (cases "image_type img")
    case CL_MEM_OBJECT_IMAGE1D
    then show ?thesis using i w zero by (simp add: outside_fits lod_geometry_def rows_def slices_def Let_def)
  next
    case CL_MEM_OBJECT_IMAGE1D_BUFFER
    then show ?thesis using i w zero by (simp add: outside_fits lod_geometry_def rows_def slices_def Let_def s0)
  next
    case CL_MEM_OBJECT_IMAGE1D_ARRAY
    then show ?thesis using i w zero fits_less [OF _ small(4), of z] assms(1)
      by (auto simp: outside_fits lod_geometry_def rows_def slices_def flat_image_def Let_def)
  next
    case CL_MEM_OBJECT_IMAGE2D
    then show ?thesis using i w zero fits_less [OF _ small(2), of y] nz
      by (auto simp: outside_fits lod_geometry_def rows_def slices_def Let_def s0)
  next
    case CL_MEM_OBJECT_IMAGE2D_ARRAY
    then show ?thesis using i w zero fits_less [OF _ small(2), of y] fits_less [OF _ small(4), of z] nz assms(1)
      by (auto simp: outside_fits lod_geometry_def rows_def slices_def flat_image_def Let_def s0)
  next
    case CL_MEM_OBJECT_IMAGE3D
    then show ?thesis using i w zero fits_less [OF _ small(2), of y] fits_less [OF _ small(3), of z] nz assms(1)
      by (auto simp: outside_fits lod_geometry_def rows_def slices_def flat_image_def Let_def s0)
  qed
qed

text \<open>Pixels in the order of their places: by slice, row and column.\<close>

definition before :: "nat \<times> nat \<times> nat \<Rightarrow> nat \<times> nat \<times> nat \<Rightarrow> bool" where
  "before = (\<lambda>(z, y, x) (z', y', x'). z < z' \<or> z = z' \<and> (y < y' \<or> y = y' \<and> x < x'))"

lemma place_before:
  assumes "flat_image img" "inside img x y z" "inside img x' y' z'" "before (z, y, x) (z', y', x')"
  shows "place img x y z + unat (get_pixel_size (pixel_format img)) \<le> place img x' y' z'"
proof -
  let ?s = "unat (get_pixel_size (pixel_format img))" and ?R = "unat (rowPitch img)" and ?S = "unat (slicePitch img)"
  have i: "x < unat (width img)" "y < rows img" using assms(2) by (simp_all add: inside_def)
  have r: "x * ?s + ?s \<le> ?R" by (rule row_fits [OF i(1) flat_imageD(1) [OF assms(1)]])
  consider "z < z'" | "z = z'" "y < y'" | "z = z'" "y = y'" "x < x'" using assms(4) by (auto simp: before_def)
  then show ?thesis
  proof cases
    case 1
    then have sl: "sliced img" using assms(1,3) flat_imageD(4) by (fastforce simp: inside_def)
    have "y * ?R + ?R \<le> ?S" using row_fits [OF i(2) flat_imageD(2) [OF assms(1) sl]] .
    moreover have "z * ?S + ?S \<le> z' * ?S" using row_fits [OF 1 order_refl] .
    ultimately show ?thesis using r by (simp add: place_def)
  next
    case 2
    have "y * ?R + ?R \<le> y' * ?R" using row_fits [OF 2(2) order_refl] .
    then show ?thesis using r 2(1) by (simp add: place_def)
  next
    case 3
    have "x * ?s + ?s \<le> x' * ?s" using row_fits [OF 3(3) order_refl] .
    then show ?thesis using 3(1,2) by (simp add: place_def)
  qed
qed



end
