(* ===== verification/ImageCopy.thy ===== *)
theory ImageCopy
  imports ImagePixels
begin

text \<open>
  \<open>copy_image_data\<close> (\<^verbatim>\<open>imageHelpers.cpp\<close>), the host's copy of a region between images,
  and \<open>debug_find_vector_in_image\<close>. Source and destination are two memories; a position
  has a fourth entry for the mipmap level where the type needs it.
\<close>

section \<open>Copying a region\<close>

definition memcpy :: "memory \<Rightarrow> nat \<Rightarrow> nat \<Rightarrow> nat \<Rightarrow> memory \<Rightarrow> memory" where
  "memcpy src s d n dst = fold (\<lambda>i m. m(d + i := src (s + i))) [0..<n] dst"

text \<open>
  The position in the level, the level, and its row and slice pitch; without mipmaps the position
  and the pitches of the descriptor.
\<close>

definition copy_geometry :: "image_descriptor \<Rightarrow> u64 list \<Rightarrow> u64 list \<times> u64 \<times> u64 \<times> u64" where
  "copy_geometry imageInfo pos =
     (if num_mip_levels imageInfo > 1 then
        (let (pos_lod, lod, width_lod, height_lod) =
           (case image_type imageInfo of
              CL_MEM_OBJECT_IMAGE1D_BUFFER \<Rightarrow> ([pos ! 0, 0, 0], pos ! 1, shifted (unat (pos ! 1)) (width imageInfo), 1)
            | CL_MEM_OBJECT_IMAGE1D \<Rightarrow> ([pos ! 0, 0, 0], pos ! 1, shifted (unat (pos ! 1)) (width imageInfo), 1)
            | CL_MEM_OBJECT_IMAGE1D_ARRAY \<Rightarrow>
                ([pos ! 0, pos ! 1, 0], pos ! 2, shifted (unat (pos ! 2)) (width imageInfo), 1)
            | CL_MEM_OBJECT_IMAGE2D \<Rightarrow>
                ([pos ! 0, pos ! 1, 0], pos ! 2, shifted (unat (pos ! 2)) (width imageInfo),
                 shifted (unat (pos ! 2)) (height imageInfo))
            | CL_MEM_OBJECT_IMAGE2D_ARRAY \<Rightarrow>
                ([pos ! 0, pos ! 1, pos ! 2], pos ! 3, shifted (unat (pos ! 3)) (width imageInfo),
                 shifted (unat (pos ! 3)) (height imageInfo))
            | CL_MEM_OBJECT_IMAGE3D \<Rightarrow>
                ([pos ! 0, pos ! 1, pos ! 2], pos ! 3, shifted (unat (pos ! 3)) (width imageInfo),
                 shifted (unat (pos ! 3)) (height imageInfo)));
             row_pitch_lod = width_lod * pixel_bytes imageInfo
         in (pos_lod, compute_mip_level_offset imageInfo lod, row_pitch_lod, row_pitch_lod * height_lod))
      else ([pos ! 0, pos ! 1, pos ! 2], 0, rowPitch imageInfo, slicePitch imageInfo))"

text \<open>The initial pointer: an offset from the values of the image. \<open>pixelSize\<close> is the source's.\<close>

definition initial_ptr :: "u64 list \<times> u64 \<times> u64 \<times> u64 \<Rightarrow> u64 \<Rightarrow> nat" where
  "initial_ptr = (\<lambda>(pos, mip_level_offset, row_pitch, slice_pitch) pixelSize.
     unat (pos ! 2 * slice_pitch + pos ! 1 * row_pitch + pixelSize * pos ! 0 + mip_level_offset))"

fun copy_rows :: "nat \<Rightarrow> nat \<Rightarrow> nat \<Rightarrow> memory \<Rightarrow> nat \<Rightarrow> nat \<Rightarrow> nat \<Rightarrow> memory \<Rightarrow> memory" where
  "copy_rows 0 srow drow src s d n dst = dst"
| "copy_rows (Suc k) srow drow src s d n dst =
     copy_rows k srow drow src (s + srow) (d + drow) n (memcpy src s d n dst)"

fun copy_slices ::
  "nat \<Rightarrow> nat \<Rightarrow> nat \<Rightarrow> nat \<Rightarrow> nat \<Rightarrow> nat \<Rightarrow> memory \<Rightarrow> nat \<Rightarrow> nat \<Rightarrow> nat \<Rightarrow> memory \<Rightarrow> memory" where
  "copy_slices 0 h sslice dslice srow drow src s d n dst = dst"
| "copy_slices (Suc k) h sslice dslice srow drow src s d n dst =
     copy_slices k h sslice dslice srow drow src (s + sslice) (d + dslice) n
       (copy_rows h srow drow src s d n dst)"

definition copy_image_data ::
  "image_descriptor \<Rightarrow> image_descriptor \<Rightarrow> memory \<Rightarrow> memory \<Rightarrow> u64 list \<Rightarrow> u64 list \<Rightarrow> u64 list \<Rightarrow> memory" where
  "copy_image_data srcImageInfo dstImageInfo imageValues destImageValues sourcePos destPos regionSize =
     (let pixelSize = pixel_bytes srcImageInfo;
          sg = copy_geometry srcImageInfo sourcePos;
          dg = copy_geometry dstImageInfo destPos
      in copy_slices (if regionSize ! 2 > 0 then unat (regionSize ! 2) else 1) (unat (regionSize ! 1))
           (unat (snd (snd (snd sg)))) (unat (snd (snd (snd dg))))
           (unat (fst (snd (snd sg)))) (unat (fst (snd (snd dg))))
           imageValues (initial_ptr sg pixelSize) (initial_ptr dg pixelSize)
           (unat (pixelSize * regionSize ! 0)) destImageValues)"

section \<open>What a copy does\<close>

lemma memcpy_at:
  "memcpy src s d n dst q = (if d \<le> q \<and> q < d + n then src (s + (q - d)) else dst q)"
proof (induction n)
  case (Suc n)
  have "memcpy src s d (Suc n) dst = (memcpy src s d n dst)(d + n := src (s + n))" by (simp add: memcpy_def)
  then show ?case using Suc by auto
qed (auto simp: memcpy_def)

lemma copy_rows_frame:
  "\<forall>j<k. q < d + j * drow \<or> d + j * drow + n \<le> q \<Longrightarrow> copy_rows k srow drow src s d n dst q = dst q"
proof (induction k arbitrary: s d dst)
  case (Suc k)
  have "q < d + drow + j * drow \<or> d + drow + j * drow + n \<le> q" if "j < k" for j
    using Suc.prems that by (auto dest!: spec [of _ "Suc j"])
  then have "copy_rows k srow drow src (s + srow) (d + drow) n (memcpy src s d n dst) q = memcpy src s d n dst q"
    by (intro Suc.IH) blast
  then show ?case using Suc.prems by (auto simp: memcpy_at dest: spec [of _ 0])
qed simp

lemma copy_rows_hit:
  "j < k \<Longrightarrow> b < n \<Longrightarrow> k \<le> 1 \<or> n \<le> drow \<Longrightarrow>
   copy_rows k srow drow src s d n dst (d + j * drow + b) = src (s + j * srow + b)"
proof (induction k arbitrary: j s d dst)
  case (Suc k)
  show ?case
  proof (cases j)
    case 0
    have "d + b < d + drow + i * drow" if "i < k" for i
      using Suc.prems(2,3) that by auto
    then have "copy_rows k srow drow src (s + srow) (d + drow) n (memcpy src s d n dst) (d + b) =
        memcpy src s d n dst (d + b)"
      by (intro copy_rows_frame) blast
    then show ?thesis using 0 Suc.prems(2) by (simp add: memcpy_at)
  next
    case (Suc i)
    then show ?thesis
      using Suc.IH [of i "s + srow" "d + drow" "memcpy src s d n dst"] Suc.prems by (simp add: add.assoc)
  qed
qed simp

text \<open>The bytes from the first to the last row of a slice.\<close>

definition slab :: "nat \<Rightarrow> nat \<Rightarrow> nat \<Rightarrow> nat" where
  "slab h drow n = (if h = 0 then 0 else (h - 1) * drow + n)"

lemma slab_row: "j < h \<Longrightarrow> j * drow + n \<le> slab h drow n"
  using mult_le_mono1 [of j "h - 1" drow] by (cases h) (simp_all add: slab_def)

lemma copy_slices_frame:
  "\<forall>i<k. \<forall>j<h. q < d + i * dslice + j * drow \<or> d + i * dslice + j * drow + n \<le> q \<Longrightarrow>
   copy_slices k h sslice dslice srow drow src s d n dst q = dst q"
proof (induction k arbitrary: s d dst)
  case (Suc k)
  have "q < d + dslice + i * dslice + j * drow \<or> d + dslice + i * dslice + j * drow + n \<le> q"
    if "i < k" "j < h" for i j
    using Suc.prems [rule_format, of "Suc i" j] that by (simp add: add.assoc)
  then have "copy_slices (Suc k) h sslice dslice srow drow src s d n dst q = copy_rows h srow drow src s d n dst q"
    by (simp add: Suc.IH)
  also have "\<dots> = dst q"
    using Suc.prems [rule_format, of 0] by (intro copy_rows_frame) simp
  finally show ?case .
qed simp

lemma copy_slices_hit:
  "i < k \<Longrightarrow> j < h \<Longrightarrow> b < n \<Longrightarrow> h \<le> 1 \<or> n \<le> drow \<Longrightarrow> k \<le> 1 \<or> slab h drow n \<le> dslice \<Longrightarrow>
   copy_slices k h sslice dslice srow drow src s d n dst (d + i * dslice + j * drow + b) =
     src (s + i * sslice + j * srow + b)"
proof (induction k arbitrary: i s d dst)
  case (Suc k)
  show ?case
  proof (cases i)
    case 0
    have "d + j * drow + b < d + dslice + i' * dslice + j' * drow" if "i' < k" for i' j'
      using Suc.prems(2-5) that slab_row [OF Suc.prems(2), of drow n] by auto
    then have "copy_slices (Suc k) h sslice dslice srow drow src s d n dst (d + j * drow + b) =
        copy_rows h srow drow src s d n dst (d + j * drow + b)"
      by (simp add: copy_slices_frame)
    then show ?thesis using 0 copy_rows_hit [OF Suc.prems(2-4)] by simp
  next
    case (Suc i')
    then show ?thesis
      using Suc.IH [of i' "s + sslice" "d + dslice" "copy_rows h srow drow src s d n dst"] Suc.prems
      by (simp add: add.assoc)
  qed
qed simp

text \<open>
  C22. When the rows of the region do not overlap in the destination, nor its slices, the copy moves
  each byte of each of its rows to the same row of the destination's region, with the pitches of
  either image and level, and changes no other byte. A region of depth 0 has one slice.
\<close>

theorem copy_image_data_region:
  fixes src dst :: image_descriptor and sourcePos destPos region :: "u64 list"
  defines "sg \<equiv> copy_geometry src sourcePos" and "dg \<equiv> copy_geometry dst destPos"
  defines "s \<equiv> initial_ptr sg (pixel_bytes src)" and "d \<equiv> initial_ptr dg (pixel_bytes src)"
  defines "srow \<equiv> unat (fst (snd (snd sg)))" and "drow \<equiv> unat (fst (snd (snd dg)))"
  defines "sslice \<equiv> unat (snd (snd (snd sg)))" and "dslice \<equiv> unat (snd (snd (snd dg)))"
  defines "n \<equiv> unat (pixel_bytes src * region ! 0)" and "h \<equiv> unat (region ! 1)"
  defines "k \<equiv> max 1 (unat (region ! 2))"
  assumes "h \<le> 1 \<or> n \<le> drow" "k \<le> 1 \<or> slab h drow n \<le> dslice"
  shows "(\<forall>i<k. \<forall>j<h. \<forall>b<n.
      copy_image_data src dst a m sourcePos destPos region (d + i * dslice + j * drow + b) =
        a (s + i * sslice + j * srow + b)) \<and>
    (\<forall>q. (\<exists>i<k. \<exists>j<h. d + i * dslice + j * drow \<le> q \<and> q < d + i * dslice + j * drow + n) \<or>
      copy_image_data src dst a m sourcePos destPos region q = m q)"
proof -
  have k: "(if region ! 2 > 0 then unat (region ! 2) else 1) = k"
    by (simp add: k_def word_gt_0 max_def le_Suc_eq unat_gt_0) (metis One_nat_def le_neq_implies_less less_one not_less unat_eq_zero)
  have e: "copy_image_data src dst a m sourcePos destPos region = copy_slices k h sslice dslice srow drow a s d n m"
    unfolding copy_image_data_def Let_def k sg_def [symmetric] dg_def [symmetric]
    by (simp add: s_def d_def srow_def drow_def sslice_def dslice_def n_def h_def)
  have "copy_slices k h sslice dslice srow drow a s d n m q = m q"
    if "\<not> (\<exists>i<k. \<exists>j<h. d + i * dslice + j * drow \<le> q \<and> q < d + i * dslice + j * drow + n)" for q
    using that by (intro copy_slices_frame) (meson not_le)
  then show ?thesis unfolding e using copy_slices_hit [OF _ _ _ assms(12,13)] by blast
qed
theorem copy_image_data_region_witness:
  "copy_image_data
     \<lparr>width = 4, height = 2, depth = 0, rowPitch = 16, slicePitch = 0, arraySize = 0,
       pixel_format = format_of CL_RGBA CL_UNORM_INT8, image_type = CL_MEM_OBJECT_IMAGE2D, num_mip_levels = 2\<rparr>
     \<lparr>width = 4, height = 2, depth = 0, rowPitch = 20, slicePitch = 0, arraySize = 0,
       pixel_format = format_of CL_RGBA CL_UNORM_INT8, image_type = CL_MEM_OBJECT_IMAGE2D, num_mip_levels = 0\<rparr>
     (\<lambda>p. of_nat p) (\<lambda>_. 0) [1, 0, 1] [0, 1, 0] [1, 1, 1] 21 = 37"
  (is "copy_image_data ?src ?dst ?a ?m ?sp ?dp ?region 21 = 37")
proof -
  have g: "copy_geometry ?src ?sp = ([1, 0, 0], 32, 8, 8)" "copy_geometry ?dst ?dp = ([0, 1, 0], 0, 20, 0)"
    by code_simp+
  have "pixel_bytes ?src = 4" by code_simp
  then show ?thesis
    using copy_image_data_region [of ?region ?src ?dst ?dp ?a ?m ?sp] unfolding g
    by (simp add: initial_ptr_def) (drule conjunct1, drule spec [of _ 1], simp)
qed

text \<open>
  With exactly one mipmap level the reader takes the rows to be tightly packed, while the copy and
  \<open>get_image_size\<close> use the row pitch: in a padded image they disagree on where the second row is.
\<close>

theorem one_level_pitch_mismatch:
  "(pixel_ptr img 0 0 1 0, initial_ptr (copy_geometry img [0, 1, 0]) (pixel_bytes img)) = (12, 16)"
  if "img = \<lparr>width = 3, height = 2, depth = 0, rowPitch = 16, slicePitch = 0, arraySize = 0,
       pixel_format = format_of CL_RGBA CL_UNORM_INT8, image_type = CL_MEM_OBJECT_IMAGE2D, num_mip_levels = 1\<rparr>"
  unfolding that by code_simp

end
