(* ===== verification/PrimeNumbers.thy ===== *)
theory PrimeNumbers
  imports Prelude
begin

text \<open>
  The prime numbers of the non-uniform work-group tests,
  \<^verbatim>\<open>test_conformance/non_uniform_work_group/tools.cpp\<close>: the sieve, the searches in its
  list, and the functions that shrink sizes to primes until their product fits. The list is that of
  the static member \<open>primeNumbers\<close>.
\<close>

section \<open>The sieve\<close>

text \<open>\<open>(unsigned int)sqrt((double)n)\<close>: the square root of 32-bit numbers is rounded to no greater integer.\<close>

definition int_sqrt :: "nat \<Rightarrow> nat" where
  "int_sqrt n = length (takeWhile (\<lambda>k. Suc k * Suc k \<le> n) [0..<n])"

text \<open>
  The loop over \<open>it\<close>: the numbers before it, and those from it on, of which the inner loop erases
  the multiples of the first.
\<close>

function sieve_loop :: "nat \<Rightarrow> nat list \<Rightarrow> nat list \<Rightarrow> nat list" where
  "sieve_loop maxValueSqrt before [] = before"
| "sieve_loop maxValueSqrt before (p # ps) =
     (if p > maxValueSqrt then before @ p # ps
      else sieve_loop maxValueSqrt (before @ [p]) (filter (\<lambda>n. n mod p \<noteq> 0) ps))"
  by pat_completeness auto
termination
  by (relation "measure (\<lambda>(_, _, ps). length ps)") (auto simp: le_imp_less_Suc)

definition generatePrimeNumbers :: "nat \<Rightarrow> nat list" where
  "generatePrimeNumbers maxValue = sieve_loop (int_sqrt maxValue) [] [2..<maxValue]"

section \<open>Searches\<close>

text \<open>Both searches return \<^verbatim>\<open>int\<close>; the fitting loops store it in a \<^verbatim>\<open>size_t\<close>.\<close>

definition as_int :: "nat \<Rightarrow> int" where
  "as_int n = (if n mod 2 ^ 32 < 2 ^ 31 then int (n mod 2 ^ 32) else int (n mod 2 ^ 32) - 2 ^ 32)"

definition as_size :: "int \<Rightarrow> nat" where "as_size i = nat (i mod 2 ^ 64)"

text \<open>The loop of \<open>getPrimeNumberInRange\<close>.\<close>

fun find_in_range :: "nat \<Rightarrow> nat \<Rightarrow> nat list \<Rightarrow> int" where
  "find_in_range lowerValue higherValue [] = - 1"
| "find_in_range lowerValue higherValue (p # ps) =
     (if lowerValue < p then (if higherValue > p then as_int p else - 3)
      else find_in_range lowerValue higherValue ps)"

text \<open>\<open>None\<close> is \<open>back()\<close> of an empty list.\<close>

definition getPrimeNumberInRange :: "nat list \<Rightarrow> nat \<Rightarrow> nat \<Rightarrow> int option" where
  "getPrimeNumberInRange primeNumbers lowerValue higherValue =
     (if lowerValue \<ge> higherValue then Some (- 1)
      else if primeNumbers = [] then None
      else if last primeNumbers < lowerValue then Some (- 2)
      else Some (find_in_range lowerValue higherValue primeNumbers))"

fun next_lower :: "nat \<Rightarrow> nat \<Rightarrow> nat list \<Rightarrow> nat" where
  "next_lower upperValue retVal [] = retVal"
| "next_lower upperValue retVal (p # ps) =
     (if upperValue > p then next_lower upperValue p ps else retVal)"

definition getNextLowerPrimeNumber :: "nat list \<Rightarrow> nat \<Rightarrow> int" where
  "getNextLowerPrimeNumber primeNumbers upperValue = as_int (next_lower upperValue 1 primeNumbers)"

section \<open>Fitting\<close>

text \<open>
  The loops need not end: \<open>None\<close>. The products are \<^verbatim>\<open>size_t\<close>.
\<close>

definition product_of :: "nat \<Rightarrow> nat \<Rightarrow> nat" where "product_of a b = a * b mod 2 ^ 64"

partial_function (option) fit1 :: "nat list \<Rightarrow> nat \<Rightarrow> nat \<Rightarrow> nat option" where
  "fit1 primeNumbers maxVal val1 =
     (if val1 > maxVal then fit1 primeNumbers maxVal (as_size (getNextLowerPrimeNumber primeNumbers val1))
      else Some val1)"

definition fitMaxPrime1d :: "nat list \<Rightarrow> nat \<Rightarrow> nat \<Rightarrow> nat option" where
  "fitMaxPrime1d primeNumbers val1 maxVal =
     (if maxVal = 1 then Some 1 else fit1 primeNumbers maxVal val1)"

partial_function (option) fit2 :: "nat list \<Rightarrow> nat \<Rightarrow> nat \<Rightarrow> nat \<Rightarrow> (nat \<times> nat) option" where
  "fit2 primeNumbers productMax val1 val2 =
     (if product_of val2 val1 > productMax then
        (if val2 > val1 \<and> val2 > 1 then
           fit2 primeNumbers productMax val1 (as_size (getNextLowerPrimeNumber primeNumbers val2))
         else if val1 > 1 then
           fit2 primeNumbers productMax (as_size (getNextLowerPrimeNumber primeNumbers val1)) val2
         else Some (val1, val2))
      else Some (val1, val2))"

definition fitMaxPrime2d :: "nat list \<Rightarrow> nat \<Rightarrow> nat \<Rightarrow> nat \<Rightarrow> (nat \<times> nat) option" where
  "fitMaxPrime2d primeNumbers val1 val2 productMax =
     (if productMax = 1 then Some (1, 1) else fit2 primeNumbers productMax val1 val2)"

partial_function (option) fit3 :: "nat list \<Rightarrow> nat \<Rightarrow> nat \<Rightarrow> nat \<Rightarrow> nat \<Rightarrow> (nat \<times> nat \<times> nat) option" where
  "fit3 primeNumbers productMax val1 val2 val3 =
     (if product_of (product_of val3 val2) val1 > productMax then
        (if val3 > val2 \<and> val3 > val1 \<and> val3 > 1 then
           fit3 primeNumbers productMax val1 val2 (as_size (getNextLowerPrimeNumber primeNumbers val3))
         else if val2 > val1 \<and> val2 > 1 then
           fit3 primeNumbers productMax val1 (as_size (getNextLowerPrimeNumber primeNumbers val2)) val3
         else if val1 > 1 then
           fit3 primeNumbers productMax (as_size (getNextLowerPrimeNumber primeNumbers val1)) val2 val3
         else Some (val1, val2, val3))
      else Some (val1, val2, val3))"

definition fitMaxPrime3d :: "nat list \<Rightarrow> nat \<Rightarrow> nat \<Rightarrow> nat \<Rightarrow> nat \<Rightarrow> (nat \<times> nat \<times> nat) option" where
  "fitMaxPrime3d primeNumbers val1 val2 val3 productMax =
     (if productMax = 1 then Some (1, 1, 1) else fit3 primeNumbers productMax val1 val2 val3)"

section \<open>The sieve leaves the primes\<close>

definition prime_number :: "nat \<Rightarrow> bool" where
  "prime_number p \<longleftrightarrow> 2 \<le> p \<and> (\<forall>d. d dvd p \<longrightarrow> d = 1 \<or> d = p)"

lemma prime_divisor: "2 \<le> n \<Longrightarrow> \<exists>p. prime_number p \<and> p dvd n"
proof (induction n rule: less_induct)
  case (less n)
  show ?case
  proof (cases "prime_number n")
    case False
    then obtain d where d: "d dvd n" "d \<noteq> 1" "d \<noteq> n" using less.prems by (auto simp: prime_number_def)
    have n: "0 < n" using less.prems by simp
    have "d \<le> n" "0 < d" using d(1) n by (auto intro: dvd_imp_le dvd_pos_nat)
    then have "2 \<le> d" "d < n" using d by auto
    then obtain p where "prime_number p" "p dvd d" using less.IH by blast
    then show ?thesis using d(1) dvd_trans by blast
  qed auto
qed

lemma small_prime_divisor:
  assumes "2 \<le> n" "\<not> prime_number n"
  shows "\<exists>p. prime_number p \<and> p dvd n \<and> p * p \<le> n"
proof -
  obtain d where d: "d dvd n" "d \<noteq> 1" "d \<noteq> n" using assms by (auto simp: prime_number_def)
  obtain e where e: "n = d * e" using d(1) by blast
  have "d \<noteq> 0" "e \<noteq> 0" using e assms(1) by (metis mult_0 not_numeral_le_zero, metis mult_0_right not_numeral_le_zero)
  moreover have "e \<noteq> 1" using e d(3) by auto
  ultimately have de: "2 \<le> d" "2 \<le> e" using d(2) by linarith+
  define m where "m = min d e"
  have m: "2 \<le> m" "m dvd n" "m * m \<le> n"
    using de unfolding e m_def by (auto simp: min_def mult_le_mono)
  obtain p where p: "prime_number p" "p dvd m" using prime_divisor [OF m(1)] by blast
  have "p \<le> m" using p(2) m(1) by (intro dvd_imp_le) auto
  then have "p * p \<le> n" using m(3) by (meson le_trans mult_le_mono)
  then show ?thesis using p m(2) dvd_trans by blast
qed

lemma prime_divides_prime:
  assumes "prime_number p" "prime_number q" "p dvd q"
  shows "p = q"
proof -
  have "p \<noteq> 1" using assms(1) by (simp add: prime_number_def)
  then show ?thesis using assms(2,3) unfolding prime_number_def by blast
qed

lemma prime_ge_2: "prime_number p \<Longrightarrow> 2 \<le> p" by (simp add: prime_number_def)

lemma int_sqrt_square: "int_sqrt n * int_sqrt n \<le> n" "n < Suc (int_sqrt n) * Suc (int_sqrt n)"
proof -
  define P where "P k \<longleftrightarrow> Suc k * Suc k \<le> n" for k
  define r where "r = int_sqrt n"
  have r: "r = length (takeWhile P [0..<n])" by (simp add: r_def int_sqrt_def P_def [abs_def])
  have rn: "r \<le> n" unfolding r by (metis diff_zero length_takeWhile_le length_upt)
  have below: "P k" if "k < r" for k
    using that rn nth_mem [of k "takeWhile P [0..<n]"] set_takeWhileD
    by (fastforce simp: r takeWhile_nth)
  show "int_sqrt n * int_sqrt n \<le> n"
  proof (cases r)
    case (Suc k)
    then show ?thesis using below [of k] by (simp add: P_def r_def [symmetric])
  qed (simp add: r_def [symmetric])
  show "n < Suc (int_sqrt n) * Suc (int_sqrt n)"
  proof (cases "r < n")
    case True
    then have "\<not> P r" using nth_length_takeWhile [of P "[0..<n]"] by (simp add: r [symmetric])
    then show ?thesis by (simp add: P_def r_def)
  next
    case False
    then have "r = n" using rn by simp
    then show ?thesis by (simp add: r_def [symmetric])
  qed
qed

text \<open>
  Before the iterator stand the primes below a bound, after it the numbers from the bound on that
  none of these divide.
\<close>

definition sieved :: "nat \<Rightarrow> nat \<Rightarrow> nat list" where
  "sieved b m = filter (\<lambda>n. \<forall>p\<in>{2..<b}. prime_number p \<longrightarrow> \<not> p dvd n) [b..<m]"

definition primes_below :: "nat \<Rightarrow> nat list" where
  "primes_below m = filter prime_number [2..<m]"


lemma upt_split:
  assumes "[b..<m] = us @ p # vs"
  shows "us = [b..<p]" "vs = [Suc p..<m]" "b \<le> p" "p < m"
proof -
  let ?k = "length us"
  have len: "?k < m - b" using arg_cong [OF assms, of length] by simp
  have p: "p = b + ?k" using arg_cong [OF assms, of "\<lambda>xs. xs ! ?k"] len by simp
  show "us = [b..<p]" using arg_cong [OF assms, of "take ?k"] len p by simp
  show "vs = [Suc p..<m]" using arg_cong [OF assms, of "drop (Suc ?k)"] p by simp
  show "b \<le> p" "p < m" using p len by auto
qed

lemma sieved_Cons:
  assumes "sieved b m = p # ps" "2 \<le> b"
  shows "b \<le> p" "p < m" "prime_number p" "\<And>q. b \<le> q \<Longrightarrow> q < p \<Longrightarrow> \<not> prime_number q"
    "filter (\<lambda>n. n mod p \<noteq> 0) ps = sieved (Suc p) m"
proof -
  define P where "P n \<longleftrightarrow> (\<forall>q\<in>{2..<b}. prime_number q \<longrightarrow> \<not> q dvd n)" for n
  have P: "sieved b m = filter P [b..<m]" by (simp add: sieved_def P_def [abs_def])
  obtain us vs where split: "[b..<m] = us @ p # vs" "\<forall>u\<in>set us. \<not> P u" "P p" "ps = filter P vs"
    using filter_eq_ConsD [of P "[b..<m]" p ps] assms(1) P by auto
  have us: "us = [b..<p]" and vs: "vs = [Suc p..<m]" and bp: "b \<le> p" "p < m"
    using upt_split [OF split(1)] by auto
  show "b \<le> p" "p < m" using bp by auto
  have P_prime: "P q" if "prime_number q" "b \<le> q" for q
    unfolding P_def using that prime_divides_prime by fastforce
  show gap: "\<not> prime_number q" if "b \<le> q" "q < p" for q
    using split(2) P_prime [of q] that unfolding us by force
  have small: "q < b" if "prime_number q" "q < p" for q using gap that not_less by blast
  show prime: "prime_number p"
  proof (rule ccontr)
    assume "\<not> prime_number p"
    then obtain q where q: "prime_number q" "q dvd p" "q * q \<le> p"
      using small_prime_divisor [of p] bp assms(2) by auto
    have "q < q * q" using prime_ge_2 [OF q(1)] by simp
    then have "q < p" using q(3) by linarith
    then have "q \<in> {2..<b}" using small q prime_ge_2 [OF q(1)] by simp
    then show False using split(3) q unfolding P_def by blast
  qed
  define below where "below c = {q \<in> {2..<c}. prime_number q}" for c
  have divides: "(\<forall>q\<in>{2..<c}. prime_number q \<longrightarrow> \<not> q dvd n) \<longleftrightarrow> (\<forall>q\<in>below c. \<not> q dvd n)" for c n
    by (auto simp: below_def)
  have "below (Suc p) = insert p (below b)"
    using small prime prime_ge_2 [OF prime] bp by (auto simp: below_def less_Suc_eq)
  then have "P n \<and> n mod p \<noteq> 0 \<longleftrightarrow> (\<forall>q\<in>{2..<Suc p}. prime_number q \<longrightarrow> \<not> q dvd n)" for n
    unfolding P_def divides by (auto simp: mod_eq_0_iff_dvd)
  then show "filter (\<lambda>n. n mod p \<noteq> 0) ps = sieved (Suc p) m"
    by (simp add: sieved_def split(4) vs filter_filter conj_commute)
qed

lemma primes_below_Suc: "2 \<le> p \<Longrightarrow> primes_below (Suc p) = primes_below p @ (if prime_number p then [p] else [])"
  by (simp add: primes_below_def)

lemma primes_below_gap:
  assumes "b \<le> m" "2 \<le> b"
  shows "primes_below m = primes_below b @ filter prime_number [b..<m]"
  using assms upt_add_eq_append [of 2 b "m - b"] by (simp add: primes_below_def)

lemma sieve_loop_primes:
  "2 \<le> b \<Longrightarrow> b \<le> m \<Longrightarrow> m < Suc r * Suc r \<Longrightarrow>
   sieve_loop r (primes_below b) (sieved b m) = primes_below m"
proof (induction "m - b" arbitrary: b rule: less_induct)
  case less
  show ?case
  proof (cases "sieved b m")
    case Nil
    have "\<not> prime_number q" if "q \<in> set [b..<m]" for q
    proof
      assume q: "prime_number q"
      then have "q \<in> set (sieved b m)"
        using that prime_divides_prime [OF _ q] by (fastforce simp: sieved_def)
      then show False using Nil by simp
    qed
    then have "filter prime_number [b..<m] = []" by (simp add: filter_empty_conv)
    then show ?thesis using Nil less.prems primes_below_gap [of b m] by simp
  next
    case (Cons p ps)
    note c = sieved_Cons [OF Cons less.prems(1)]
    have gap: "filter prime_number [b..<p] = []" using c(4) by (simp add: filter_empty_conv)
    show ?thesis
    proof (cases "p > r")
      case True
      have "prime_number n" if "n \<in> set (sieved b m)" for n
      proof (rule ccontr)
        assume "\<not> prime_number n"
        moreover have n: "2 \<le> n" "n < m" using that less.prems(1) by (auto simp: sieved_def)
        ultimately obtain q where q: "prime_number q" "q dvd n" "q * q \<le> n"
          using small_prime_divisor by blast
        have "q * q < Suc r * Suc r" using q(3) n(2) less.prems(3) by linarith
        then have "q < p" using True by (meson leI le_less_trans mult_le_mono not_less_eq not_le)
        then have "q \<in> {2..<b}" using c(4) [of q] q(1) prime_ge_2 [OF q(1)] by (cases "q < b") auto
        then show False using that q by (auto simp: sieved_def)
      qed
      moreover have "prime_number n \<Longrightarrow> n \<in> set [b..<m] \<Longrightarrow> n \<in> set (sieved b m)" for n
        using prime_divides_prime [of _ n] by (fastforce simp: sieved_def)
      ultimately have "sieved b m = filter prime_number [b..<m]"
        unfolding sieved_def by (intro filter_cong) auto
      moreover have "sieve_loop r (primes_below b) (sieved b m) = primes_below b @ sieved b m"
        using Cons True by simp
      ultimately show ?thesis using primes_below_gap [OF less.prems(2,1)] by simp
    next
      case False
      have "primes_below b @ [p] = primes_below (Suc p)"
        using primes_below_Suc [of p] primes_below_gap [of b p] gap c(1,3) less.prems(1) by simp
      moreover have "sieve_loop r (primes_below (Suc p)) (sieved (Suc p) m) = primes_below m"
        using less.prems c(1,2) by (intro less.hyps) auto
      ultimately show ?thesis using Cons False c(5) by simp
    qed
  qed
qed

text \<open>The sieve leaves exactly the primes below its bound, in ascending order.\<close>

theorem generatePrimeNumbers_correct:
  "generatePrimeNumbers maxValue = filter prime_number [2..<maxValue]"
proof (cases "2 \<le> maxValue")
  case True
  have "primes_below 2 = []" "sieved 2 maxValue = [2..<maxValue]"
    by (simp_all add: primes_below_def sieved_def)
  then show ?thesis
    using sieve_loop_primes [of 2 maxValue "int_sqrt maxValue"] int_sqrt_square True
    by (simp add: generatePrimeNumbers_def primes_below_def)
qed (simp add: generatePrimeNumbers_def)


section \<open>The searches\<close>

lemma as_int_small: "n < 2 ^ 31 \<Longrightarrow> as_int n = int n" by (simp add: as_int_def)

lemma as_size_small: "n < 2 ^ 31 \<Longrightarrow> as_size (as_int n) = n"
  by (simp add: as_int_small as_size_def)

text \<open>The greatest listed prime below a bound, or 1.\<close>

definition lower_prime :: "nat \<Rightarrow> nat \<Rightarrow> nat" where
  "lower_prime maxValue v = Max (insert 1 {p. prime_number p \<and> p < maxValue \<and> p < v})"

lemma next_lower_Max:
  "sorted (r # ps) \<Longrightarrow> next_lower v r ps = Max (insert r {p \<in> set ps. p < v})"
proof (induction ps arbitrary: r)
  case (Cons p ps)
  show ?case
  proof (cases "p < v")
    case True
    have "insert r {q \<in> set (p # ps). q < v} = insert r (insert p {q \<in> set ps. q < v})"
      using True by auto
    moreover have "Max (insert r (insert p {q \<in> set ps. q < v})) = max r (Max (insert p {q \<in> set ps. q < v}))"
      by (rule Max_insert) auto
    moreover have "r \<le> Max (insert p {q \<in> set ps. q < v})"
      using Cons.prems by (intro order.trans [OF _ Max_ge [of _ p]]) auto
    ultimately show ?thesis using Cons True by simp
  next
    case False
    then have "{q \<in> set (p # ps). q < v} = {}" using Cons.prems by auto
    then show ?thesis using False by (simp only: next_lower.simps if_False) simp
  qed
qed simp

lemma lower_prime_value:
  "lower_prime m v = 1 \<or> (prime_number (lower_prime m v) \<and> lower_prime m v < m \<and> lower_prime m v < v)"
proof -
  have "finite {p. prime_number p \<and> p < m \<and> p < v}" by (rule finite_subset [of _ "{..<v}"]) auto
  then show ?thesis
    using Max_in [of "insert 1 {p. prime_number p \<and> p < m \<and> p < v}"] unfolding lower_prime_def by blast
qed

lemma lower_prime_less: "1 < v \<Longrightarrow> lower_prime m v < v"
  using lower_prime_value [of m v] by auto

lemma lower_prime_pos: "1 \<le> lower_prime m v"
  using lower_prime_value [of m v] prime_ge_2 by fastforce

lemma getNextLowerPrimeNumber_ok:
  assumes "m \<le> 2 ^ 31"
  shows "as_size (getNextLowerPrimeNumber (generatePrimeNumbers m) v) = lower_prime m v"
proof -
  have "next_lower v 1 (generatePrimeNumbers m) = Max (insert 1 {p \<in> set (generatePrimeNumbers m). p < v})"
    by (rule next_lower_Max) (auto simp: generatePrimeNumbers_correct sorted_wrt_filter)
  also have "{p \<in> set (generatePrimeNumbers m). p < v} = {p. prime_number p \<and> p < m \<and> p < v}"
    using prime_ge_2 by (auto simp: generatePrimeNumbers_correct)
  finally have next_l: "next_lower v 1 (generatePrimeNumbers m) = lower_prime m v"
    by (simp add: lower_prime_def)
  have "lower_prime m v < 2 ^ 31"
  proof (cases "lower_prime m v = 1")
    case False
    then show ?thesis using lower_prime_value [of m v] assms by linarith
  qed simp
  then show ?thesis unfolding getNextLowerPrimeNumber_def next_l by (rule as_size_small)
qed

text \<open>The search of a range finds its smallest listed prime.\<close>

lemma find_in_range_ok:
  assumes "sorted ps" "\<forall>p\<in>set ps. p < 2 ^ 31"
  shows "find_in_range l h ps =
    (case find (\<lambda>p. l < p) ps of None \<Rightarrow> - 1 | Some p \<Rightarrow> if p < h then int p else - 3)"
  using assms by (induction ps) (auto simp: as_int_small)

section \<open>The fitting loops end\<close>

definition shrunk :: "nat \<Rightarrow> nat \<Rightarrow> nat \<Rightarrow> bool" where
  "shrunk maxValue v w \<longleftrightarrow> w = v \<or> w = 1 \<or> (prime_number w \<and> w < maxValue \<and> w < v)"

lemma shrunk_refl [simp]: "shrunk m v v" by (simp add: shrunk_def)

lemma shrunk_step: "shrunk m (lower_prime m v) w \<Longrightarrow> shrunk m v w"
  using lower_prime_value [of m v] unfolding shrunk_def by fastforce


lemma fit1_ends:
  "1 \<le> maxVal \<Longrightarrow> m \<le> 2 ^ 31 \<Longrightarrow>
   \<exists>w. fit1 (generatePrimeNumbers m) maxVal v = Some w \<and> w \<le> maxVal \<and> shrunk m v w"
proof (induction v rule: less_induct)
  case (less v)
  note eq = fit1.simps [of _ maxVal v] getNextLowerPrimeNumber_ok [OF less.prems(2)]
  show ?case
  proof (cases "v > maxVal")
    case True
    then have "lower_prime m v < v" using less.prems by (intro lower_prime_less) simp
    from less.IH [OF this less.prems] show ?thesis using True shrunk_step by (auto simp: eq)
  qed (simp add: eq)
qed

lemma fit2_ends:
  "1 \<le> productMax \<Longrightarrow> m \<le> 2 ^ 31 \<Longrightarrow> v2 * v1 < 2 ^ 64 \<Longrightarrow>
   \<exists>a b. fit2 (generatePrimeNumbers m) productMax v1 v2 = Some (a, b) \<and> b * a \<le> productMax \<and>
     shrunk m v1 a \<and> shrunk m v2 b"
proof (induction "v1 + v2" arbitrary: v1 v2 rule: less_induct)
  case less
  note eq = fit2.simps [of _ productMax v1 v2] getNextLowerPrimeNumber_ok [OF less.prems(2)]
  have no_wrap: "product_of v2 v1 = v2 * v1" using less.prems(3) by (simp add: product_of_def)
  show ?case
  proof (cases "v2 * v1 > productMax")
    case big: True
    show ?thesis
    proof (cases "v2 > v1 \<and> v2 > 1")
      case True
      then have l: "lower_prime m v2 < v2" by (intro lower_prime_less) simp
      then have "lower_prime m v2 * v1 < 2 ^ 64"
        using less.prems(3) by (meson le_less_trans less_imp_le mult_le_mono1)
      from less.hyps [OF _ less.prems(1,2) this] l show ?thesis
        using True big by (auto simp: eq no_wrap intro: shrunk_step)
    next
      case not2: False
      show ?thesis
      proof (cases "v1 > 1")
        case True
        then have l: "lower_prime m v1 < v1" by (intro lower_prime_less) simp
        then have "v2 * lower_prime m v1 < 2 ^ 64"
          using less.prems(3) by (meson le_less_trans less_imp_le mult_le_mono2)
        from less.hyps [OF _ less.prems(1,2) this] l show ?thesis
          using True not2 big by (auto simp: eq no_wrap intro: shrunk_step)
      next
        case False
        then have "v2 \<le> 1" "v1 \<le> 1" using not2 by auto
        then have "v2 * v1 \<le> 1 * 1" by (intro mult_le_mono)
        then show ?thesis using big less.prems(1) by simp
      qed
    qed
  qed (auto simp: eq no_wrap)
qed

lemma fit3_ends:
  "1 \<le> productMax \<Longrightarrow> m \<le> 2 ^ 31 \<Longrightarrow> v3 * v2 * v1 < 2 ^ 64 \<Longrightarrow>
   \<exists>a b c. fit3 (generatePrimeNumbers m) productMax v1 v2 v3 = Some (a, b, c) \<and>
     c * b * a \<le> productMax \<and> shrunk m v1 a \<and> shrunk m v2 b \<and> shrunk m v3 c"
proof (induction "v1 + v2 + v3" arbitrary: v1 v2 v3 rule: less_induct)
  case less
  note eq = fit3.simps [of _ productMax v1 v2 v3] getNextLowerPrimeNumber_ok [OF less.prems(2)]
  have no_wrap: "product_of (product_of v3 v2) v1 = v3 * v2 * v1"
    using less.prems(3) by (simp add: product_of_def mod_mult_left_eq)
  have IH: "\<exists>a b c. fit3 (generatePrimeNumbers m) productMax u1 u2 u3 = Some (a, b, c) \<and>
      c * b * a \<le> productMax \<and> shrunk m u1 a \<and> shrunk m u2 b \<and> shrunk m u3 c"
    if "u1 \<le> v1" "u2 \<le> v2" "u3 \<le> v3" "u1 + u2 + u3 < v1 + v2 + v3" for u1 u2 u3
  proof -
    have "u3 * u2 * u1 \<le> v3 * v2 * v1" using that by (intro mult_le_mono)
    then show ?thesis using less.hyps [of u1 u2 u3] that less.prems by simp
  qed
  show ?case
  proof (cases "v3 * v2 * v1 > productMax")
    case big: True
      consider (third) "v3 > v2 \<and> v3 > v1 \<and> v3 > 1"
      | (second) "\<not> (v3 > v2 \<and> v3 > v1 \<and> v3 > 1)" "v2 > v1 \<and> v2 > 1"
      | (first) "\<not> (v3 > v2 \<and> v3 > v1 \<and> v3 > 1)" "\<not> (v2 > v1 \<and> v2 > 1)" "v1 > 1"
      | (small) "v1 \<le> 1" "v2 \<le> 1" "v3 \<le> 1" by linarith
    then show ?thesis
    proof cases
      case third
      then show ?thesis using IH [of v1 v2 "lower_prime m v3"] lower_prime_less [of v3 m] big
        by (auto simp: eq no_wrap intro: shrunk_step)
    next
      case second
      then show ?thesis using IH [of v1 "lower_prime m v2" v3] lower_prime_less [of v2 m] big
        by (auto simp: eq no_wrap intro: shrunk_step)
    next
      case first
      then show ?thesis using IH [of "lower_prime m v1" v2 v3] lower_prime_less [of v1 m] big
        by (auto simp: eq no_wrap intro: shrunk_step)
    next
      case small
      then have "v3 * v2 * v1 \<le> 1 * 1 * 1" by (intro mult_le_mono)
      then show ?thesis using big less.prems(1) by simp
    qed
  qed (auto simp: eq no_wrap)
qed


text \<open>
  C26. For a limit of at least 1, and with the primes below a bound that fits \<^verbatim>\<open>int\<close>,
  the three fitting functions return: their loops end, the product of the results is within the
  limit, and each result is the value it came from, 1, or a listed prime below that value. The
  products must not wrap around in \<^verbatim>\<open>size_t\<close>.
\<close>

theorem fitMaxPrime_ends:
  assumes "1 \<le> productMax" "m \<le> 2 ^ 31" "v3 * v2 * v1 < 2 ^ 64" "v2 * v1 < 2 ^ 64"
  shows "(\<exists>a. fitMaxPrime1d (generatePrimeNumbers m) v1 productMax = Some a \<and>
      a \<le> productMax \<and> shrunk m v1 a) \<and>
    (\<exists>a b. fitMaxPrime2d (generatePrimeNumbers m) v1 v2 productMax = Some (a, b) \<and>
      b * a \<le> productMax \<and> shrunk m v1 a \<and> shrunk m v2 b) \<and>
    (\<exists>a b c. fitMaxPrime3d (generatePrimeNumbers m) v1 v2 v3 productMax = Some (a, b, c) \<and>
      c * b * a \<le> productMax \<and> shrunk m v1 a \<and> shrunk m v2 b \<and> shrunk m v3 c)"
proof -
  have one: "shrunk m v 1" for v by (simp add: shrunk_def)
  have "\<exists>a. fitMaxPrime1d (generatePrimeNumbers m) v1 productMax = Some a \<and>
      a \<le> productMax \<and> shrunk m v1 a"
    using fit1_ends [OF assms(1,2)] one by (simp add: fitMaxPrime1d_def)
  moreover have "\<exists>a b. fitMaxPrime2d (generatePrimeNumbers m) v1 v2 productMax = Some (a, b) \<and>
      b * a \<le> productMax \<and> shrunk m v1 a \<and> shrunk m v2 b"
    using fit2_ends [OF assms(1,2,4)] one by (simp add: fitMaxPrime2d_def)
  moreover have "\<exists>a b c. fitMaxPrime3d (generatePrimeNumbers m) v1 v2 v3 productMax = Some (a, b, c) \<and>
      c * b * a \<le> productMax \<and> shrunk m v1 a \<and> shrunk m v2 b \<and> shrunk m v3 c"
    using fit3_ends [OF assms(1,2,3)] one by (simp add: fitMaxPrime3d_def)
  ultimately show ?thesis by blast
qed

theorem fitMaxPrime_ends_witness:
  "\<exists>a b c. fitMaxPrime3d (generatePrimeNumbers 100000) 293 307 311 256 = Some (a, b, c) \<and>
     c * b * a \<le> 256 \<and> shrunk 100000 293 a \<and> shrunk 100000 307 b \<and> shrunk 100000 311 c"
  using fitMaxPrime_ends [of 256 100000 311 307 293] by simp

text \<open>With a limit of 0 the one-dimensional loop never ends: it stays at 1.\<close>

lemma fit1_zero:
  assumes "fit1 ps k u = Some w" "m \<le> 2 ^ 31"
  shows "ps = generatePrimeNumbers m \<and> k = 0 \<longrightarrow> u = 0"
  using assms(1)
proof (rule fit1.raw_induct [where P = "\<lambda>ps k u w. ps = generatePrimeNumbers m \<and> k = 0 \<longrightarrow> u = 0", rotated])
  fix f ps maxVal v w
  assume IH: "\<And>ps k u w. f ps k u = Some w \<Longrightarrow> ps = generatePrimeNumbers m \<and> k = 0 \<longrightarrow> u = 0"
    and eq: "(if maxVal < v then f ps maxVal (as_size (getNextLowerPrimeNumber ps v)) else Some v) = Some w"
  show "ps = generatePrimeNumbers m \<and> maxVal = 0 \<longrightarrow> v = 0"
  proof (intro impI, rule ccontr)
    assume *: "ps = generatePrimeNumbers m \<and> maxVal = 0" "v \<noteq> 0"
    then have "f ps maxVal (lower_prime m v) = Some w"
      using eq getNextLowerPrimeNumber_ok [OF assms(2), of v] by simp
    from IH [OF this] show False using * lower_prime_pos [of m v] by simp
  qed
qed

lemma fitMaxPrime1d_zero:
  assumes "m \<le> 2 ^ 31" "1 \<le> v"
  shows "fitMaxPrime1d (generatePrimeNumbers m) v 0 = None"
proof (rule ccontr)
  assume "fitMaxPrime1d (generatePrimeNumbers m) v 0 \<noteq> None"
  then obtain w where "fit1 (generatePrimeNumbers m) 0 v = Some w" by (auto simp: fitMaxPrime1d_def)
  from fit1_zero [OF this assms(1)] assms(2) show False by simp
qed

text \<open>
  The results need not be the largest primes: 13 and 11 become 7 and 11, although 13 times 7 is
  within 100 as well.
\<close>

lemma fitMaxPrime2d_not_largest:
  "fitMaxPrime2d (generatePrimeNumbers 20) 11 13 100 = Some (7, 11) \<and> 13 * (7 :: nat) \<le> 100"
proof -
  have "generatePrimeNumbers 20 = [2, 3, 5, 7, 11, 13, 17, 19]" by code_simp
  then show ?thesis
    by (simp add: fitMaxPrime2d_def fit2.simps product_of_def getNextLowerPrimeNumber_def as_int_def as_size_def)
qed

end
