(* ===== verification/ErrorClass.thy ===== *)
theory ErrorClass
  imports Prelude
begin

text \<open>
  The error statistics of the non-uniform work-group tests, \<^verbatim>\<open>namespace Error\<close> of
  \<^verbatim>\<open>test_conformance/non_uniform_work_group/tools.cpp\<close>. The last part counts the reports
  that a sequence of checks makes, for the theories that verify results with it.
\<close>

section \<open>Error types\<close>

datatype Type =
    ERR_GLOBAL_SIZE | ERR_GLOBAL_WORK_OFFSET | ERR_LOCAL_SIZE | ERR_GLOBAL_ID | ERR_LOCAL_ID
  | ERR_ENQUEUED_LOCAL_SIZE | ERR_NUM_GROUPS | ERR_GROUP_ID | ERR_WORK_DIM | ERR_GLOBAL_BARRIER
  | ERR_LOCAL_BARRIER | ERR_GLOBAL_ATOMIC | ERR_LOCAL_ATOMIC | ERR_STRICT_MODE | ERR_BUILD_STATUS
  | ERR_UNKNOWN | ERR_DIFFERENT

text \<open>The enumerators in order: \<^verbatim>\<open>static_cast<Type>(i)\<close> is the one at \<open>i\<close>.\<close>

definition Types :: "Type list" where
  "Types = [ERR_GLOBAL_SIZE, ERR_GLOBAL_WORK_OFFSET, ERR_LOCAL_SIZE, ERR_GLOBAL_ID, ERR_LOCAL_ID,
     ERR_ENQUEUED_LOCAL_SIZE, ERR_NUM_GROUPS, ERR_GROUP_ID, ERR_WORK_DIM, ERR_GLOBAL_BARRIER,
     ERR_LOCAL_BARRIER, ERR_GLOBAL_ATOMIC, ERR_LOCAL_ATOMIC, ERR_STRICT_MODE, ERR_BUILD_STATUS,
     ERR_UNKNOWN, ERR_DIFFERENT]"

definition LAST_ELEM :: nat where "LAST_ELEM = 17"

text \<open>The map is built from the array by insertion, which keeps the first entry of a key.\<close>

definition rawDataErrorString :: "(Type \<times> string) list" where
  "rawDataErrorString =
    [(ERR_GLOBAL_SIZE, ''global size''), (ERR_GLOBAL_WORK_OFFSET, ''global work offset''),
     (ERR_LOCAL_SIZE, ''local size''), (ERR_GLOBAL_ID, ''global id''), (ERR_LOCAL_ID, ''local id''),
     (ERR_ENQUEUED_LOCAL_SIZE, ''enqueued local size''), (ERR_LOCAL_SIZE, ''local size''),
     (ERR_NUM_GROUPS, ''num groups''), (ERR_GROUP_ID, ''group id''), (ERR_WORK_DIM, ''work dim''),
     (ERR_GLOBAL_BARRIER, ''global barrier''), (ERR_LOCAL_BARRIER, ''local barrier''),
     (ERR_GLOBAL_ATOMIC, ''global atomic''), (ERR_LOCAL_ATOMIC, ''local atomic''),
     (ERR_STRICT_MODE, ''strict requirements failed. Wrong local work group size''),
     (ERR_BUILD_STATUS, ''build status''), (ERR_UNKNOWN, ''[unknown]''),
     (ERR_DIFFERENT, ''[different]'')]"

definition errorString :: "Type \<Rightarrow> string option" where
  "errorString = map_of rawDataErrorString"

section \<open>The statistics\<close>

definition MAX_NUMBER_OF_PRINTED_ERRORS :: u32 where "MAX_NUMBER_OF_PRINTED_ERRORS = 10"

text \<open>\<open>m_printed\<close> is the log that \<open>printError\<close> writes, in order.\<close>

record error_class =
  m_overall :: u32
  m_stats :: "Type \<Rightarrow> u32 option"
  m_counter :: "u32 list"
  m_printed :: "string list"

definition ErrorClass :: error_class where
  "ErrorClass = \<lparr> m_overall = 0, m_stats = Map.empty, m_counter = replicate LAST_ELEM 0, m_printed = [] \<rparr>"

definition printError :: "string \<Rightarrow> error_class \<Rightarrow> error_class" where
  "printError s e = e\<lparr> m_printed := m_printed e @ [s] \<rparr>"

definition add_stats :: "Type \<Rightarrow> u32 \<Rightarrow> error_class \<Rightarrow> error_class" where
  "add_stats t n e = e\<lparr> m_stats := (m_stats e)(t \<mapsto> (case m_stats e t of None \<Rightarrow> 0 | Some k \<Rightarrow> k) + n) \<rparr>"

definition too_many :: string where
  "too_many = CHR 0x09 # ''. . . Too many errors. Application will skip printing them.''"

definition error_text :: "Type \<Rightarrow> string \<Rightarrow> string \<Rightarrow> string" where
  "error_text err location additionalInfo =
     ''Error '' @ the (errorString err) @ '' appeared''
     @ (if location \<noteq> '''' then '' in '' @ location else '''')
     @ (if additionalInfo \<noteq> '''' then '' '' @ additionalInfo else '''')"

text \<open>The three overloads of \<open>show\<close>.\<close>

definition show_error :: "Type \<Rightarrow> string \<Rightarrow> string \<Rightarrow> error_class \<Rightarrow> error_class" where
  "show_error err location additionalInfo e =
     (let e = e\<lparr> m_overall := m_overall e + 1 \<rparr>;
          err = (if errorString err = None then ERR_UNKNOWN else err);
          e = add_stats err 1 e;
          e = (if m_overall e = MAX_NUMBER_OF_PRINTED_ERRORS then printError too_many e else e)
      in if MAX_NUMBER_OF_PRINTED_ERRORS \<le>s m_overall e then e
         else printError (error_text err location additionalInfo) e)"

definition show_values :: "Type \<Rightarrow> string \<Rightarrow> nat \<Rightarrow> nat \<Rightarrow> error_class \<Rightarrow> error_class" where
  "show_values err location valueIs valueExpected =
     show_error err location
       (''(is: '' @ decimal valueIs @ '', expected: '' @ decimal valueExpected @ '')'')"

definition show_description :: "string \<Rightarrow> error_class \<Rightarrow> error_class" where
  "show_description description e =
     (let e = e\<lparr> m_overall := m_overall e + 1 \<rparr>;
          e = add_stats ERR_DIFFERENT 1 e;
          e = (if m_overall e <s MAX_NUMBER_OF_PRINTED_ERRORS then printError description e else e)
      in if m_overall e = MAX_NUMBER_OF_PRINTED_ERRORS then printError too_many e else e)"

definition checkError :: "error_class \<Rightarrow> bool" where
  "checkError e \<longleftrightarrow> 0 <s m_overall e"

text \<open>The errors that the kernel counted are added to those of the host.\<close>

fun sync_loop :: "Type list \<Rightarrow> u32 list \<Rightarrow> error_class \<Rightarrow> error_class" where
  "sync_loop (t # ts) (n # ns) e =
     sync_loop ts ns
       (if n = 0 then e
        else let e = add_stats t n e in e\<lparr> m_overall := m_overall e + n \<rparr>)"
| "sync_loop _ _ e = e"

definition synchronizeStatsMap :: "error_class \<Rightarrow> error_class" where
  "synchronizeStatsMap e = sync_loop Types (m_counter e) e"

section \<open>What is printed\<close>

datatype shown = Error Type string string | Values Type string nat nat | Description string

primrec show_one :: "shown \<Rightarrow> error_class \<Rightarrow> error_class" where
  "show_one (Error t l a) = show_error t l a"
| "show_one (Values t l v x) = show_values t l v x"
| "show_one (Description d) = show_description d"


definition overall :: "error_class \<Rightarrow> nat" where "overall e = unat (m_overall e)"

lemma m_overall_Suc: "overall e + 1 < 2 ^ 31 \<Longrightarrow> unat (m_overall e + 1) = Suc (overall e)"
  by (simp add: overall_def unat_word_ariths)

lemma printed_frame [simp]:
  "m_overall (printError s e) = m_overall e" "m_overall (add_stats t n e) = m_overall e"
  "m_printed (printError s e) = m_printed e @ [s]" "m_printed (add_stats t n e) = m_printed e"
  by (simp_all add: printError_def add_stats_def)

lemma limit_tests:
  assumes "unat a < 2 ^ 31"
  shows "a = MAX_NUMBER_OF_PRINTED_ERRORS \<longleftrightarrow> unat a = 10"
    "MAX_NUMBER_OF_PRINTED_ERRORS \<le>s a \<longleftrightarrow> 10 \<le> unat a"
    "a <s MAX_NUMBER_OF_PRINTED_ERRORS \<longleftrightarrow> unat a < 10"
  using assms sle_small [of 10 a] sless_small [of a 10] word_unat_eq_iff [of a 10]
  by (simp_all add: MAX_NUMBER_OF_PRINTED_ERRORS_def)

lemma show_error_counts:
  assumes "overall e + 1 < 2 ^ 31"
  shows "overall (show_error t l a e) = Suc (overall e)"
    "\<exists>s. m_printed (show_error t l a e) =
      m_printed e @ (if overall e < 9 then [s] else if overall e = 9 then [too_many] else [])"
  using m_overall_Suc [OF assms] limit_tests [of "m_overall e + 1"] assms
  by (auto simp: show_error_def Let_def overall_def)

lemma show_description_counts:
  assumes "overall e + 1 < 2 ^ 31"
  shows "overall (show_description d e) = Suc (overall e)"
    "\<exists>s. m_printed (show_description d e) =
      m_printed e @ (if overall e < 9 then [s] else if overall e = 9 then [too_many] else [])"
  using m_overall_Suc [OF assms] limit_tests [of "m_overall e + 1"] assms
  by (auto simp: show_description_def Let_def overall_def)

lemma show_one_counts:
  assumes "overall e + 1 < 2 ^ 31"
  shows "overall (show_one s e) = Suc (overall e)"
    "\<exists>t. m_printed (show_one s e) =
      m_printed e @ (if overall e < 9 then [t] else if overall e = 9 then [too_many] else [])"
  using show_error_counts [OF assms] show_description_counts [OF assms]
  by (cases s; simp add: show_values_def)+

lemma checkError_iff: "overall e < 2 ^ 31 \<Longrightarrow> checkError e \<longleftrightarrow> overall e \<noteq> 0"
  using sless_small [of 0 "m_overall e"] by (simp add: checkError_def overall_def)

lemma show_all_counts:
  "length shown < 2 ^ 31 \<Longrightarrow>
   overall (fold show_one shown ErrorClass) = length shown \<and>
   length (m_printed (fold show_one shown ErrorClass)) = min 10 (length shown) \<and>
   (10 \<le> length shown \<longrightarrow> last (m_printed (fold show_one shown ErrorClass)) = too_many)"
proof (induction shown rule: rev_induct)
  case Nil
  show ?case by (simp add: ErrorClass_def overall_def)
next
  case (snoc s shown)
  let ?e = "fold show_one shown ErrorClass"
  have IH: "overall ?e = length shown" "length (m_printed ?e) = min 10 (length shown)"
    "10 \<le> length shown \<longrightarrow> last (m_printed ?e) = too_many"
    using snoc by simp_all
  have "overall ?e + 1 < 2 ^ 31" using snoc.prems IH(1) by simp
  from show_one_counts [OF this, of s] obtain t where
    "overall (show_one s ?e) = Suc (length shown)"
    "m_printed (show_one s ?e) =
      m_printed ?e @ (if length shown < 9 then [t] else if length shown = 9 then [too_many] else [])"
    unfolding IH(1) by blast
  then show ?case using IH(2,3) by auto
qed

text \<open>
  However many errors are shown, the log has at most ten lines, the tenth being the notice
  that the rest is skipped; all of them are counted, and \<open>checkError\<close> tells whether
  there was one.
\<close>

theorem errors_shown_and_counted:
  assumes "length shown < 2 ^ 31"
  shows "length (m_printed (fold show_one shown ErrorClass)) = min 10 (length shown) \<and>
    (10 \<le> length shown \<longrightarrow> last (m_printed (fold show_one shown ErrorClass)) = too_many) \<and>
    unat (m_overall (fold show_one shown ErrorClass)) = length shown \<and>
    (checkError (fold show_one shown ErrorClass) \<longleftrightarrow> shown \<noteq> [])"
proof -
  let ?e = "fold show_one shown ErrorClass"
  have n: "overall ?e = length shown" using show_all_counts [OF assms] by blast
  then have "checkError ?e \<longleftrightarrow> shown \<noteq> []" using checkError_iff [of ?e] assms by simp
  then show ?thesis using show_all_counts [OF assms] n by (simp add: overall_def)
qed

theorem errors_shown_and_counted_witness:
  "length (m_printed (fold show_one (replicate 12 (Description ''x'')) ErrorClass)) = 10"
  using errors_shown_and_counted [of "replicate 12 (Description ''x'')"] by simp

section \<open>The counters of the kernel\<close>

lemma sync_loop_counts:
  "overall e + sum_list (map unat ns) < 2 ^ 31 \<Longrightarrow> length ns = length ts \<Longrightarrow>
   overall (sync_loop ts ns e) = overall e + sum_list (map unat ns)"
proof (induction ts ns e rule: sync_loop.induct)
  case (1 t ts n ns e)
  let ?e = "if n = 0 then e else let e = add_stats t n e in e\<lparr> m_overall := m_overall e + n \<rparr>"
  have "overall ?e = overall e + unat n"
    using 1(2) by (simp add: overall_def Let_def unat_word_ariths)
  then show ?case using 1 by simp
qed auto

lemma synchronizeStatsMap_counts:
  assumes "overall e + sum_list (map unat (m_counter e)) < 2 ^ 31" "length (m_counter e) = LAST_ELEM"
  shows "overall (synchronizeStatsMap e) = overall e + sum_list (map unat (m_counter e))"
  unfolding synchronizeStatsMap_def
  using assms by (intro sync_loop_counts) (simp_all add: LAST_ELEM_def Types_def)

text \<open>The total is an \<^verbatim>\<open>int\<close>: a kernel that counts \<open>2 ^ 31\<close> errors passes.\<close>

lemma seventeen: "replicate 17 x = [x, x, x, x, x, x, x, x, x, x, x, x, x, x, x, x, x]"
  by (simp add: numeral_eq_Suc)

lemma kernel_errors_overflow:
  "\<not> checkError (synchronizeStatsMap (ErrorClass\<lparr> m_counter := (replicate 17 0)[0 := 2 ^ 31] \<rparr>))"
  by (simp add: synchronizeStatsMap_def Types_def ErrorClass_def checkError_def Let_def
    LAST_ELEM_def seventeen word_sless_alt)

section \<open>Counting the reports of checks\<close>

text \<open>
  \<open>reports n P f\<close>: the check \<open>f\<close> makes up to \<open>n\<close> reports, and none exactly if \<open>P\<close>.
\<close>

definition reports :: "nat \<Rightarrow> bool \<Rightarrow> (error_class \<Rightarrow> error_class) \<Rightarrow> bool" where
  "reports n P f \<longleftrightarrow> (\<forall>e. overall e + n < 2 ^ 31 \<longrightarrow>
     overall e \<le> overall (f e) \<and> overall (f e) \<le> overall e + n \<and> (overall (f e) = overall e \<longleftrightarrow> P))"

lemma reports_if: "reports 1 (\<not> b) (\<lambda>e. if b then show_error t l a e else e)"
  using show_error_counts(1) by (auto simp: reports_def)

lemma reports_comp:
  assumes "reports m P f" "reports n Q g"
  shows "reports (m + n) (P \<and> Q) (\<lambda>e. g (f e))"
  unfolding reports_def
proof (intro allI impI)
  fix e assume e: "overall e + (m + n) < 2 ^ 31"
  then have f: "overall e \<le> overall (f e)" "overall (f e) \<le> overall e + m" "overall (f e) = overall e \<longleftrightarrow> P"
    using assms(1) by (simp_all add: reports_def)
  then have g: "overall (f e) \<le> overall (g (f e))" "overall (g (f e)) \<le> overall (f e) + n"
    "overall (g (f e)) = overall (f e) \<longleftrightarrow> Q"
    using assms(2) e by (simp_all add: reports_def)
  show "overall e \<le> overall (g (f e)) \<and> overall (g (f e)) \<le> overall e + (m + n) \<and>
      (overall (g (f e)) = overall e \<longleftrightarrow> P \<and> Q)"
    using f g by linarith
qed

lemma reports_fold:
  "(\<And>x. x \<in> set xs \<Longrightarrow> reports n (P x) (f x)) \<Longrightarrow>
   reports (length xs * n) (\<forall>x\<in>set xs. P x) (fold f xs)"
proof (induction xs)
  case (Cons x xs)
  then have "reports n (P x) (f x)" "reports (length xs * n) (\<forall>x\<in>set xs. P x) (fold f xs)" by simp_all
  from reports_comp [OF this] show ?case by (simp add: comp_def)
qed (simp add: reports_def)

lemma reports_weaken:
  assumes "reports m P f" "m \<le> n"
  shows "reports n P f"
  unfolding reports_def
proof (intro allI impI)
  fix e assume e: "overall e + n < 2 ^ 31"
  then have "overall e + m < 2 ^ 31" using assms(2) by linarith
  then have "overall e \<le> overall (f e)" "overall (f e) \<le> overall e + m" "overall (f e) = overall e \<longleftrightarrow> P"
    using assms(1) by (simp_all add: reports_def)
  then show "overall e \<le> overall (f e) \<and> overall (f e) \<le> overall e + n \<and>
      (overall (f e) = overall e \<longleftrightarrow> P)"
    using assms(2) by linarith
qed

end
