(* ===== verification/NonUniform.thy ===== *)
theory NonUniform
  imports ErrorClass
begin

text \<open>
  The non-uniform work-group tests,
  \<^verbatim>\<open>test_conformance/non_uniform_work_group/TestNonUniformWorkGroup.cpp\<close>: a subtest
  sets up the sizes of an ND-range, computes what each of its eight corners must report, runs the
  kernel and compares. The OpenCL calls are parameters (their error codes and answers), and so is
  the execution of the kernel by the device; the part of the kernel whose values the host checks is
  modelled as well, run by a device that implements the work-item functions as OpenCL defines them.
  Sizes are natural numbers, with the wrap-around of \<^verbatim>\<open>size_t\<close> where the code multiplies
  or adds them. \<open>None\<close> is a division by zero.
\<close>

unbundle bit_operations_syntax

section \<open>Single precision\<close>

text \<open>
  The number of groups is computed in \<^verbatim>\<open>float\<close>, on sizes converted to it. A positive
  number is \<open>m * 2 ^ d / 2 ^ u\<close> with \<open>m\<close> of 24 bits; the
  conversion and the division round to nearest, ties to even.
\<close>

definition rne :: "nat \<Rightarrow> nat \<Rightarrow> nat" where
  "rne n d = (let q = n div d; r = n mod d in if 2 * r > d \<or> (2 * r = d \<and> odd q) then q + 1 else q)"

function scale_down :: "nat \<Rightarrow> nat \<Rightarrow> nat" where
  "scale_down a b = (if b = 0 \<or> a < 2 ^ 24 * b then 0 else Suc (scale_down a (2 * b)))"
  by pat_completeness auto
termination
  by (relation "measure (\<lambda>(a, b). a - b)") auto

function scale_up :: "nat \<Rightarrow> nat \<Rightarrow> nat" where
  "scale_up a b = (if a = 0 \<or> 2 ^ 23 * b \<le> a then 0 else Suc (scale_up (2 * a) b))"
  by pat_completeness auto
termination
  by (relation "measure (\<lambda>(a, b). 2 ^ 23 * b - a)") auto

declare scale_down.simps [simp del] scale_up.simps [simp del]

definition to_float :: "nat \<Rightarrow> nat" where
  "to_float n = (let d = scale_down n 1 in rne n (2 ^ d) * 2 ^ d)"

definition ceil_quotient :: "nat \<Rightarrow> nat \<Rightarrow> nat" where
  "ceil_quotient a b =
     (let u = scale_up a b; d = scale_down a b; m = rne (a * 2 ^ u) (b * 2 ^ d)
      in (m * 2 ^ d + 2 ^ u - 1) div 2 ^ u)"

definition float_groups :: "nat \<Rightarrow> nat \<Rightarrow> nat" where
  "float_groups globalSize localSize = ceil_quotient (to_float globalSize) (to_float localSize)"

section \<open>The state of a subtest\<close>

definition MAX_DIMS :: nat where "MAX_DIMS = 3"

definition NUMBER_OF_REGIONS :: nat where "NUMBER_OF_REGIONS = 8"

record attrib =
  get_global_size :: "nat list"
  get_global_offset :: "nat list"
  get_local_size :: "nat list"
  get_enqueued_local_size :: "nat list"
  get_global_id :: "nat list"
  get_local_id :: "nat list"
  get_group_id :: "nat list"
  get_num_groups :: "nat list"
  get_work_dim :: nat

definition zero_attrib :: attrib where
  "zero_attrib = \<lparr> get_global_size = [0, 0, 0], get_global_offset = [0, 0, 0], get_local_size = [0, 0, 0],
     get_enqueued_local_size = [0, 0, 0], get_global_id = [0, 0, 0], get_local_id = [0, 0, 0],
     get_group_id = [0, 0, 0], get_num_groups = [0, 0, 0], get_work_dim = 0 \<rparr>"

definition BASIC :: nat where "BASIC = 1"
definition BARRIERS :: nat where "BARRIERS = 2"
definition ATOMICS :: nat where "ATOMICS = 4"
definition ALL_RANGES :: nat where "ALL_RANGES = BASIC OR BARRIERS OR ATOMICS"

abbreviation in_range :: "nat \<Rightarrow> nat \<Rightarrow> bool" where "in_range r bits \<equiv> r AND bits \<noteq> 0"

record nonuniform =
  m_globalSize :: "nat list"
  m_localSize :: "nat list"
  m_globalWorkOffset :: "nat list"
  m_globalWorkOffset_IsNull :: bool
  m_enqueuedLocalSize :: "nat list"
  m_localSize_IsNull :: bool
  m_reqdWorkGroupSize :: "nat list"
  m_maxWorkItemSizes :: "nat list"
  m_numOfGlobalWorkItems :: nat
  m_dims :: nat
  m_testRange :: nat
  m_results :: "attrib list"
  m_reference :: "attrib list"
  m_globalAtomicTestValue :: nat
  m_err :: error_class

text \<open>The answers of the device and of the compiler.\<close>

record device =
  cl_version_3 :: bool
  nonuniform_support :: "int \<times> bool"
  max_dimensions_error :: int
  max_work_item_sizes :: "int \<times> nat list"
  build :: "string \<Rightarrow> int"
  max_work_group_size :: "int \<times> nat"

section \<open>The constructor\<close>

definition each_dim :: "(nat \<Rightarrow> 'a) \<Rightarrow> 'a list" where "each_dim f = map f [0..<MAX_DIMS]"

definition round_up :: "nat \<Rightarrow> nat \<Rightarrow> nat" where
  "round_up global_size_before localSize =
     (global_size_before + (localSize - global_size_before mod localSize)) mod 2 ^ 64"

definition setGlobalWorkgroupSize :: "nat \<Rightarrow> nat list \<Rightarrow> nonuniform \<Rightarrow> nonuniform" where
  "setGlobalWorkgroupSize dims globalSize nu =
     nu\<lparr> m_globalSize := each_dim (\<lambda>i. if i < dims then globalSize ! i else m_globalSize nu ! i) \<rparr>"

definition setLocalWorkgroupSize ::
    "nat \<Rightarrow> nat list \<Rightarrow> nat list option \<Rightarrow> nonuniform \<Rightarrow> nonuniform" where
  "setLocalWorkgroupSize dims globalSize localSize nu =
     (case localSize of None \<Rightarrow> nu
      | Some l \<Rightarrow> nu\<lparr> m_localSize := each_dim (\<lambda>i. if i < dims
          then if globalSize ! i < l ! i then globalSize ! i else l ! i
          else m_localSize nu ! i) \<rparr>)"

text \<open>The constructor after the rounding of the global sizes.\<close>

definition set_members ::
    "nat \<Rightarrow> nat list \<Rightarrow> nat list option \<Rightarrow> nat list option \<Rightarrow> nat list option \<Rightarrow> nonuniform \<Rightarrow> nonuniform" where
  "set_members dims globalSize localSize globalWorkOffset reqdWorkGroupSize nu =
     (let nu = setGlobalWorkgroupSize dims globalSize nu;
          nu = setLocalWorkgroupSize dims globalSize localSize nu;
          nu = nu\<lparr> m_globalSize := each_dim (\<lambda>i. if i < dims then m_globalSize nu ! i else 1),
            m_globalWorkOffset_IsNull := (globalWorkOffset = None),
            m_globalWorkOffset := each_dim (\<lambda>i. case globalWorkOffset of None \<Rightarrow> 0
              | Some offset \<Rightarrow> if i < dims then offset ! i else 0),
            m_localSize_IsNull := (localSize = None),
            m_enqueuedLocalSize := each_dim (\<lambda>i. if localSize \<noteq> None \<and> i < dims then m_localSize nu ! i else 1),
            m_reqdWorkGroupSize := each_dim (\<lambda>i. case reqdWorkGroupSize of None \<Rightarrow> 0
              | Some reqd \<Rightarrow> if i < dims then reqd ! i else 1),
            m_testRange := ALL_RANGES \<rparr>
      in nu\<lparr> m_numOfGlobalWorkItems :=
          m_globalSize nu ! 0 * m_globalSize nu ! 1 * m_globalSize nu ! 2 mod 2 ^ 64,
        m_results := replicate NUMBER_OF_REGIONS zero_attrib,
        m_reference := replicate NUMBER_OF_REGIONS zero_attrib \<rparr>)"

text \<open>
  \<open>u\<close> holds what the members are before they are set. A first global size of 0 tells
  \<open>prepareDevice\<close> of an error. The caller's array of global sizes is rounded in place.
\<close>

definition TestNonUniformWorkGroup ::
    "device \<Rightarrow> nat \<Rightarrow> nat list option \<Rightarrow> nat list option \<Rightarrow> nat list option \<Rightarrow> nat list option \<Rightarrow>
     nonuniform \<Rightarrow> (nonuniform \<times> nat list option) option" where
  "TestNonUniformWorkGroup dev dims globalSize localSize globalWorkOffset reqdWorkGroupSize u =
     (let nu = u\<lparr> m_dims := dims, m_err := ErrorClass \<rparr>;
          failed = nu\<lparr> m_globalSize := (m_globalSize u)[0 := 0] \<rparr>
      in case globalSize of
        None \<Rightarrow> Some (failed, globalSize)
      | Some g \<Rightarrow>
          if dims < 1 \<or> dims > 3 then Some (failed, globalSize)
          else case (if cl_version_3 dev then localSize else None) of
            None \<Rightarrow> Some (set_members dims g localSize globalWorkOffset reqdWorkGroupSize nu, globalSize)
          | Some l \<Rightarrow>
              if fst (nonuniform_support dev) \<noteq> 0 then Some (failed, globalSize)
              else if snd (nonuniform_support dev)
              then Some (set_members dims g localSize globalWorkOffset reqdWorkGroupSize nu, globalSize)
              else if \<exists>i\<in>set [0..<dims]. l ! i = 0 then None
              else let g = map (\<lambda>i. if i < dims then round_up (g ! i) (l ! i) else g ! i) [0..<length g]
                in Some (set_members dims g localSize globalWorkOffset reqdWorkGroupSize nu, Some g))"

section \<open>The expected values\<close>

text \<open>A region is a corner of the ND-range: bit \<open>d\<close> of its number tells which end of dimension \<open>d\<close>.\<close>

definition skipped :: "nat list \<Rightarrow> nat \<Rightarrow> bool" where
  "skipped globalSize i \<longleftrightarrow> (i AND 1 \<noteq> 0 \<and> \<not> globalSize ! 0 > 1) \<or>
     (i AND 2 \<noteq> 0 \<and> \<not> globalSize ! 1 > 1) \<or> (i AND 4 \<noteq> 0 \<and> \<not> globalSize ! 2 > 1)"

definition last_size :: "nat \<Rightarrow> nat \<Rightarrow> nat" where
  "last_size globalSize localSize = (globalSize - 1) mod localSize + 1"

definition expected :: "nonuniform \<Rightarrow> nat \<Rightarrow> attrib \<Rightarrow> attrib" where
  "expected nu i r =
     (if skipped (m_globalSize nu) i then r
      else let g = m_globalSize nu; e = m_enqueuedLocalSize nu
        in r\<lparr> get_global_size := g, get_global_offset := m_globalWorkOffset nu,
          get_enqueued_local_size := e,
          get_local_size := each_dim (\<lambda>d. if i AND 2 ^ d \<noteq> 0 then last_size (g ! d) (e ! d) else e ! d),
          get_num_groups := each_dim (\<lambda>d. float_groups (g ! d) (e ! d)),
          get_work_dim := m_dims nu \<rparr>)"

definition calculateExpectedValues :: "nonuniform \<Rightarrow> nonuniform option" where
  "calculateExpectedValues nu =
     (if 0 \<in> set (m_enqueuedLocalSize nu) then None
      else Some (nu\<lparr> m_reference := map (\<lambda>i. expected nu i (m_reference nu ! i)) [0..<NUMBER_OF_REGIONS] \<rparr>))"

section \<open>Preparation\<close>

definition build_options :: "nonuniform \<Rightarrow> string" where
  "build_options nu =
     (let r = m_reqdWorkGroupSize nu
      in if r ! 0 \<noteq> 0 \<and> r ! 1 \<noteq> 0 \<and> r ! 2 \<noteq> 0
         then '' -D RWGSX='' @ decimal (r ! 0) @ '' -D RWGSY='' @ decimal (r ! 1)
           @ '' -D RWGSZ='' @ decimal (r ! 2) @ '' '' else '''')
     @ (if in_range (m_testRange nu) BASIC then '' -D TESTBASIC'' else '''')
     @ (if in_range (m_testRange nu) ATOMICS then '' -D TESTATOMICS'' else '''')
     @ (if in_range (m_testRange nu) BARRIERS then '' -D TESTBARRIERS'' else '''')"

definition trim_sizes :: "nat list \<Rightarrow> nonuniform \<Rightarrow> nonuniform" where
  "trim_sizes sizes nu =
     nu\<lparr> m_maxWorkItemSizes := sizes,
       m_enqueuedLocalSize := each_dim (\<lambda>i. if i < m_dims nu \<and> m_enqueuedLocalSize nu ! i > sizes ! i
         then sizes ! i else m_enqueuedLocalSize nu ! i) \<rparr>"

definition prepareDevice :: "device \<Rightarrow> nonuniform \<Rightarrow> (int \<times> nonuniform) option" where
  "prepareDevice dev nu =
     (if m_globalSize nu ! 0 = 0 then Some (- 1, nu)
      else if max_dimensions_error dev \<noteq> 0 then Some (max_dimensions_error dev, nu)
      else if fst (max_work_item_sizes dev) \<noteq> 0 then Some (fst (max_work_item_sizes dev), nu)
      else do {
        let nu = trim_sizes (snd (max_work_item_sizes dev)) nu;
        nu \<leftarrow> (if m_localSize_IsNull nu then Some nu else calculateExpectedValues nu);
        Some (if build dev (build_options nu) \<noteq> 0 then - 1 else 0, nu)
      })"

section \<open>Running the kernel\<close>

definition size_of_int :: "int \<Rightarrow> nat" where "size_of_int i = nat (i mod 2 ^ 64)"

text \<open>
  The results of \<^verbatim>\<open>clGetKernelWorkGroupInfo\<close> and \<^verbatim>\<open>clGetDeviceInfo\<close> come with
  their error codes, which these functions return as a size.
\<close>

definition adjustLocalArraySize :: "int \<times> nat \<Rightarrow> int \<times> nat \<Rightarrow> nat \<Rightarrow> nat" where
  "adjustLocalArraySize kernelLocalMemSize deviceLocalMemSize localArraySize =
     (if fst kernelLocalMemSize \<noteq> 0 then size_of_int (fst kernelLocalMemSize)
      else if fst deviceLocalMemSize \<noteq> 0 then size_of_int (fst deviceLocalMemSize)
      else if (snd kernelLocalMemSize + localArraySize) mod 2 ^ 64 > snd deviceLocalMemSize
      then size_of_int (int (snd deviceLocalMemSize) - int (snd kernelLocalMemSize))
      else localArraySize)"

definition adjustGlobalBufferSize :: "int \<times> nat \<Rightarrow> nat \<Rightarrow> nat" where
  "adjustGlobalBufferSize deviceMaxAllocObjSize globalBufferSize =
     (if fst deviceMaxAllocObjSize \<noteq> 0 then size_of_int (fst deviceMaxAllocObjSize)
      else if snd deviceMaxAllocObjSize < globalBufferSize then snd deviceMaxAllocObjSize
      else globalBufferSize)"

definition getMaxLocalWorkgroupSize :: "device \<Rightarrow> nat \<Rightarrow> nat" where
  "getMaxLocalWorkgroupSize dev maxLocalWorkgroupSize =
     (if maxLocalWorkgroupSize = 0
      then if fst (max_work_group_size dev) \<noteq> 0 then 0 else snd (max_work_group_size dev)
      else maxLocalWorkgroupSize)"

datatype run_call = CreateResults | SetArg nat | CreateAtomic | CreateErrors | EnqueueKernel | Finish
  | ReadAtomic | ReadResults | ReadErrors

record run_api =
  run_code :: "run_call \<Rightarrow> int"
  local_arg :: "nat \<Rightarrow> int"
  create_global :: "nat \<Rightarrow> int"
  kernel_local_mem :: "int \<times> nat"
  device_local_mem :: "int \<times> nat"
  device_max_alloc :: "int \<times> nat"

text \<open>The arguments of \<^verbatim>\<open>clEnqueueNDRangeKernel\<close>, and what the host reads back.\<close>

record ndrange =
  r_dims :: nat
  r_offset :: "nat list option"
  r_global :: "nat list"
  r_local :: "nat list option"

record execution =
  x_results :: "attrib list"
  x_atomic :: nat
  x_counters :: "u32 list"

definition first_error :: "int list \<Rightarrow> int" where
  "first_error codes = (case filter (\<lambda>c. c \<noteq> 0) codes of [] \<Rightarrow> 0 | c # _ \<Rightarrow> c)"

definition ndrange_of :: "nonuniform \<Rightarrow> ndrange" where
  "ndrange_of nu = \<lparr> r_dims = m_dims nu,
     r_offset = (if m_globalWorkOffset_IsNull nu then None else Some (m_globalWorkOffset nu)),
     r_global = m_globalSize nu,
     r_local = (if m_localSize_IsNull nu then None else Some (m_enqueuedLocalSize nu)) \<rparr>"

definition runKernel ::
    "device \<Rightarrow> nat \<Rightarrow> run_api \<Rightarrow> (ndrange \<Rightarrow> execution) \<Rightarrow> nonuniform \<Rightarrow> int \<times> nonuniform" where
  "runKernel dev maxLocal api execute nu =
     (let e = m_enqueuedLocalSize nu;
          localArraySize = (if m_localSize_IsNull nu then getMaxLocalWorkgroupSize dev maxLocal
            else e ! 0 * e ! 1 * e ! 2 mod 2 ^ 64);
          localArraySize = adjustLocalArraySize (kernel_local_mem api) (device_local_mem api)
            (localArraySize * 4 mod 2 ^ 64);
          globalBufferSize = adjustGlobalBufferSize (device_max_alloc api)
            (m_numOfGlobalWorkItems nu * 4 mod 2 ^ 64);
          err = first_error [run_code api CreateResults, run_code api (SetArg 0),
            local_arg api localArraySize, create_global api globalBufferSize, run_code api (SetArg 2),
            run_code api CreateAtomic, run_code api (SetArg 3), run_code api CreateErrors,
            run_code api (SetArg 4), run_code api EnqueueKernel, run_code api Finish,
            run_code api ReadAtomic];
          nu = nu\<lparr> m_globalAtomicTestValue := 0 \<rparr>
      in if err \<noteq> 0 then (err, nu)
         else let x = execute (ndrange_of nu);
                  nu = nu\<lparr> m_globalAtomicTestValue := x_atomic x \<rparr>
           in if checkError (m_err nu) then (- 1, nu)
              else let err = first_error [run_code api ReadResults, run_code api ReadErrors]
                in if err \<noteq> 0 then (err, nu)
                   else (0, nu\<lparr> m_results := x_results x,
                       m_err := synchronizeStatsMap ((m_err nu)\<lparr> m_counter := x_counters x \<rparr>) \<rparr>))"

section \<open>Verification\<close>

text \<open>A comparison that reports its two values when they are wrong.\<close>

definition report :: "bool \<Rightarrow> Type \<Rightarrow> string \<Rightarrow> nat \<Rightarrow> nat \<Rightarrow> error_class \<Rightarrow> error_class" where
  "report bad t location is_value expected_value e =
     (if bad then show_values t location is_value expected_value e else e)"

definition verify_dim ::
    "nat list \<Rightarrow> attrib \<Rightarrow> attrib \<Rightarrow> nat \<Rightarrow> nat \<Rightarrow> error_class \<Rightarrow> error_class" where
  "verify_dim maxSizes reference results regionNumber i e =
     (let location = ''region number: '' @ decimal regionNumber @ '' for dim: '' @ decimal i;
          compare = (\<lambda>t get bad. report (get results ! i \<noteq> get reference ! i \<or> bad)
            t location (get results ! i) (get reference ! i));
          e = compare ERR_GLOBAL_SIZE get_global_size False e;
          e = compare ERR_GLOBAL_WORK_OFFSET get_global_offset False e;
          e = compare ERR_LOCAL_SIZE get_local_size (get_local_size results ! i > maxSizes ! i) e;
          e = compare ERR_ENQUEUED_LOCAL_SIZE get_enqueued_local_size
            (get_enqueued_local_size results ! i > maxSizes ! i) e
      in compare ERR_NUM_GROUPS get_num_groups False e)"

definition verifyData ::
    "nat list \<Rightarrow> nat \<Rightarrow> attrib \<Rightarrow> attrib \<Rightarrow> nat \<Rightarrow> error_class \<Rightarrow> error_class" where
  "verifyData maxSizes testRange reference results regionNumber e =
     (if in_range testRange BASIC
      then let e = fold (verify_dim maxSizes reference results regionNumber) [0..<MAX_DIMS] e
        in report (get_work_dim results \<noteq> get_work_dim reference) ERR_WORK_DIM
             (''region number: '' @ decimal regionNumber) (get_work_dim results) (get_work_dim reference) e
      else e)"

definition check_strict :: "bool \<Rightarrow> nat \<Rightarrow> nonuniform \<Rightarrow> nonuniform" where
  "check_strict strictMode maxLocal nu =
     (let e = m_enqueuedLocalSize nu; localWorkGroupSize = e ! 0 * e ! 1 * e ! 2 mod 2 ^ 64
      in nu\<lparr> m_err := report (strictMode \<and> localWorkGroupSize \<noteq> maxLocal) ERR_STRICT_MODE ''''
           localWorkGroupSize maxLocal (m_err nu) \<rparr>)"

definition compare_regions :: "nonuniform \<Rightarrow> error_class" where
  "compare_regions nu =
     (let e = fold (\<lambda>i. verifyData (m_maxWorkItemSizes nu) (m_testRange nu) (m_reference nu ! i) (m_results nu ! i) i)
            [0..<NUMBER_OF_REGIONS] (m_err nu)
      in if in_range (m_testRange nu) ATOMICS \<and> m_globalAtomicTestValue nu \<noteq> m_numOfGlobalWorkItems nu
         then show_error ERR_GLOBAL_ATOMIC '''' '''' e else e)"

definition verifyResults ::
    "device \<Rightarrow> bool \<Rightarrow> nat \<Rightarrow> nonuniform \<Rightarrow> (int \<times> nonuniform) option" where
  "verifyResults dev strictMode maxLocal nu = do {
     nu \<leftarrow> (if m_localSize_IsNull nu
       then do {
         nu \<leftarrow> calculateExpectedValues
           (nu\<lparr> m_enqueuedLocalSize := each_dim (\<lambda>i. get_local_size (m_results nu ! 0) ! i) \<rparr>);
         Some (check_strict strictMode (getMaxLocalWorkgroupSize dev maxLocal) nu)
       }
       else Some nu);
     let e = compare_regions nu;
     Some (if checkError e then - 1 else 0, nu\<lparr> m_err := e \<rparr>)
   }"

section \<open>The executor\<close>

record executor =
  m_failCounter :: nat
  m_overallCounter :: nat

definition count_fail :: "executor \<Rightarrow> executor" where
  "count_fail s = s\<lparr> m_failCounter := m_failCounter s + 1 \<rparr>"

definition runTestNonUniformWorkGroup ::
    "device \<Rightarrow> bool \<Rightarrow> nat \<Rightarrow> run_api \<Rightarrow> (nat \<Rightarrow> ndrange \<Rightarrow> execution) \<Rightarrow> nat \<Rightarrow> nat list option \<Rightarrow>
     nat list option \<Rightarrow> nat list option \<Rightarrow> nat list option \<Rightarrow> nat \<Rightarrow> nonuniform \<Rightarrow> executor \<Rightarrow> executor option" where
  "runTestNonUniformWorkGroup dev strictMode maxLocal api execute dims globalSize localSize
     globalWorkOffset reqdWorkGroupSize testRange u s = do {
     let s = s\<lparr> m_overallCounter := m_overallCounter s + 1 \<rparr>;
     (nu, _) \<leftarrow> TestNonUniformWorkGroup dev dims globalSize localSize globalWorkOffset reqdWorkGroupSize u;
     let nu = nu\<lparr> m_testRange := testRange \<rparr>;
     (err, nu) \<leftarrow> prepareDevice dev nu;
     if err \<noteq> 0 then Some (count_fail s)
     else case runKernel dev maxLocal api (execute testRange) nu of (err, nu) \<Rightarrow>
       if err \<noteq> 0 then Some (count_fail s)
       else do {
         (err, nu) \<leftarrow> verifyResults dev strictMode maxLocal nu;
         Some (if err \<noteq> 0 then count_fail s else s)
       }
   }"

definition status :: "executor \<Rightarrow> int" where
  "status s = (if m_failCounter s > 0 then - 1 else 0)"

section \<open>The kernel\<close>

text \<open>
  An ND-range as the device runs it; a work-item is its global id less the offset. The group of
  an item, its place in it, the size of the group and the number of groups are OpenCL's.
\<close>

record nd =
  n_dims :: nat
  n_offset :: "nat list"
  n_global :: "nat list"
  n_enqueued :: "nat list"

definition group_of :: "nd \<Rightarrow> nat list \<Rightarrow> nat \<Rightarrow> nat" where
  "group_of n item d = item ! d div n_enqueued n ! d"

definition local_size_of :: "nd \<Rightarrow> nat list \<Rightarrow> nat \<Rightarrow> nat" where
  "local_size_of n item d =
     min (n_enqueued n ! d) (n_global n ! d - group_of n item d * n_enqueued n ! d)"

definition num_groups_of :: "nd \<Rightarrow> nat \<Rightarrow> nat" where
  "num_groups_of n d = (n_global n ! d + n_enqueued n ! d - 1) div n_enqueued n ! d"

text \<open>\<open>getRegionIndex\<close> of the kernel, on \<^verbatim>\<open>uint\<close> ids; \<open>None\<close> is its -1.\<close>

definition getRegionIndex :: "nd \<Rightarrow> nat list \<Rightarrow> nat option" where
  "getRegionIndex n item =
     (let gid0 = item ! 0 mod 2 ^ 32; gid1 = item ! 1 mod 2 ^ 32; gid2 = item ! 2 mod 2 ^ 32;
          g = n_global n
      in if gid0 = 0 \<and> gid1 = 0 \<and> gid2 = 0 then Some 0
         else if gid0 = g ! 0 - 1 \<and> gid1 = 0 \<and> gid2 = 0 then Some 1
         else if gid0 = 0 \<and> gid1 = g ! 1 - 1 \<and> gid2 = 0 then Some 2
         else if gid0 = g ! 0 - 1 \<and> gid1 = g ! 1 - 1 \<and> gid2 = 0 then Some 3
         else if gid0 = 0 \<and> gid1 = 0 \<and> gid2 = g ! 2 - 1 then Some 4
         else if gid0 = g ! 0 - 1 \<and> gid1 = 0 \<and> gid2 = g ! 2 - 1 then Some 5
         else if gid0 = 0 \<and> gid1 = g ! 1 - 1 \<and> gid2 = g ! 2 - 1 then Some 6
         else if gid0 = g ! 0 - 1 \<and> gid1 = g ! 1 - 1 \<and> gid2 = g ! 2 - 1 then Some 7
         else None)"

text \<open>What the kernel stores for a work-item: \<open>getLocalSize\<close>, and \<open>testBasicHost\<close> if it is compiled in.\<close>

definition store_attrib :: "nat \<Rightarrow> nd \<Rightarrow> nat list \<Rightarrow> attrib \<Rightarrow> attrib" where
  "store_attrib testRange n item r =
     (let r = r\<lparr> get_local_size := each_dim (local_size_of n item) \<rparr>
      in if in_range testRange BASIC
         then r\<lparr> get_global_size := n_global n, get_global_offset := n_offset n,
           get_enqueued_local_size := n_enqueued n,
           get_global_id := each_dim (\<lambda>d. n_offset n ! d + item ! d),
           get_local_id := each_dim (\<lambda>d. item ! d mod n_enqueued n ! d),
           get_group_id := each_dim (group_of n item),
           get_num_groups := each_dim (num_groups_of n),
           get_work_dim := n_dims n \<rparr>
         else r)"

definition kernel_item :: "nat \<Rightarrow> nd \<Rightarrow> nat list \<Rightarrow> attrib list \<Rightarrow> attrib list" where
  "kernel_item testRange n item results =
     (case getRegionIndex n item of None \<Rightarrow> results
      | Some i \<Rightarrow> results[i := store_attrib testRange n item (results ! i)])"

definition kernel_results :: "nat \<Rightarrow> nd \<Rightarrow> nat list list \<Rightarrow> attrib list" where
  "kernel_results testRange n items =
     fold (kernel_item testRange n) items (replicate NUMBER_OF_REGIONS zero_attrib)"

end
