(* ===== verification/NonUniformPass.thy ===== *)
theory NonUniformPass
  imports NonUniform
begin

text \<open>
  A device that runs the kernel as OpenCL defines it passes the non-uniform work-group tests: the
  values computed by the host are those of the work-items at the corners of the ND-range, whatever
  the order in which the work-items run.
\<close>

section \<open>The number of groups\<close>

lemma rne_exact: "0 < d \<Longrightarrow> rne (k * d) d = k" by (simp add: rne_def)

lemma rne_bounds: "n div d \<le> rne n d" "rne n d \<le> n div d + 1" "n mod d = 0 \<Longrightarrow> 0 < d \<Longrightarrow> rne n d = n div d"
  by (simp_all add: rne_def Let_def)

lemma rne_upper:
  assumes "0 < d" "n \<le> k * d"
  shows "rne n d \<le> k"
proof (cases "n = k * d")
  case True
  then show ?thesis using rne_exact [OF assms(1)] by simp
next
  case False
  then have "n < k * d" using assms(2) by simp
  then have "n div d < k" using assms(1) by (simp add: div_less_iff_less_mult)
  then show ?thesis using rne_bounds(2) [of n d] by linarith
qed

lemma rne_above:
  assumes "0 < d" "n = k * d + r" "r < d" "d < 2 * r"
  shows "rne n d = k + 1"
proof -
  have "n div d = k" "n mod d = r" using assms(1-3) by simp_all
  then show ?thesis using assms(4) by (simp add: rne_def Let_def)
qed

lemma rne_above_le:
  assumes "0 < d" "k * d < n" "d < 2 * (n - k * d)"
  shows "k < rne n d"
proof (cases "n - k * d < d")
  case True
  then show ?thesis using rne_above [of d n k "n - k * d"] assms by simp
next
  case False
  moreover have "(k + 1) * d = k * d + d" by simp
  ultimately have "(k + 1) * d \<le> n" using assms(2) by linarith
  then have "k + 1 \<le> n div d" using assms(1) by (simp only: less_eq_div_iff_mult_less_eq)
  then show ?thesis using rne_bounds(1) [of n d] by linarith
qed

lemma scale_up_reaches: "a \<noteq> 0 \<Longrightarrow> 2 ^ 23 * b \<le> a * 2 ^ scale_up a b"
proof (induction a b rule: scale_up.induct)
  case (1 a b)
  then show ?case by (cases "2 ^ 23 * b \<le> a") (simp_all add: scale_up.simps [of a b] mult.assoc mult.left_commute)
qed

lemma to_float_small: "n < 2 ^ 24 \<Longrightarrow> to_float n = n"
  using rne_exact [of 1 n] by (simp add: to_float_def scale_down.simps [of n] Let_def)

lemma ceil_above:
  assumes "0 < (s :: nat)" "n * s < m" "m \<le> n * s + s"
  shows "(m + s - 1) div s = n + 1"
proof (rule div_nat_eqI)
  have "s * (n + 1) = n * s + s" by (simp add: algebra_simps)
  then show "s * (n + 1) \<le> m + s - 1" using assms by linarith
  have "s * Suc (n + 1) = n * s + s + s" by (simp add: algebra_simps)
  then show "m + s - 1 < s * Suc (n + 1)" using assms by linarith
qed

lemma ceil_exact: "0 < (s :: nat) \<Longrightarrow> (n * s + s - 1) div s = n"
  by (rule div_nat_eqI) (simp_all add: algebra_simps)

text \<open>Up to 24 bits, the number of groups computed in \<^verbatim>\<open>float\<close> is right.\<close>

lemma float_groups_exact:
  assumes "0 < e" "g < 2 ^ 24" "e < 2 ^ 24"
  shows "float_groups g e = (g + e - 1) div e"
proof (cases "g = 0")
  case True
  then show ?thesis
    using assms to_float_small [of 0] to_float_small [of e]
    by (simp add: float_groups_def ceil_quotient_def scale_up.simps [of 0] scale_down.simps [of 0] rne_def)
next
  case False
  define u where "u = scale_up g e"
  define m where "m = rne (g * 2 ^ u) e"
  have "scale_down g e = 0" using assms by (simp add: scale_down.simps [of g])
  then have eq: "float_groups g e = (m + 2 ^ u - 1) div 2 ^ u"
    using assms by (simp add: float_groups_def ceil_quotient_def to_float_small m_def u_def Let_def)
  have split: "g * 2 ^ u = g div e * 2 ^ u * e + g mod e * 2 ^ u"
    by (metis add_mult_distrib mult.commute mult.left_commute div_mult_mod_eq)
  show ?thesis
  proof (cases "g mod e = 0")
    case True
    then have "g * 2 ^ u = g div e * 2 ^ u * e" using split by simp
    then have "m = g div e * 2 ^ u" using rne_exact [OF assms(1), of "g div e * 2 ^ u"] by (simp only: m_def)
    then have "(m + 2 ^ u - 1) div 2 ^ u = g div e" using ceil_exact [of "2 ^ u" "g div e"] by simp
    moreover have "(g + e - 1) div e = g div e"
      using ceil_exact [OF assms(1), of "g div e"] True by (metis div_mult_mod_eq add.right_neutral)
    ultimately show ?thesis by (simp only: eq)
  next
    case r: False
    have "2 ^ 23 * e \<le> g * 2 ^ u" using scale_up_reaches [of g e] False by (simp add: u_def)
    also have "\<dots> < 2 ^ 24 * 2 ^ u" using assms(2) by simp
    finally have half: "e < 2 * 2 ^ u" by simp
    have "2 ^ u \<le> g mod e * 2 ^ u" using r by simp
    then have "g div e * 2 ^ u < m"
      unfolding m_def
    proof (intro rne_above_le)
      show "g div e * 2 ^ u * e < g * 2 ^ u" "e < 2 * (g * 2 ^ u - g div e * 2 ^ u * e)"
        using split half \<open>2 ^ u \<le> g mod e * 2 ^ u\<close> assms(1) by linarith+
    qed (rule assms(1))
    moreover have "g * 2 ^ u \<le> (g div e + 1) * 2 ^ u * e"
    proof -
      have "g mod e * 2 ^ u \<le> e * 2 ^ u" using assms(1) by (simp add: less_imp_le)
      then show ?thesis using split by (simp add: algebra_simps)
    qed
    then have "m \<le> (g div e + 1) * 2 ^ u" unfolding m_def by (rule rne_upper [OF assms(1)])
    ultimately have "(m + 2 ^ u - 1) div 2 ^ u = g div e + 1" by (intro ceil_above) (simp_all add: add.commute)
    moreover have "(g + e - 1) div e = g div e + 1"
    proof (rule ceil_above [OF assms(1)])
      have "g = g div e * e + g mod e" "g mod e < e" using assms(1) by simp_all
      then show "g div e * e < g" "g \<le> g div e * e + e" using r by linarith+
    qed
    ultimately show ?thesis by (simp only: eq)
  qed
qed

text \<open>One more item, and a group is lost.\<close>

lemma float_groups_beyond: "float_groups (2 ^ 24 + 1) 1 = 2 ^ 24"
  by (simp add: float_groups_def to_float_def ceil_quotient_def scale_down.simps scale_up.simps rne_def Let_def)


section \<open>The corners of the ND-range\<close>

lemma each_dim_eq: "each_dim f = [f 0, f 1, f 2]" by (simp add: each_dim_def MAX_DIMS_def upt_rec numeral_2_eq_2)

lemma each_dim_nth [simp]: "d < 3 \<Longrightarrow> each_dim f ! d = f d" by (simp add: each_dim_def MAX_DIMS_def)

lemma length_each_dim [simp]: "length (each_dim f) = 3" by (simp add: each_dim_def MAX_DIMS_def)

lemma three_dims: "(\<forall>d < 3. P d) \<longleftrightarrow> P 0 \<and> P 1 \<and> P (2 :: nat)"
  by (auto simp: numeral_3_eq_3 numeral_2_eq_2 less_Suc_eq)

lemma length_3: "length xs = 3 \<Longrightarrow> \<exists>a b c. xs = [a, b, c]"
  by (auto simp: numeral_3_eq_3 length_Suc_conv)

text \<open>An ND-range that the code can describe, within the device's limits.\<close>

definition nd_ok :: "nd \<Rightarrow> nat list \<Rightarrow> bool" where
  "nd_ok n maxSizes \<longleftrightarrow> length (n_global n) = 3 \<and> length (n_enqueued n) = 3 \<and> length (n_offset n) = 3 \<and>
     (\<forall>d < 3. 1 \<le> n_enqueued n ! d \<and> n_enqueued n ! d \<le> n_global n ! d \<and>
       n_enqueued n ! d \<le> maxSizes ! d \<and> n_global n ! d < 2 ^ 24)"

definition items_of :: "nd \<Rightarrow> nat list set" where
  "items_of n = {item. length item = 3 \<and> (\<forall>d < 3. item ! d < n_global n ! d)}"

definition corner :: "nd \<Rightarrow> nat \<Rightarrow> nat list" where
  "corner n i = each_dim (\<lambda>d. if i AND 2 ^ d \<noteq> 0 then n_global n ! d - 1 else 0)"

lemma less_8: "i < 8 \<longleftrightarrow> i = 0 \<or> i = 1 \<or> i = 2 \<or> i = 3 \<or> i = 4 \<or> i = 5 \<or> i = 6 \<or> i = (7 :: nat)"
  by auto

lemma corner_region:
  assumes "nd_ok n ms" "i < 8" "\<not> skipped (n_global n) i"
  shows "getRegionIndex n (corner n i) = Some i" "corner n i \<in> items_of n"
proof -
  obtain x y z where g: "n_global n = [x, y, z]" using assms(1) length_3 [of "n_global n"] unfolding nd_ok_def by blast
  have "0 < x" "0 < y" "0 < z" "x < 2 ^ 24" "y < 2 ^ 24" "z < 2 ^ 24"
    using assms(1) by (auto simp: nd_ok_def three_dims g)
  then have "(x - 1) mod 2 ^ 32 = x - 1" "(y - 1) mod 2 ^ 32 = y - 1" "(z - 1) mod 2 ^ 32 = z - 1"
    by simp_all
  then show "getRegionIndex n (corner n i) = Some i"
    using assms(2,3) unfolding less_8
    by (elim disjE) (simp_all add: getRegionIndex_def corner_def each_dim_eq g skipped_def)
  show "corner n i \<in> items_of n"
    using \<open>0 < x\<close> \<open>0 < y\<close> \<open>0 < z\<close> by (simp add: items_of_def corner_def three_dims g)
qed

lemma region_corner:
  assumes "nd_ok n ms" "item \<in> items_of n" "getRegionIndex n item = Some i"
  shows "i < 8 \<and> \<not> skipped (n_global n) i \<and> item = corner n i"
proof -
  obtain x y z where g: "n_global n = [x, y, z]" using assms(1) length_3 [of "n_global n"] unfolding nd_ok_def by blast
  obtain a b c where item: "item = [a, b, c]" using assms(2) length_3 [of item] unfolding items_of_def by blast
  have less: "a < x" "b < y" "c < z" using assms(2) by (simp_all add: items_of_def three_dims g item)
  moreover have "x < 2 ^ 24" "y < 2 ^ 24" "z < 2 ^ 24"
    using assms(1) by (auto simp: nd_ok_def three_dims g)
  ultimately have small: "[a, b, c] ! 0 mod 2 ^ 32 = a" "[a, b, c] ! 1 mod 2 ^ 32 = b" "[a, b, c] ! 2 mod 2 ^ 32 = c"
    by simp_all
  have "a \<noteq> 0 \<Longrightarrow> 1 < x" "b \<noteq> 0 \<Longrightarrow> 1 < y" "c \<noteq> 0 \<Longrightarrow> 1 < z" using less by auto
  then show ?thesis
    using assms(3) less unfolding getRegionIndex_def item g Let_def small
    by (auto simp: corner_def each_dim_eq g skipped_def split: if_splits)
qed

section \<open>What the kernel stores\<close>

lemma store_attrib_idem: "store_attrib R n c (store_attrib R n c r) = store_attrib R n c r"
  by (simp add: store_attrib_def Let_def)

lemma kernel_fold:
  assumes "nd_ok n ms"
  shows "set items \<subseteq> items_of n \<Longrightarrow>
    length (kernel_results R n items) = 8 \<and>
    (\<forall>i < 8. kernel_results R n items ! i =
      (if \<exists>item\<in>set items. getRegionIndex n item = Some i
       then store_attrib R n (corner n i) zero_attrib else zero_attrib))"
proof (induction items rule: rev_induct)
  case Nil
  show ?case by (simp add: kernel_results_def NUMBER_OF_REGIONS_def)
next
  case (snoc item items)
  let ?res = "kernel_results R n items"
  have step: "kernel_results R n (items @ [item]) = kernel_item R n item ?res"
    by (simp add: kernel_results_def)
  have IH: "length ?res = 8" "\<And>i. i < 8 \<Longrightarrow> ?res ! i =
      (if \<exists>item\<in>set items. getRegionIndex n item = Some i
       then store_attrib R n (corner n i) zero_attrib else zero_attrib)"
    using snoc by simp_all
  show ?case
  proof (cases "getRegionIndex n item")
    case None
    then show ?thesis using IH by (simp add: step kernel_item_def)
  next
    case (Some j)
    have j: "j < 8" "item = corner n j" using region_corner [OF assms _ Some] snoc.prems by auto
    have "store_attrib R n item (?res ! j) = store_attrib R n (corner n j) zero_attrib"
      unfolding IH(2) [OF j(1)] j(2) by (simp add: store_attrib_idem)
    then show ?thesis using IH Some j(1) by (auto simp: step kernel_item_def nth_list_update)
  qed
qed

lemma kernel_results_regions:
  assumes "nd_ok n ms" "set items = items_of n" "i < 8"
  shows "kernel_results R n items ! i =
    (if skipped (n_global n) i then zero_attrib else store_attrib R n (corner n i) zero_attrib)"
proof -
  have "(\<exists>item\<in>set items. getRegionIndex n item = Some i) \<longleftrightarrow> \<not> skipped (n_global n) i"
    using corner_region [OF assms(1,3)] region_corner [OF assms(1)] assms(2) by blast
  then show ?thesis using kernel_fold [OF assms(1), of items R] assms(2,3) by simp
qed

lemma corner_local_size:
  assumes "nd_ok n ms" "d < 3"
  shows "local_size_of n (corner n i) d =
    (if i AND 2 ^ d \<noteq> 0 then last_size (n_global n ! d) (n_enqueued n ! d) else n_enqueued n ! d)"
proof -
  let ?g = "n_global n ! d" and ?e = "n_enqueued n ! d"
  have e: "1 \<le> ?e" "?e \<le> ?g" using assms by (auto simp: nd_ok_def)
  have "?g - 1 = (?g - 1) div ?e * ?e + (?g - 1) mod ?e" by (rule div_mult_mod_eq [symmetric])
  then have "?g - (?g - 1) div ?e * ?e = (?g - 1) mod ?e + 1" using e by linarith
  moreover have "(?g - 1) mod ?e + 1 \<le> ?e" using e by (simp add: Suc_leI)
  ultimately show ?thesis
    using assms(2) e by (auto simp: local_size_of_def group_of_def corner_def last_size_def min_def)
qed

section \<open>The verdict of the comparison\<close>

definition region_ok :: "nat list \<Rightarrow> attrib \<Rightarrow> attrib \<Rightarrow> bool" where
  "region_ok maxSizes reference results \<longleftrightarrow>
     (\<forall>d < 3. get_global_size results ! d = get_global_size reference ! d \<and>
       get_global_offset results ! d = get_global_offset reference ! d \<and>
       get_local_size results ! d = get_local_size reference ! d \<and>
       get_local_size results ! d \<le> maxSizes ! d \<and>
       get_enqueued_local_size results ! d = get_enqueued_local_size reference ! d \<and>
       get_enqueued_local_size results ! d \<le> maxSizes ! d \<and>
       get_num_groups results ! d = get_num_groups reference ! d) \<and>
     get_work_dim results = get_work_dim reference"

lemma reports_none: "reports 0 True (\<lambda>e. e)" by (simp add: reports_def)

lemma reports_step:
  "reports m P f \<Longrightarrow> reports (m + 1) (P \<and> \<not> bad) (\<lambda>e. report bad t l v x (f e))"
  unfolding report_def show_values_def by (rule reports_comp [OF _ reports_if])

lemma reports_iff: "reports m P f \<Longrightarrow> P = Q \<Longrightarrow> reports m Q f" by simp

lemma verify_dim_reports:
  "reports 5 (get_global_size res ! d = get_global_size ref ! d \<and>
       get_global_offset res ! d = get_global_offset ref ! d \<and>
       get_local_size res ! d = get_local_size ref ! d \<and> get_local_size res ! d \<le> ms ! d \<and>
       get_enqueued_local_size res ! d = get_enqueued_local_size ref ! d \<and>
       get_enqueued_local_size res ! d \<le> ms ! d \<and>
       get_num_groups res ! d = get_num_groups ref ! d)
     (verify_dim ms ref res r d)"
proof -
  note five = reports_step [OF reports_step [OF reports_step [OF reports_step [OF reports_step [OF reports_none]]]]]
  have "5 = 0 + 1 + 1 + 1 + 1 + (1 :: nat)" by simp
  then show ?thesis
    unfolding verify_dim_def Let_def by (simp only:) (rule reports_iff [OF five], auto)
qed

lemma verifyData_reports:
  "reports 16 (in_range R BASIC \<longrightarrow> region_ok ms ref res) (verifyData ms R ref res r)"
proof (cases "in_range R BASIC")
  case True
  note dims = reports_fold [of "[0..<MAX_DIMS]", OF verify_dim_reports [of res _ ref ms r]]
  have "16 = length [0..<MAX_DIMS] * 5 + (1 :: nat)" by (simp add: MAX_DIMS_def)
  then show ?thesis
    unfolding verifyData_def Let_def using True
    by (simp only: simp_thms if_True) (rule reports_iff [OF reports_step [OF dims]], auto simp: region_ok_def MAX_DIMS_def)
next
  case False
  then show ?thesis using reports_weaken [OF reports_none, of 16] by (simp add: verifyData_def [abs_def])
qed


lemma reports_from_0:
  "reports n P f \<Longrightarrow> overall e = 0 \<Longrightarrow> n < 2 ^ 31 \<Longrightarrow> overall (f e) \<le> n \<and> (overall (f e) = 0 \<longleftrightarrow> P)"
  unfolding reports_def by (drule spec [of _ e]) simp

definition accepted :: "nonuniform \<Rightarrow> bool" where
  "accepted nu \<longleftrightarrow>
     (in_range (m_testRange nu) BASIC \<longrightarrow>
       (\<forall>i < 8. region_ok (m_maxWorkItemSizes nu) (m_reference nu ! i) (m_results nu ! i))) \<and>
     (in_range (m_testRange nu) ATOMICS \<longrightarrow> m_globalAtomicTestValue nu = m_numOfGlobalWorkItems nu)"

lemma compare_regions_verdict:
  assumes "overall (m_err nu) = 0"
  shows "checkError (compare_regions nu) \<longleftrightarrow> \<not> accepted nu"
proof -
  define compare where "compare i = verifyData (m_maxWorkItemSizes nu) (m_testRange nu) (m_reference nu ! i) (m_results nu ! i) i" for i
  define missed where "missed \<longleftrightarrow> in_range (m_testRange nu) ATOMICS \<and> m_globalAtomicTestValue nu \<noteq> m_numOfGlobalWorkItems nu"
  define final where "final e = (if missed then show_error ERR_GLOBAL_ATOMIC '''' '''' (fold compare [0..<NUMBER_OF_REGIONS] e)
    else fold compare [0..<NUMBER_OF_REGIONS] e)" for e
  have regions: "reports (length [0..<NUMBER_OF_REGIONS] * 16)
      (\<forall>i\<in>set [0..<NUMBER_OF_REGIONS]. in_range (m_testRange nu) BASIC \<longrightarrow>
        region_ok (m_maxWorkItemSizes nu) (m_reference nu ! i) (m_results nu ! i)) (fold compare [0..<NUMBER_OF_REGIONS])"
    unfolding compare_def by (rule reports_fold) (rule verifyData_reports)
  have "accepted nu \<longleftrightarrow> (\<forall>i\<in>set [0..<NUMBER_OF_REGIONS]. in_range (m_testRange nu) BASIC \<longrightarrow>
        region_ok (m_maxWorkItemSizes nu) (m_reference nu ! i) (m_results nu ! i)) \<and> \<not> missed"
    by (auto simp: accepted_def missed_def NUMBER_OF_REGIONS_def)
  then have "reports 129 (accepted nu) final"
    using reports_comp [OF regions reports_if, of missed ERR_GLOBAL_ATOMIC "''''" "''''"]
    by (simp add: NUMBER_OF_REGIONS_def final_def [abs_def])
  from reports_from_0 [OF this assms]
  have "overall (final (m_err nu)) < 2 ^ 31" "overall (final (m_err nu)) = 0 \<longleftrightarrow> accepted nu" by simp_all
  moreover have "compare_regions nu = final (m_err nu)"
    unfolding compare_regions_def final_def compare_def missed_def Let_def by (rule refl)
  ultimately show ?thesis by (simp add: checkError_iff)
qed

text \<open>
  With the local size given, and no error so far, verification succeeds exactly if, as far as
  the test range asks for it, each of the eight corners reports the reference values, with local
  sizes the device supports, and the atomic counter has counted every work-item.
\<close>

theorem verifyResults_verdict:
  assumes "\<not> m_localSize_IsNull nu" "m_overall (m_err nu) = 0"
  shows "map_option fst (verifyResults dev strictMode maxLocal nu) = Some (if accepted nu then 0 else - 1)"
proof -
  have "checkError (compare_regions nu) \<longleftrightarrow> \<not> accepted nu"
    using assms(2) by (intro compare_regions_verdict) (simp add: overall_def)
  then show ?thesis using assms(1) by (simp add: verifyResults_def Let_def)
qed

section \<open>A conforming device\<close>

definition nd_of :: "ndrange \<Rightarrow> nat list \<Rightarrow> nd" where
  "nd_of r chosen = \<lparr> n_dims = r_dims r,
     n_offset = (case r_offset r of None \<Rightarrow> [0, 0, 0] | Some offset \<Rightarrow> offset),
     n_global = r_global r,
     n_enqueued = (case r_local r of None \<Rightarrow> chosen | Some l \<Rightarrow> l) \<rparr>"

text \<open>
  The device runs the kernel for every work-item in some order; where no local size is given it
  chooses one within its limits. The increments of the atomic counter are all counted.
\<close>

definition conforming :: "nat \<Rightarrow> nat list \<Rightarrow> (ndrange \<Rightarrow> execution) \<Rightarrow> bool" where
  "conforming R maxSizes execute \<longleftrightarrow>
     (\<forall>r. length (r_global r) = 3 \<and> (\<forall>d < 3. 1 \<le> r_global r ! d) \<longrightarrow>
       (\<exists>chosen items. length chosen = 3 \<and>
         (\<forall>d < 3. 1 \<le> chosen ! d \<and> chosen ! d \<le> r_global r ! d \<and> chosen ! d \<le> maxSizes ! d) \<and>
         set items = items_of (nd_of r chosen) \<and>
         execute r = \<lparr> x_results = kernel_results R (nd_of r chosen) items,
           x_atomic = (if in_range R ATOMICS then r_global r ! 0 * r_global r ! 1 * r_global r ! 2 mod 2 ^ 32 else 0),
           x_counters = replicate LAST_ELEM 0 \<rparr>))"

lemma expected_ok:
  assumes "nd_ok n ms" "in_range R BASIC" "set items = items_of n" "i < 8"
    and "m_globalSize nu = n_global n" "m_globalWorkOffset nu = n_offset n"
      "m_enqueuedLocalSize nu = n_enqueued n" "m_dims nu = n_dims n"
  shows "region_ok ms (expected nu i zero_attrib) (kernel_results R n items ! i)"
proof (cases "skipped (n_global n) i")
  case True
  then show ?thesis
    using kernel_results_regions [OF assms(1,3,4), of R] assms(5)
    by (simp add: expected_def region_ok_def three_dims zero_attrib_def)
next
  case False
  have groups: "num_groups_of n d = float_groups (n_global n ! d) (n_enqueued n ! d)" if "d < 3" for d
    unfolding num_groups_of_def using assms(1) that
    by (intro float_groups_exact [symmetric]) (auto simp: nd_ok_def intro: le_less_trans)
  have e: "n_enqueued n ! d \<le> ms ! d" "1 \<le> n_enqueued n ! d" if "d < 3" for d
    using assms(1) that by (auto simp: nd_ok_def)
  have "last_size (n_global n ! d) (n_enqueued n ! d) \<le> ms ! d" if "d < 3" for d
    using e [OF that] mod_less_divisor [of "n_enqueued n ! d" "n_global n ! d - 1"]
    unfolding last_size_def by linarith
  then show ?thesis
    using False kernel_results_regions [OF assms(1,3,4), of R] assms(2) e groups
    by (simp add: expected_def region_ok_def store_attrib_def Let_def assms(5-8)
      corner_local_size [OF assms(1)])
qed


text \<open>A subtest after \<open>prepareDevice\<close>.\<close>

definition ready :: "nat list \<Rightarrow> nonuniform \<Rightarrow> bool" where
  "ready ms nu \<longleftrightarrow> length (m_globalSize nu) = 3 \<and> (\<forall>d < 3. 1 \<le> m_globalSize nu ! d \<and> m_globalSize nu ! d < 2 ^ 24) \<and>
     length (m_globalWorkOffset nu) = 3 \<and> (m_globalWorkOffset_IsNull nu \<longrightarrow> m_globalWorkOffset nu = [0, 0, 0]) \<and>
     (\<not> m_localSize_IsNull nu \<longrightarrow> length (m_enqueuedLocalSize nu) = 3 \<and>
       (\<forall>d < 3. 1 \<le> m_enqueuedLocalSize nu ! d \<and> m_enqueuedLocalSize nu ! d \<le> m_globalSize nu ! d \<and>
         m_enqueuedLocalSize nu ! d \<le> ms ! d)) \<and>
     m_reference nu = (if m_localSize_IsNull nu then replicate NUMBER_OF_REGIONS zero_attrib
       else map (\<lambda>i. expected nu i zero_attrib) [0..<NUMBER_OF_REGIONS]) \<and>
     m_maxWorkItemSizes nu = ms \<and> m_err nu = ErrorClass \<and>
     m_numOfGlobalWorkItems nu = m_globalSize nu ! 0 * m_globalSize nu ! 1 * m_globalSize nu ! 2 \<and>
     m_numOfGlobalWorkItems nu < 2 ^ 32"

lemma sync_nothing: "synchronizeStatsMap (ErrorClass\<lparr> m_counter := replicate LAST_ELEM 0 \<rparr>) =
    ErrorClass\<lparr> m_counter := replicate LAST_ELEM 0 \<rparr>"
  by (simp add: synchronizeStatsMap_def Types_def LAST_ELEM_def seventeen)

lemma all_8: "i < 8 \<Longrightarrow> [0..<NUMBER_OF_REGIONS] ! i = i \<and> i < length [0..<NUMBER_OF_REGIONS]"
  by (simp add: NUMBER_OF_REGIONS_def)

lemma accepted_executed:
  assumes "nd_ok n ms" "set items = items_of n"
    and "m_globalSize nu = n_global n" "m_globalWorkOffset nu = n_offset n"
      "m_enqueuedLocalSize nu = n_enqueued n" "m_dims nu = n_dims n" "m_maxWorkItemSizes nu = ms"
      "m_reference nu = map (\<lambda>i. expected nu i zero_attrib) [0..<NUMBER_OF_REGIONS]"
      "m_results nu = kernel_results (m_testRange nu) n items"
      "in_range (m_testRange nu) ATOMICS \<longrightarrow> m_globalAtomicTestValue nu = m_numOfGlobalWorkItems nu"
  shows "accepted nu"
  unfolding accepted_def
  using expected_ok [OF assms(1) _ assms(2) _ assms(3-6), of "m_testRange nu"] assms(7-10) all_8 by simp

lemma ready_passes:
  assumes "ready ms nu" "conforming (m_testRange nu) ms execute"
    and api: "\<forall>c. run_code api c = 0" "\<forall>n. local_arg api n = 0" "\<forall>n. create_global api n = 0"
  shows "\<exists>nu'. runKernel dev maxLocal api execute nu = (0, nu') \<and>
    map_option fst (verifyResults dev False maxLocal nu') = Some 0"
proof -
  note r = assms(1) [unfolded ready_def]
  let ?R = "m_testRange nu" and ?r = "ndrange_of nu" and ?g = "m_globalSize nu"
  have rg: "r_global ?r = ?g" by (simp add: ndrange_of_def)
  have "length (r_global ?r) = 3 \<and> (\<forall>d < 3. 1 \<le> r_global ?r ! d)" using r unfolding rg by blast
  note runs = assms(2) [unfolded conforming_def, THEN spec, THEN mp, OF this, unfolded rg]
  obtain chosen items where chosen: "length chosen = 3"
      "\<forall>d < 3. 1 \<le> chosen ! d \<and> chosen ! d \<le> ?g ! d \<and> chosen ! d \<le> ms ! d"
    and items: "set items = items_of (nd_of ?r chosen)"
    and execute: "execute ?r = \<lparr> x_results = kernel_results ?R (nd_of ?r chosen) items,
        x_atomic = (if in_range ?R ATOMICS then ?g ! 0 * ?g ! 1 * ?g ! 2 mod 2 ^ 32 else 0),
        x_counters = replicate LAST_ELEM 0 \<rparr>"
    using runs by blast
  define n where "n = nd_of ?r chosen"
  have n: "n_global n = ?g" "n_offset n = m_globalWorkOffset nu" "n_dims n = m_dims nu"
    "n_enqueued n = (if m_localSize_IsNull nu then chosen else m_enqueuedLocalSize nu)"
    using r by (auto simp: n_def nd_of_def ndrange_of_def)
  have ok: "nd_ok n ms" unfolding nd_ok_def using r chosen by (auto simp: n)
  define nu' where "nu' = nu\<lparr> m_globalAtomicTestValue := (if in_range ?R ATOMICS then m_numOfGlobalWorkItems nu else 0),
    m_results := kernel_results ?R n items, m_err := ErrorClass\<lparr> m_counter := replicate LAST_ELEM 0 \<rparr> \<rparr>"
  have clean: "m_err nu = ErrorClass" "\<not> checkError ErrorClass"
    using r by (simp_all add: checkError_iff overall_def ErrorClass_def)
  have same: "ndrange_of (nu\<lparr> m_globalAtomicTestValue := 0 \<rparr>) = ndrange_of nu" by (simp add: ndrange_of_def)
  have codes: "first_error (0 # cs) = first_error cs" "first_error [] = 0" for cs
    by (simp_all add: first_error_def)
  have count: "?g ! 0 * ?g ! 1 * ?g ! 2 mod 2 ^ 32 = m_numOfGlobalWorkItems nu" using r by simp
  have run: "runKernel dev maxLocal api execute nu = (0, nu')"
    unfolding runKernel_def Let_def api [rule_format] codes
    by (simp add: same execute clean sync_nothing nu'_def n_def count [symmetric] del: power_numeral) 
  have none: "overall (m_err nu') = 0" by (simp add: nu'_def overall_def ErrorClass_def)
  have "map_option fst (verifyResults dev False maxLocal nu') = Some 0"
  proof (cases "m_localSize_IsNull nu")
    case False
    have "accepted nu'"
      using r False by (intro accepted_executed [OF ok items [folded n_def]]) (simp_all add: n nu'_def expected_def)
    then show ?thesis
      using compare_regions_verdict [OF none] False by (simp add: verifyResults_def nu'_def [symmetric]) (simp add: nu'_def)
  next
    case True
    then have enq: "n_enqueued n = chosen" by (simp add: n)
    define nu2 where "nu2 = nu'\<lparr> m_enqueuedLocalSize := chosen \<rparr>"
    define nu3 where "nu3 = nu2\<lparr> m_reference := map (\<lambda>i. expected nu2 i zero_attrib) [0..<NUMBER_OF_REGIONS] \<rparr>"
    have "\<not> skipped (n_global n) 0" by (simp add: skipped_def)
    then have "get_local_size (m_results nu' ! 0) ! d = chosen ! d" if "d < 3" for d
      using kernel_results_regions [OF ok items [folded n_def], of 0 ?R] corner_local_size [OF ok that, of 0] that
      by (simp add: nu'_def store_attrib_def Let_def enq)
    then have "each_dim (\<lambda>i. get_local_size (m_results nu' ! 0) ! i) = chosen"
      using chosen(1) by (intro nth_equalityI) simp_all
    moreover have "0 \<notin> set chosen" using chosen by (auto simp: in_set_conv_nth)
    moreover have "map (\<lambda>i. expected nu2 i (m_reference nu2 ! i)) [0..<NUMBER_OF_REGIONS] = m_reference nu3"
      using r True by (simp add: nu3_def nu2_def nu'_def NUMBER_OF_REGIONS_def cong: map_cong)
    moreover have "m_enqueuedLocalSize nu2 = chosen" by (simp add: nu2_def)
    ultimately have "calculateExpectedValues (nu'\<lparr> m_enqueuedLocalSize := each_dim (\<lambda>i. get_local_size (m_results nu' ! 0) ! i) \<rparr>)
        = Some nu3"
      by (simp add: calculateExpectedValues_def nu2_def [symmetric] nu3_def)
    moreover have "check_strict False w nu3 = nu3" for w
      by (simp add: check_strict_def report_def Let_def)
    moreover have "m_localSize_IsNull nu'" using True by (simp add: nu'_def)
    moreover have "accepted nu3"
      using r by (intro accepted_executed [OF ok items [folded n_def]])
        (simp_all add: n(1-3) enq nu3_def nu2_def nu'_def expected_def)
    moreover have "overall (m_err nu3) = 0" using none by (simp add: nu3_def nu2_def)
    ultimately show ?thesis using compare_regions_verdict [of nu3] by (simp add: verifyResults_def)
  qed
  then show ?thesis using run by blast
qed


section \<open>From the constructor to the verdict\<close>

definition size_bound :: "nat \<Rightarrow> nat list \<Rightarrow> nat list option \<Rightarrow> nat \<Rightarrow> nat" where
  "size_bound dims g localSize i =
     (if i < dims then g ! i + (case localSize of None \<Rightarrow> 0 | Some l \<Rightarrow> l ! i) else 1)"

lemma round_up_bounds: "0 < l \<Longrightarrow> g + l < 2 ^ 64 \<Longrightarrow> g \<le> round_up g l \<and> round_up g l \<le> g + l"
proof -
  assume *: "0 < l" "g + l < 2 ^ 64"
  have "g mod l < l" using *(1) by simp
  then have "g + (l - g mod l) < 2 ^ 64" "g \<le> g + (l - g mod l)" "g + (l - g mod l) \<le> g + l" using *(2) by linarith+
  then show ?thesis by (simp add: round_up_def)
qed

lemma constructed:
  assumes "1 \<le> dims" "dims \<le> 3" "length g = dims"
    and "\<forall>i < dims. 1 \<le> g ! i \<and> size_bound dims g localSize i < 2 ^ 24"
    and "\<forall>l. localSize = Some l \<longrightarrow> (\<forall>i < dims. 1 \<le> l ! i)"
    and "fst (nonuniform_support dev) = 0"
  obtains g' arr where "TestNonUniformWorkGroup dev dims (Some g) localSize offset reqd u =
      Some (set_members dims g' localSize offset reqd (u\<lparr> m_dims := dims, m_err := ErrorClass \<rparr>), arr)"
    "\<forall>i < dims. 1 \<le> g' ! i \<and> g' ! i \<le> size_bound dims g localSize i"
proof (cases "localSize = None \<or> \<not> cl_version_3 dev \<or> snd (nonuniform_support dev)")
  case True
  have "\<forall>i < dims. 1 \<le> g ! i \<and> g ! i \<le> size_bound dims g localSize i"
    using assms(4) by (auto simp: size_bound_def split: option.splits)
  then show ?thesis
    using that [of g "Some g"] True assms(1,2,6)
    by (cases localSize) (auto simp: TestNonUniformWorkGroup_def Let_def)
next
  case False
  then obtain l where l: "localSize = Some l" by auto
  let ?g = "map (\<lambda>i. if i < dims then round_up (g ! i) (l ! i) else g ! i) [0..<length g]"
  have "1 \<le> ?g ! i \<and> ?g ! i \<le> size_bound dims g localSize i" if i: "i < dims" for i
  proof -
    have "1 \<le> l ! i" "1 \<le> g ! i" "g ! i + l ! i < 2 ^ 24"
      using assms(4,5) i l by (auto simp: size_bound_def)
    then show ?thesis using round_up_bounds [of "l ! i" "g ! i"] i assms(3) l by (simp add: size_bound_def)
  qed
  moreover have "\<not> (\<exists>i\<in>set [0..<dims]. l ! i = 0)" using assms(5) l by fastforce
  ultimately show ?thesis
    using that [of ?g "Some ?g"] False assms(1,2,6) l
    by (auto simp: TestNonUniformWorkGroup_def Let_def)
qed

lemma prepared:
  assumes "1 \<le> dims" "dims \<le> 3"
    and bounds: "\<forall>i < dims. 1 \<le> g ! i \<and> g ! i < 2 ^ 24"
    and l: "\<forall>l. localSize = Some l \<longrightarrow> (\<forall>i < dims. 1 \<le> l ! i)"
    and product: "\<And>x. x = (\<lambda>i. if i < dims then g ! i else 1) \<Longrightarrow> x 0 * x 1 * x 2 < 2 ^ 32"
    and dev: "max_dimensions_error dev = 0" "max_work_item_sizes dev = (0, ms)" "\<forall>d < 3. 1 \<le> ms ! d"
      "\<forall>s. build dev s = 0"
    and nu0: "nu0 = (set_members dims g localSize offset reqd (u\<lparr> m_dims := dims, m_err := ErrorClass \<rparr>))\<lparr> m_testRange := R \<rparr>"
  shows "\<exists>nu. prepareDevice dev nu0 = Some (0, nu) \<and> ready ms nu \<and> m_testRange nu = R"
proof -
  define G where "G = each_dim (\<lambda>i. if i < dims then g ! i else 1)"
  define E where "E = each_dim (\<lambda>i. case localSize of None \<Rightarrow> 1
    | Some l \<Rightarrow> if i < dims then min (min (g ! i) (l ! i)) (ms ! i) else 1)"
  have nu0_fields: "m_globalSize nu0 = G" "m_localSize_IsNull nu0 = (localSize = None)" "m_dims nu0 = dims"
    "m_testRange nu0 = R" "m_err nu0 = ErrorClass" "m_globalWorkOffset_IsNull nu0 = (offset = None)"
    "m_reference nu0 = replicate NUMBER_OF_REGIONS zero_attrib"
    "m_numOfGlobalWorkItems nu0 = G ! 0 * G ! 1 * G ! 2 mod 2 ^ 64"
    "length (m_globalWorkOffset nu0) = 3" "offset = None \<longrightarrow> m_globalWorkOffset nu0 = [0, 0, 0]"
    by (simp_all add: nu0 set_members_def setGlobalWorkgroupSize_def setLocalWorkgroupSize_def Let_def
      each_dim_eq G_def split: option.splits)
  have enq0: "m_enqueuedLocalSize nu0 = each_dim (\<lambda>i. case localSize of None \<Rightarrow> 1
      | Some l \<Rightarrow> if i < dims then min (g ! i) (l ! i) else 1)"
    by (simp add: nu0 set_members_def setGlobalWorkgroupSize_def setLocalWorkgroupSize_def Let_def
      each_dim_eq min_def split: option.splits)
  define nu where "nu = trim_sizes ms nu0"
  have E: "m_enqueuedLocalSize nu = E" if "localSize \<noteq> None"
    using that by (auto simp: nu_def trim_sizes_def enq0 E_def each_dim_eq nu0_fields min_def split: option.splits)
  have nu_fields: "m_globalSize nu = G" "m_localSize_IsNull nu = (localSize = None)" "m_dims nu = dims"
    "m_testRange nu = R" "m_err nu = ErrorClass" "m_globalWorkOffset_IsNull nu = (offset = None)"
    "m_reference nu = replicate NUMBER_OF_REGIONS zero_attrib" "m_maxWorkItemSizes nu = ms"
    "m_numOfGlobalWorkItems nu = G ! 0 * G ! 1 * G ! 2 mod 2 ^ 64"
    "length (m_globalWorkOffset nu) = 3" "offset = None \<longrightarrow> m_globalWorkOffset nu = [0, 0, 0]"
    by (simp_all add: nu_def trim_sizes_def nu0_fields)
  have G: "\<forall>d < 3. 1 \<le> G ! d \<and> G ! d < 2 ^ 24" using bounds by (simp add: G_def)
  have "G ! 0 = (if 0 < dims then g ! 0 else 1)" "G ! 1 = (if 1 < dims then g ! 1 else 1)"
    "G ! 2 = (if 2 < dims then g ! 2 else 1)" by (simp_all add: G_def)
  then have "G ! 0 * G ! 1 * G ! 2 < 2 ^ 32" using product [OF refl] by (simp only:)
  then have items: "m_numOfGlobalWorkItems nu = G ! 0 * G ! 1 * G ! 2" "m_numOfGlobalWorkItems nu < 2 ^ 32"
    by (simp_all add: nu_fields)
  have Eb: "length E = 3" "\<forall>d < 3. 1 \<le> E ! d \<and> E ! d \<le> G ! d \<and> E ! d \<le> ms ! d" if "localSize \<noteq> None"
    using that bounds l dev(3) by (auto simp: E_def G_def)
  have lG: "length G = 3" by (simp add: G_def)
  have first: "G ! 0 \<noteq> 0" using G by fastforce
  have start: "prepareDevice dev nu0 = do {
      nu \<leftarrow> (if localSize = None then Some nu else calculateExpectedValues nu); Some (0, nu) }"
    using first dev by (simp add: prepareDevice_def nu0_fields nu_def [symmetric] nu_fields)
  show ?thesis
  proof (cases "localSize = None")
    case True
    then have "ready ms nu" using G items by (simp add: ready_def nu_fields lG)
    then show ?thesis using start True nu_fields(4) by simp
  next
    case False
    define nu1 where "nu1 = nu\<lparr> m_reference := map (\<lambda>i. expected nu i zero_attrib) [0..<NUMBER_OF_REGIONS] \<rparr>"
    obtain l where some: "localSize = Some l" using False by auto
    have "0 \<notin> set E" using Eb [OF False] by (auto simp: in_set_conv_nth)
    then have "calculateExpectedValues nu = Some nu1"
      using False by (simp add: calculateExpectedValues_def E nu_fields nu1_def cong: map_cong)
    moreover have "ready ms nu1"
      using G items Eb [OF False] some
      by (simp add: ready_def nu1_def nu_fields E expected_def lG)
    ultimately show ?thesis using start False nu_fields(4) by (simp add: nu1_def)
  qed
qed



definition sample_subtest :: nonuniform where
  "sample_subtest = \<lparr> m_globalSize = [5, 1, 1], m_localSize = [2, 1, 1], m_globalWorkOffset = [0, 0, 0],
    m_globalWorkOffset_IsNull = True, m_enqueuedLocalSize = [2, 1, 1], m_localSize_IsNull = False,
    m_reqdWorkGroupSize = [0, 0, 0], m_maxWorkItemSizes = [64, 64, 64], m_numOfGlobalWorkItems = 5,
    m_dims = 1, m_testRange = ATOMICS, m_results = [], m_reference = [], m_globalAtomicTestValue = 4,
    m_err = ErrorClass \<rparr>"

definition all_items :: "nd \<Rightarrow> nat list list" where
  "all_items n = [[a, b, c]. a \<leftarrow> [0..<n_global n ! 0], b \<leftarrow> [0..<n_global n ! 1], c \<leftarrow> [0..<n_global n ! 2]]"

lemma set_all_items: "set (all_items n) = items_of n"
proof (intro equalityI subsetI)
  fix item assume "item \<in> items_of n"
  moreover then obtain a b c where "item = [a, b, c]" using length_3 [of item] unfolding items_of_def by blast
  ultimately show "item \<in> set (all_items n)"
    by (fastforce simp: items_of_def all_items_def three_dims image_iff)
qed (auto simp: items_of_def all_items_def three_dims)

definition one_item_groups :: "nat \<Rightarrow> ndrange \<Rightarrow> execution" where
  "one_item_groups R r = \<lparr> x_results = kernel_results R (nd_of r [1, 1, 1]) (all_items (nd_of r [1, 1, 1])),
     x_atomic = (if in_range R ATOMICS then r_global r ! 0 * r_global r ! 1 * r_global r ! 2 mod 2 ^ 32 else 0),
     x_counters = replicate LAST_ELEM 0 \<rparr>"

lemma one_item_groups_conform: "conforming R [64, 64, 64] (one_item_groups R)"
  unfolding conforming_def
proof (intro allI impI, elim conjE)
  fix r :: ndrange assume "length (r_global r) = 3" "\<forall>d < 3. 1 \<le> r_global r ! d"
  then show "\<exists>chosen items. length chosen = 3 \<and>
      (\<forall>d < 3. 1 \<le> chosen ! d \<and> chosen ! d \<le> r_global r ! d \<and> chosen ! d \<le> [64, 64, 64] ! d) \<and>
      set items = items_of (nd_of r chosen) \<and>
      one_item_groups R r = \<lparr> x_results = kernel_results R (nd_of r chosen) items,
        x_atomic = (if in_range R ATOMICS then r_global r ! 0 * r_global r ! 1 * r_global r ! 2 mod 2 ^ 32 else 0),
        x_counters = replicate LAST_ELEM 0 \<rparr>"
    by (intro exI [of _ "[1, 1, 1]"] exI [of _ "all_items (nd_of r [1, 1, 1])"])
      (simp add: three_dims set_all_items one_item_groups_def)
qed

definition sample_device :: device where
  "sample_device = \<lparr> cl_version_3 = True, nonuniform_support = (0, True), max_dimensions_error = 0,
     max_work_item_sizes = (0, [64, 64, 64]), build = \<lambda>_. 0, max_work_group_size = (0, 64) \<rparr>"


theorem verifyResults_verdict_witness:
  "map_option fst (verifyResults sample_device False 64 sample_subtest) = Some (- 1)"
  using verifyResults_verdict [of sample_subtest sample_device False 64]
  by (simp add: sample_subtest_def ErrorClass_def accepted_def ATOMICS_def BASIC_def)


section \<open>Roundings and adjustments that do more than they say\<close>

lemma round_up_multiple: "0 < l \<Longrightarrow> l dvd g \<Longrightarrow> g + l < 2 ^ 64 \<Longrightarrow> round_up g l = g + l"
  by (simp add: round_up_def)

text \<open>
  A buffer that has been shrunk to the largest allocation no longer holds a word per work-item,
  although the kernel writes one for each.
\<close>

lemma shrunk_buffer_overrun:
  assumes "alloc < n * 4"
  shows "adjustGlobalBufferSize (0, alloc) (n * 4) = alloc \<and>
    adjustGlobalBufferSize (0, alloc) (n * 4) < (n - 1) * 4 + 4"
  using assms by (cases n) (simp_all add: adjustGlobalBufferSize_def)

end
