(* ===== verification/Conversions.thy ===== *)
theory Conversions
  imports Prelude
begin

text \<open>
  Explicit types and conversions, \<^verbatim>\<open>test_common/harness/conversions.cpp\<close>: the table of
  types, \<open>convert_explicit_value\<close> to integer types and \<^verbatim>\<open>bool\<close>, the readers that
  widen to 64 bits, and the classification of subnormals of \<^verbatim>\<open>conversions.h\<close>. A value
  of an integer type is the integer it stands for; a finite value of a floating-point type is the
  rational it stands for. Conversions to floating-point types, which are the compiler's casts, are
  left out.
\<close>

unbundle bit_operations_syntax

section \<open>Types\<close>

datatype ExplicitType =
    kBool | kChar | kUChar | kUnsignedChar | kShort | kUShort | kUnsignedShort | kInt | kUInt
  | kUnsignedInt | kLong | kULong | kUnsignedLong | kFloat | kHalf | kDouble

definition ExplicitTypes :: "ExplicitType list" where
  "ExplicitTypes = [kBool, kChar, kUChar, kUnsignedChar, kShort, kUShort, kUnsignedShort, kInt, kUInt,
     kUnsignedInt, kLong, kULong, kUnsignedLong, kFloat, kHalf, kDouble]"

text \<open>The tables are in the order of the enumeration; entries that are not given are 0.\<close>

definition table_at :: "'a list \<Rightarrow> 'a \<Rightarrow> ExplicitType \<Rightarrow> 'a" where
  "table_at entries missing t =
     (case map_of (zip ExplicitTypes entries) t of None \<Rightarrow> missing | Some x \<Rightarrow> x)"

definition get_explicit_type_size :: "ExplicitType \<Rightarrow> nat" where
  "get_explicit_type_size = table_at [4, 1, 1, 1, 2, 2, 2, 4, 4, 4, 8, 8, 8, 4, 2, 8] 0"

definition get_explicit_type_name :: "ExplicitType \<Rightarrow> string" where
  "get_explicit_type_name = table_at
     [''bool'', ''char'', ''uchar'', ''unsigned char'', ''short'', ''ushort'', ''unsigned short'',
      ''int'', ''uint'', ''unsigned int'', ''long'', ''ulong'', ''unsigned long'', ''float'', ''half'',
      ''double''] ''''"

definition sUpperLimits :: "ExplicitType \<Rightarrow> int" where
  "sUpperLimits = table_at [0, 127, 255, 255, 32767, 65535, 65535, 0x7fffffff, 0xffffffff, 0xffffffff,
     0x7fffffffffffffff, 0xffffffffffffffff, 0xffffffffffffffff, 0, 0] 0"

definition sLowerLimits :: "ExplicitType \<Rightarrow> int" where
  "sLowerLimits = table_at [- 1, - 128, 0, 0, - 32768, 0, 0, - 0x80000000, 0, 0, - 0x8000000000000000,
     0, 0, 0, 0] 0"

text \<open>The C types behind the enumerators: their width, and casts to them.\<close>

definition width :: "ExplicitType \<Rightarrow> nat" where "width t = 8 * get_explicit_type_size t"

definition signed_type :: "ExplicitType \<Rightarrow> bool" where
  "signed_type t \<longleftrightarrow> t \<in> {kChar, kShort, kInt, kLong}"

definition cast :: "ExplicitType \<Rightarrow> int \<Rightarrow> int" where
  "cast t v = (if signed_type t then (v + 2 ^ (width t - 1)) mod 2 ^ width t - 2 ^ (width t - 1)
     else v mod 2 ^ width t)"

definition to_ULong :: "int \<Rightarrow> int" where "to_ULong v = v mod 2 ^ 64"

definition to_Long :: "int \<Rightarrow> int" where "to_Long v = (v + 2 ^ 63) mod 2 ^ 64 - 2 ^ 63"

section \<open>Integers to integers\<close>

text \<open>\<^verbatim>\<open>DOWN_CAST_CASE\<close> and \<^verbatim>\<open>U_DOWN_CAST_CASE\<close>.\<close>

definition low_bits :: "ExplicitType \<Rightarrow> int \<Rightarrow> int" where
  "low_bits t v = to_ULong v AND drop_bit (64 - width t) 0xffffffffffffffff"

definition down_cast :: "ExplicitType \<Rightarrow> bool \<Rightarrow> int \<Rightarrow> int" where
  "down_cast t sat v =
     (if sat then
        if (sLowerLimits t < 0 \<and> v > to_Long (sUpperLimits t)) \<or>
           (sLowerLimits t = 0 \<and> to_ULong v > sUpperLimits t)
        then cast t (sUpperLimits t)
        else if v < sLowerLimits t then cast t (sLowerLimits t)
        else cast t v
      else cast t (low_bits t v))"

definition u_down_cast :: "ExplicitType \<Rightarrow> bool \<Rightarrow> int \<Rightarrow> int" where
  "u_down_cast t sat v =
     (if sat then if to_ULong v > sUpperLimits t then cast t (sUpperLimits t) else cast t v
      else cast t (low_bits t v))"

text \<open>Which case of the inner \<^verbatim>\<open>switch\<close> is which: copies, and saturating casts; the rest are plain casts.\<close>

fun copied :: "ExplicitType \<Rightarrow> ExplicitType list" where
  "copied kUChar = [kUChar, kUnsignedChar]"
| "copied kUnsignedChar = [kUChar, kUnsignedChar]"
| "copied kUShort = [kUShort, kUnsignedShort]"
| "copied kUnsignedShort = [kUShort, kUnsignedShort]"
| "copied kUInt = [kUInt, kUnsignedInt]"
| "copied kUnsignedInt = [kUInt, kUnsignedInt]"
| "copied kULong = [kUnsignedLong, kULong]"
| "copied kUnsignedLong = [kULong, kUnsignedLong]"
| "copied t = [t]"

fun down_types :: "ExplicitType \<Rightarrow> ExplicitType list" where
  "down_types kChar = [kUChar]"
| "down_types kUChar = [kChar]"
| "down_types kUnsignedChar = [kChar]"
| "down_types kShort = [kChar, kUChar, kUnsignedChar, kUShort, kUnsignedShort]"
| "down_types kUShort = [kChar, kUChar, kUnsignedChar, kShort]"
| "down_types kUnsignedShort = [kChar, kUChar, kUnsignedChar, kShort]"
| "down_types kInt = [kChar, kUChar, kUnsignedChar, kShort, kUShort, kUnsignedShort, kUInt, kUnsignedInt]"
| "down_types kUInt = [kChar, kUChar, kUnsignedChar, kShort, kUShort, kUnsignedShort, kInt]"
| "down_types kUnsignedInt = [kChar, kUChar, kUnsignedChar, kShort, kUShort, kUnsignedShort, kInt]"
| "down_types kLong = [kChar, kUChar, kUnsignedChar, kShort, kUShort, kUnsignedShort, kInt, kUInt,
     kUnsignedInt, kULong, kUnsignedLong]"
| "down_types kULong = [kChar, kUChar, kUnsignedChar, kShort, kUShort, kUnsignedShort, kInt, kUInt,
     kUnsignedInt, kLong]"
| "down_types kUnsignedLong = [kChar, kUChar, kUnsignedChar, kShort, kUShort, kUnsignedShort, kInt, kUInt,
     kUnsignedInt, kLong]"
| "down_types t = []"

definition integer_types :: "ExplicitType list" where
  "integer_types = [kChar, kUChar, kUnsignedChar, kShort, kUShort, kUnsignedShort, kInt, kUInt,
     kUnsignedInt, kLong, kULong, kUnsignedLong]"

text \<open>From \<^verbatim>\<open>bool\<close>, \<^verbatim>\<open>memset\<close> sets all bits of the result.\<close>

definition convert_integer :: "ExplicitType \<Rightarrow> bool \<Rightarrow> ExplicitType \<Rightarrow> int \<Rightarrow> int" where
  "convert_integer inType sat outType v =
     (if inType = kBool then
        if outType = kBool then v else cast outType (if v \<noteq> 0 then - 1 else 0)
      else if outType = kBool then if v \<noteq> 0 then 1 else 0
      else if outType \<in> set (copied inType) then v
      else if outType \<in> set (down_types inType) then
        if inType = kULong \<or> inType = kUnsignedLong then u_down_cast outType sat v
        else down_cast outType sat v
      else cast outType v)"

section \<open>Floating point to integers\<close>

datatype RoundingType = kRoundToEven | kRoundToZero | kRoundToPosInf | kRoundToNegInf | kRoundToNearest

text \<open>
  Sums of size \<open>2 ^ p\<close> to \<open>2 ^ (p + 1)\<close>, where a format with \<open>p + 1\<close> bits has the
  integers, are rounded to the nearest of these, ties to the even one.
\<close>

definition nearest_even :: "rat \<Rightarrow> int" where
  "nearest_even x = (let n = floor x; r = x - of_int n
     in if 2 * r > 1 \<or> (2 * r = 1 \<and> odd n) then n + 1 else n)"

definition truncated :: "rat \<Rightarrow> int" where
  "truncated x = (if x < 0 then - floor (- x) else floor x)"

text \<open>\<open>lrintf_clamped\<close> (\<open>p = 23\<close>) and \<open>lrint_clamped\<close> (\<open>p = 52\<close>), with 64-bit \<^verbatim>\<open>long\<close>.\<close>

definition lrint_clamped :: "nat \<Rightarrow> rat \<Rightarrow> int" where
  "lrint_clamped p f =
     (if f \<ge> 2 ^ 63 then 2 ^ 63 - 1
      else if f \<le> - (2 ^ 63) then - (2 ^ 63)
      else if \<bar>f\<bar> < 2 ^ p
      then let magicVal = (if f < 0 then - (2 ^ p) else 2 ^ p)
        in truncated (of_int (nearest_even (f + of_int magicVal)) - of_int magicVal)
      else truncated f)"

text \<open>
  \<^verbatim>\<open>FLOAT_ROUND_CASE\<close> and \<^verbatim>\<open>DOUBLE_ROUND_CASE\<close> up to the saturation, which is that of
  \<open>down_cast\<close>. The remainder is exact, and ten times it is 0 only if it is. The cast to
  \<^verbatim>\<open>Long\<close> is undefined outside its range: \<open>None\<close>.
\<close>

definition whole_value :: "nat \<Rightarrow> RoundingType \<Rightarrow> rat \<Rightarrow> int" where
  "whole_value p rounding x =
     (let wholeValue = truncated x; largeRemainder = (x - of_int wholeValue) * 10
      in case rounding of
        kRoundToEven \<Rightarrow> if odd wholeValue then wholeValue + 1 else wholeValue
      | kRoundToZero \<Rightarrow> wholeValue
      | kRoundToPosInf \<Rightarrow> if largeRemainder \<noteq> 0 \<and> wholeValue \<ge> 0 then wholeValue + 1 else wholeValue
      | kRoundToNegInf \<Rightarrow> if largeRemainder \<noteq> 0 \<and> wholeValue < 0 then wholeValue - 1 else wholeValue
      | kRoundToNearest \<Rightarrow> lrint_clamped p x)"

definition round_case :: "nat \<Rightarrow> RoundingType \<Rightarrow> bool \<Rightarrow> ExplicitType \<Rightarrow> rat \<Rightarrow> int option" where
  "round_case p rounding sat outType x =
     (if \<bar>x\<bar> < 2 ^ 63 then Some (down_cast outType sat (to_Long (whole_value p rounding x))) else None)"

text \<open>\<^verbatim>\<open>HALF_ROUND_CASE\<close> stores the value as a \<^verbatim>\<open>float\<close> only after a cast to \<^verbatim>\<open>Long\<close>.\<close>

definition half_round_case :: "RoundingType \<Rightarrow> bool \<Rightarrow> ExplicitType \<Rightarrow> rat \<Rightarrow> int option" where
  "half_round_case rounding sat outType x = round_case 23 rounding sat outType (of_int (truncated x))"

text \<open>The values a variable of the input type can have.\<close>

datatype explicit_value = Integer int | Floating rat

definition convert_explicit_value ::
    "ExplicitType \<Rightarrow> bool \<Rightarrow> RoundingType \<Rightarrow> ExplicitType \<Rightarrow> explicit_value \<Rightarrow> int option" where
  "convert_explicit_value inType sat roundType outType v =
     (case v of
        Integer n \<Rightarrow> Some (convert_integer inType sat outType n)
      | Floating x \<Rightarrow>
          if outType = kBool then Some (if x \<noteq> 0 then 1 else 0)
          else if inType = kHalf then half_round_case roundType sat outType x
          else round_case (if inType = kFloat then 23 else 52) roundType sat outType x)"

section \<open>Widening\<close>

definition read_upscale_signed :: "ExplicitType \<Rightarrow> int \<Rightarrow> int" where
  "read_upscale_signed inType v = (if inType \<in> set integer_types then to_Long v else 0)"

definition read_upscale_unsigned :: "ExplicitType \<Rightarrow> int \<Rightarrow> int" where
  "read_upscale_unsigned inType v = (if inType \<in> set integer_types then to_ULong v else 0)"

text \<open>\<open>read_as_float\<close> before the cast to \<^verbatim>\<open>float\<close>: the value that is cast.\<close>

definition read_for_float :: "ExplicitType \<Rightarrow> int \<Rightarrow> int" where
  "read_for_float inType v =
     (if inType = kUChar \<or> inType = kUnsignedChar then cast kChar v
      else if inType \<in> set integer_types then v else 0)"

section \<open>Subnormals\<close>

definition IsFloatSubnormal :: "u32 \<Rightarrow> bool" where
  "IsFloatSubnormal x \<longleftrightarrow> (x AND 0x7fffffff) - 1 < 0x007fffff"

definition IsDoubleSubnormal :: "u64 \<Rightarrow> bool" where
  "IsDoubleSubnormal x \<longleftrightarrow> (x AND 0x7fffffffffffffff) - 1 < 0x000fffffffffffff"

definition IsHalfSubnormal :: "u16 \<Rightarrow> bool" where
  "IsHalfSubnormal x \<longleftrightarrow> ((ucast x :: u32) AND 0x7fff) - 1 < 0x03ff"

section \<open>Conversions between integers are exact, or saturate\<close>

definition type_min :: "ExplicitType \<Rightarrow> int" where
  "type_min t = (if signed_type t then - (2 ^ (width t - 1)) else 0)"

definition type_max :: "ExplicitType \<Rightarrow> int" where
  "type_max t = (if signed_type t then 2 ^ (width t - 1) - 1 else 2 ^ width t - 1)"

definition value_of_type :: "ExplicitType \<Rightarrow> int \<Rightarrow> bool" where
  "value_of_type t v \<longleftrightarrow> type_min t \<le> v \<and> v \<le> type_max t"

lemma table_values [simp]:
  "width kChar = 8" "width kUChar = 8" "width kUnsignedChar = 8" "width kShort = 16" "width kUShort = 16"
  "width kUnsignedShort = 16" "width kInt = 32" "width kUInt = 32" "width kUnsignedInt = 32"
  "width kLong = 64" "width kULong = 64" "width kUnsignedLong = 64"
  by (simp_all add: width_def get_explicit_type_size_def table_at_def ExplicitTypes_def)

lemma limits:
  assumes "t \<in> set integer_types"
  shows "sUpperLimits t = type_max t" "sLowerLimits t = type_min t" "0 < width t" "width t \<le> 64"
    "signed_type t \<longleftrightarrow> type_min t < 0"
  using assms unfolding integer_types_def set_simps
  by (elim insertE emptyE; simp add: sUpperLimits_def sLowerLimits_def table_at_def ExplicitTypes_def
    type_max_def type_min_def signed_type_def)+


lemma width_cases: "t \<in> set integer_types \<Longrightarrow> width t = 8 \<or> width t = 16 \<or> width t = 32 \<or> width t = 64"
  unfolding integer_types_def set_simps by (elim insertE emptyE; simp)

lemma low_bits_mod:
  assumes "t \<in> set integer_types"
  shows "low_bits t v = v mod 2 ^ width t"
proof -
  have "drop_bit (64 - width t) (0xffffffffffffffff :: int) = mask (width t)"
    using width_cases [OF assms] by (elim disjE; simp add: mask_eq_exp_minus_1 drop_bit_eq_div)
  then have "low_bits t v = v mod 2 ^ 64 mod 2 ^ width t"
    by (simp add: low_bits_def to_ULong_def flip: take_bit_eq_mask take_bit_eq_mod)
  also have "\<dots> = v mod 2 ^ width t"
    using limits(4) [OF assms] by (intro mod_mod_cancel le_imp_power_dvd)
  finally show ?thesis .
qed

lemma cast_mod: "cast t (v mod 2 ^ width t) = cast t v" by (simp add: cast_def mod_simps)

lemma cast_id:
  assumes "t \<in> set integer_types" "value_of_type t v"
  shows "cast t v = v"
proof -
  have w: "(2 :: int) ^ width t = 2 * 2 ^ (width t - 1)"
    using limits(3) [OF assms(1)] by (simp flip: power_Suc)
  show ?thesis
    using assms(2) w
    by (auto simp: cast_def value_of_type_def type_min_def type_max_def mod_pos_pos_trivial split: if_splits)
qed

lemma cast_in_type: "t \<in> set integer_types \<Longrightarrow> value_of_type t (cast t v)"
proof -
  assume t: "t \<in> set integer_types"
  have w: "(2 :: int) ^ width t = 2 * 2 ^ (width t - 1)"
    using limits(3) [OF t] by (simp flip: power_Suc)
  have "0 \<le> x mod 2 ^ width t" "x mod 2 ^ width t < 2 ^ width t" for x :: int by simp_all
  from this [of v] this [of "v + 2 ^ (width t - 1)"] show ?thesis
    using w by (auto simp: cast_def value_of_type_def type_min_def type_max_def)
qed

lemma limits_in_type: "t \<in> set integer_types \<Longrightarrow> value_of_type t (type_max t) \<and> value_of_type t (type_min t)"
  by (auto simp: value_of_type_def type_min_def type_max_def)

lemma limits_64:
  assumes "t \<in> set integer_types"
  shows "type_max t \<le> (if signed_type t then 2 ^ 63 - 1 else if width t = 64 then 2 ^ 64 - 1 else 2 ^ 32 - 1)"
    "- (2 ^ 63) \<le> type_min t" "type_min t \<le> 0" "0 \<le> type_max t" "width t = 64 \<and> \<not> signed_type t \<Longrightarrow> type_max t = 2 ^ 64 - 1"
  using assms unfolding integer_types_def set_simps
  by (elim insertE emptyE; simp add: type_max_def type_min_def signed_type_def)+

lemma down_cast_wraps: "t \<in> set integer_types \<Longrightarrow> down_cast t False v = cast t v \<and> u_down_cast t False v = cast t v"
  by (simp add: down_cast_def u_down_cast_def low_bits_mod cast_mod)

text \<open>What the saturating casts do with a value; negative ones become the maximum of an unsigned type.\<close>

definition saturated :: "ExplicitType \<Rightarrow> int \<Rightarrow> int" where
  "saturated t v =
     (if value_of_type t v then v
      else if v > type_max t then type_max t
      else if signed_type t then type_min t
      else if width t = 64 then 0 else type_max t)"

lemma down_cast_saturates:
  assumes t: "t \<in> set integer_types" and v: "- (2 ^ 63) \<le> v" "v < 2 ^ 63"
  shows "down_cast t True v = saturated t v"
proof -
  note ids = cast_id [OF t] limits_in_type [OF t] limits [OF t]
  note b = limits_64 [OF t]
  show ?thesis
  proof (cases "signed_type t")
    case True
    then have "to_Long (type_max t) = type_max t"
      using b by (simp add: to_Long_def mod_pos_pos_trivial)
    then show ?thesis
      using True ids by (auto simp: down_cast_def saturated_def value_of_type_def)
  next
    case False
    then have lo: "type_min t = 0" by (simp add: type_min_def)
    show ?thesis
    proof (cases "0 \<le> v")
      case True
      then have "to_ULong v = v" using v by (simp add: to_ULong_def)
      then show ?thesis
        using False True lo ids by (auto simp: down_cast_def saturated_def value_of_type_def)
    next
      case neg: False
      have "v mod 2 ^ 64 = (v + 2 ^ 64) mod 2 ^ 64" by simp
      also have "\<dots> = v + 2 ^ 64" using neg v by (intro mod_pos_pos_trivial) simp_all
      finally have u: "to_ULong v = v + 2 ^ 64" by (simp add: to_ULong_def)
      show ?thesis
        using False neg lo ids b v u
        by (cases "width t = 64") (auto simp: down_cast_def saturated_def value_of_type_def)
    qed
  qed
qed

lemma u_down_cast_saturates:
  assumes t: "t \<in> set integer_types" and v: "0 \<le> v" "v < 2 ^ 64"
  shows "u_down_cast t True v = saturated t v"
proof -
  have "to_ULong v = v" using v by (simp add: to_ULong_def)
  then show ?thesis
    using v cast_id [OF t] limits_in_type [OF t] limits [OF t] limits_64 [OF t]
    by (auto simp: u_down_cast_def saturated_def value_of_type_def)
qed

text \<open>The types between which values are cast or copied as they are.\<close>

lemma plain_casts:
  "\<forall>s \<in> set integer_types. \<forall>t \<in> set integer_types. t \<notin> set (down_types s) \<longrightarrow>
     type_max s \<le> type_max t \<and> (type_min t \<le> type_min s \<or> t \<notin> set (copied s) \<and> type_min t = 0)"
  by (simp add: integer_types_def type_max_def type_min_def signed_type_def)

lemma down_sources:
  "\<forall>s \<in> set integer_types. down_types s \<noteq> [] \<longrightarrow>
     (if s = kULong \<or> s = kUnsignedLong then type_min s = 0 \<and> type_max s = 2 ^ 64 - 1
      else - (2 ^ 63) \<le> type_min s \<and> type_max s < 2 ^ 63)"
  by (simp add: integer_types_def type_max_def type_min_def signed_type_def)

lemma down_types_no_copy:
  "\<forall>s \<in> set integer_types. \<forall>t \<in> set (down_types s). t \<notin> set (copied s)"
  by (simp add: integer_types_def)

text \<open>
  C27. Between integer types an unsaturated conversion wraps, and a saturating one keeps a value of
  the target type and takes the limits of a signed target. For an unsigned target only values above
  the maximum are treated as they should be: a negative value becomes 0 only from
  \<^verbatim>\<open>long\<close> to \<^verbatim>\<open>ulong\<close>, wraps where the code has a plain cast, and otherwise becomes
  the maximum of the target.
\<close>

theorem convert_integer_spec:
  assumes "s \<in> set integer_types" "t \<in> set integer_types" "value_of_type s v"
  shows "convert_explicit_value s False r t (Integer v) = Some (cast t v) \<and>
    convert_explicit_value s True r t (Integer v) = Some
      (if value_of_type t v then v
       else if v > type_max t then type_max t
       else if signed_type t then type_min t
       else if t \<notin> set (down_types s) then cast t v
       else if width t = 64 then 0 else type_max t)"
proof -
  have no_bool: "s \<noteq> kBool" "t \<noteq> kBool" using assms(1,2) by (auto simp: integer_types_def)
  show ?thesis
  proof (cases "t \<in> set (down_types s)")
    case True
    then have "t \<notin> set (copied s)" "down_types s \<noteq> []" using down_types_no_copy assms(1) by auto
    moreover have "saturated t v = (if s = kULong \<or> s = kUnsignedLong then u_down_cast t True v else down_cast t True v)"
      using bspec [OF down_sources assms(1)] \<open>down_types s \<noteq> []\<close> assms(3)
        down_cast_saturates [OF assms(2)] u_down_cast_saturates [OF assms(2)]
      by (auto simp: value_of_type_def)
    moreover have "convert_integer s sat t v =
        (if s = kULong \<or> s = kUnsignedLong then u_down_cast t sat v else down_cast t sat v)" for sat
      unfolding convert_integer_def using True no_bool calculation(1) by simp
    ultimately have "convert_integer s True t v = saturated t v" "convert_integer s False t v = cast t v"
      using down_cast_wraps [OF assms(2), of v] by simp_all
    then show ?thesis using True by (simp only: convert_explicit_value_def explicit_value.case saturated_def) simp
  next
    case False
    then have plain: "type_max s \<le> type_max t \<and> (type_min t \<le> type_min s \<or> t \<notin> set (copied s) \<and> type_min t = 0)"
      using plain_casts assms(1,2) by blast
    then have "v \<le> type_max t" using assms(3) by (auto simp: value_of_type_def)
    moreover have "signed_type t \<Longrightarrow> value_of_type t v" "t \<in> set (copied s) \<Longrightarrow> value_of_type t v"
      using plain assms(3) limits(5) [OF assms(2)] by (auto simp: value_of_type_def)
    ultimately show ?thesis
      using False no_bool cast_id [OF assms(2)]
      by (auto simp: convert_explicit_value_def convert_integer_def)
  qed
qed

theorem convert_integer_spec_witness:
  "convert_explicit_value kInt True kRoundToEven kUChar (Integer (- 1)) = Some 255"
  using convert_integer_spec [of kInt kUChar "- 1" kRoundToEven]
  by (simp add: integer_types_def value_of_type_def type_min_def type_max_def signed_type_def)


section \<open>Rounding floating-point values\<close>

lemma nearest_even_add: "even k \<Longrightarrow> nearest_even (x + of_int k) = nearest_even x + k"
  by (simp add: nearest_even_def Let_def)

text \<open>The nearest integer, the even one of two.\<close>

lemma nearest_even_nearest:
  "\<bar>x - of_int (nearest_even x)\<bar> \<le> 1 / 2 \<and> (\<bar>x - of_int (nearest_even x)\<bar> = 1 / 2 \<longrightarrow> even (nearest_even x))"
proof -
  define n where "n = floor x"
  define r where "r = x - of_int n"
  have r: "0 \<le> r" "r < 1" using floor_correct [of x] by (simp_all add: r_def n_def algebra_simps)
  have x: "x = of_int n + r" by (simp add: r_def)
  have "nearest_even x = (if 2 * r > 1 \<or> (2 * r = 1 \<and> odd n) then n + 1 else n)"
    by (simp add: nearest_even_def Let_def n_def r_def)
  then show ?thesis using r by (auto simp: x abs_if split: if_splits)
qed

lemma truncated_int [simp]: "truncated (of_int n) = n" by (simp add: truncated_def flip: of_int_minus)

lemma truncated_cases:
  "0 \<le> x \<Longrightarrow> truncated x = floor x" "x < 0 \<Longrightarrow> truncated x = ceiling x"
  by (simp_all add: truncated_def ceiling_def)

lemma lrint_clamped_nearest:
  assumes "0 < p" "\<bar>x\<bar> < 2 ^ 63" "2 ^ p \<le> \<bar>x\<bar> \<longrightarrow> x \<in> \<int>"
  shows "lrint_clamped p x = nearest_even x"
proof -
  have inside: "\<not> x \<ge> 2 ^ 63" "\<not> x \<le> - (2 ^ 63)" using assms(2) by (auto simp: abs_less_iff)
  show ?thesis
  proof (cases "\<bar>x\<bar> < 2 ^ p")
    case True
    define k :: int where "k = (if x < 0 then - (2 ^ p) else 2 ^ p)"
    have "even k" using assms(1) by (simp add: k_def)
    then have "nearest_even (x + of_int k) = nearest_even x + k" by (rule nearest_even_add)
    then have "truncated (of_int (nearest_even (x + of_int k)) - of_int k) = nearest_even x"
      using truncated_int [of "nearest_even x"] by simp
    then show ?thesis using True inside unfolding lrint_clamped_def Let_def k_def by simp
  next
    case False
    then obtain n where "x = of_int n" using assms(3) by (auto elim: Ints_cases)
    moreover have "nearest_even (of_int n) = n" by (simp add: nearest_even_def)
    ultimately show ?thesis using False inside by (simp add: lrint_clamped_def)
  qed
qed

text \<open>
  C28. From \<^verbatim>\<open>float\<close> and \<^verbatim>\<open>double\<close>, below \<open>2 ^ 63\<close> in magnitude: rounding to
  nearest and to zero are right, the latter for every value; the other two are the ceiling and the
  floor except between -1 and 0, where they give 1 and 0; and \<open>kRoundToEven\<close> gives an even
  number, also for integers that are odd. Values from \<open>2 ^ p\<close> on are integers.
\<close>

theorem whole_value_roundings:
  assumes "p = 23 \<or> p = 52" "\<bar>x\<bar> < 2 ^ 63" "2 ^ p \<le> \<bar>x\<bar> \<longrightarrow> x \<in> \<int>"
  shows "\<bar>x - of_int (whole_value p kRoundToNearest x)\<bar> \<le> 1 / 2 \<and>
    (\<bar>x - of_int (whole_value p kRoundToNearest x)\<bar> = 1 / 2 \<longrightarrow> even (whole_value p kRoundToNearest x)) \<and>
    whole_value p kRoundToZero x = (if 0 \<le> x then floor x else ceiling x) \<and>
    whole_value p kRoundToPosInf x = (if - 1 < x \<and> x < 0 then 1 else ceiling x) \<and>
    whole_value p kRoundToNegInf x = (if - 1 < x \<and> x < 0 then 0 else floor x) \<and>
    even (whole_value p kRoundToEven x)"
proof -
  have near: "whole_value p kRoundToNearest x = nearest_even x"
    using lrint_clamped_nearest [of p x] assms by (auto simp: whole_value_def Let_def)
  have exact: "(x - of_int (truncated x)) * 10 = 0 \<longleftrightarrow> x \<in> \<int>"
    by (auto elim!: Ints_cases) (metis Ints_of_int eq_iff_diff_eq_0)
  have gap: "x \<notin> \<int> \<Longrightarrow> ceiling x = floor x + 1"
    by (metis Ints_of_int ceiling_altdef)
  have small: "- 1 < x \<and> x < 0 \<longleftrightarrow> x < 0 \<and> ceiling x = 0"
    by (auto simp: ceiling_eq_iff)
  have up: "whole_value p kRoundToPosInf x = (if - 1 < x \<and> x < 0 then 1 else ceiling x)"
  proof (cases "x < 0")
    case True
    then have "ceiling x \<le> 0" by (simp add: ceiling_le_iff)
    moreover have "- 1 < x \<Longrightarrow> x \<notin> \<int>" using True by (auto elim!: Ints_cases)
    ultimately show ?thesis
      using True small exact truncated_cases(2) [OF True] by (auto simp: whole_value_def Let_def)
  next
    case False
    then have "truncated x = floor x" "0 \<le> floor x" using truncated_cases(1) [of x] by simp_all
    then show ?thesis using False exact gap by (auto simp: whole_value_def Let_def elim!: Ints_cases)
  qed
  have down: "whole_value p kRoundToNegInf x = (if - 1 < x \<and> x < 0 then 0 else floor x)"
  proof (cases "x < 0")
    case True
    then have "ceiling x \<le> 0" by (simp add: ceiling_le_iff)
    then show ?thesis
      using True small exact gap truncated_cases(2) [OF True]
      by (auto simp: whole_value_def Let_def elim!: Ints_cases)
  next
    case False
    then have "truncated x = floor x" "0 \<le> floor x" using truncated_cases(1) [of x] by simp_all
    then show ?thesis using False by (simp add: whole_value_def Let_def)
  qed
  have zero: "whole_value p kRoundToZero x = (if 0 \<le> x then floor x else ceiling x)"
    using truncated_cases [of x] by (auto simp: whole_value_def Let_def)
  have "even (whole_value p kRoundToEven x)" by (simp add: whole_value_def Let_def)
  then show ?thesis using near nearest_even_nearest [of x] up down zero by simp
qed

theorem whole_value_roundings_witness:
  "whole_value 23 kRoundToPosInf (- 1 / 2) = 1 \<and> whole_value 23 kRoundToNegInf (- 1 / 2) = 0"
  using whole_value_roundings [of 23 "- 1 / 2"] by simp

text \<open>An odd integer is \<^emph>\<open>rounded\<close> to the next even one, and a half is truncated first.\<close>

lemma round_to_even_moves_integers:
  "convert_explicit_value kFloat False kRoundToEven kInt (Floating 3) = Some 4"
  "convert_explicit_value kHalf False kRoundToPosInf kInt (Floating (5 / 2)) = Some 2"
  by code_simp+

section \<open>Widening and subnormals\<close>

lemma read_upscale_exact:
  assumes "t \<in> set integer_types" "value_of_type t v"
  shows "v < 2 ^ 63 \<Longrightarrow> read_upscale_signed t v = v" "0 \<le> v \<Longrightarrow> read_upscale_unsigned t v = v"
proof -
  have b: "- (2 ^ 63) \<le> v" "v < 2 ^ 64"
    using assms(2) limits_64 [OF assms(1)] by (auto simp: value_of_type_def split: if_splits)
  show "v < 2 ^ 63 \<Longrightarrow> read_upscale_signed t v = v" "0 \<le> v \<Longrightarrow> read_upscale_unsigned t v = v"
    using assms b by (simp_all add: read_upscale_signed_def read_upscale_unsigned_def to_Long_def to_ULong_def)
qed

text \<open>The reader of unsigned bytes as floats takes them as signed.\<close>

lemma read_as_float_uchar: "read_for_float kUChar 200 = - 56"
  by (simp add: read_for_float_def cast_def signed_type_def)

end
