(* ===== verification/IntegerBuiltins.thy ===== *)
theory IntegerBuiltins
  imports Conversions "HOL-Library.Signed_Division"
begin

text \<open>
  The reference functions of \<^verbatim>\<open>integer_ops/test_integers.cpp\<close> that do not multiply: leading and
  trailing zeros, the assignment operators, halving adds, minimum, maximum, rotation and clamping.
  A value of an integer type is the integer it stands for, as in \<open>Conversions\<close>;
  arithmetic in \<^verbatim>\<open>cl_long\<close> and \<^verbatim>\<open>cl_ulong\<close> is wrapped by \<open>to_Long\<close> and \<open>to_ULong\<close>.
  \<open>Some x\<close> stands for a function that stores \<open>x\<close> and returns true, \<open>None\<close> for one that
  returns false and leaves the destination alone.
\<close>

unbundle bit_operations_syntax

section \<open>The functions\<close>

definition tested_types :: "ExplicitType list" where
  "tested_types = [kChar, kUChar, kShort, kUShort, kInt, kUInt, kLong, kULong]"

definition unsigned_version :: "ExplicitType \<Rightarrow> ExplicitType" where
  "unsigned_version t = (case t of kChar \<Rightarrow> kUChar | kShort \<Rightarrow> kUShort | kInt \<Rightarrow> kUInt | kLong \<Rightarrow> kULong | _ \<Rightarrow> t)"

definition CL_LONG_MIN :: int where "CL_LONG_MIN = - 0x8000000000000000"

definition CL_MIN :: "ExplicitType \<Rightarrow> int" where
  "CL_MIN t = (case t of kChar \<Rightarrow> - 128 | kShort \<Rightarrow> - 32768 | kInt \<Rightarrow> - 0x80000000 | kLong \<Rightarrow> CL_LONG_MIN | _ \<Rightarrow> 0)"

text \<open>The two counting loops end only for a value that is not 0.\<close>

partial_function (option) leading_loop :: "int \<Rightarrow> nat \<Rightarrow> nat option" where
  "leading_loop testValue count =
     (if 0 = testValue AND CL_LONG_MIN then leading_loop (to_Long (push_bit 1 testValue)) (count + 1) else Some count)"

definition verify_integer_clz :: "ExplicitType \<Rightarrow> int \<Rightarrow> int option" where
  "verify_integer_clz vecType source =
     (if vecType \<in> set tested_types then
        let testValue = to_Long source; typeBits = width vecType
        in map_option (\<lambda>count. cast vecType (int count))
          (if testValue \<noteq> 0 then leading_loop (to_Long (push_bit (64 - typeBits) testValue)) 0 else Some typeBits)
      else None)"

partial_function (option) trailing_loop :: "int \<Rightarrow> nat \<Rightarrow> nat option" where
  "trailing_loop testValue count =
     (if 0 = testValue AND 1 then trailing_loop (drop_bit 1 testValue) (count + 1) else Some count)"

definition verify_integer_ctz :: "ExplicitType \<Rightarrow> int \<Rightarrow> int option" where
  "verify_integer_ctz vecType source =
     (if vecType \<in> set tested_types then
        let testValue = to_Long source; typeBits = width vecType
        in map_option (\<lambda>count. cast vecType (int count))
          (if testValue = 0 then Some typeBits else trailing_loop testValue 0)
      else None)"

text \<open>
  \<^verbatim>\<open>OP_TEST\<close>: the destination is an operand. The operation is on \<^verbatim>\<open>int\<close> for narrow types;
  an overflow of \<^verbatim>\<open>int\<close> or \<^verbatim>\<open>long\<close>, undefined in C++, wraps.
\<close>

definition op_assign :: "(int \<Rightarrow> int \<Rightarrow> int) \<Rightarrow> ExplicitType \<Rightarrow> int \<Rightarrow> int \<Rightarrow> int option" where
  "op_assign operation vecType source d = Some (if vecType \<in> set tested_types then cast vecType (operation d source) else d)"

definition verify_integer_addAssign :: "ExplicitType \<Rightarrow> int \<Rightarrow> int \<Rightarrow> int option" where
  "verify_integer_addAssign = op_assign (+)"

definition verify_integer_subtractAssign :: "ExplicitType \<Rightarrow> int \<Rightarrow> int \<Rightarrow> int option" where
  "verify_integer_subtractAssign = op_assign (-)"

definition verify_integer_multiplyAssign :: "ExplicitType \<Rightarrow> int \<Rightarrow> int \<Rightarrow> int option" where
  "verify_integer_multiplyAssign = op_assign (*)"

definition verify_integer_exclusiveOrAssign :: "ExplicitType \<Rightarrow> int \<Rightarrow> int \<Rightarrow> int option" where
  "verify_integer_exclusiveOrAssign = op_assign (XOR)"

definition verify_integer_orAssign :: "ExplicitType \<Rightarrow> int \<Rightarrow> int \<Rightarrow> int option" where
  "verify_integer_orAssign = op_assign (OR)"

definition verify_integer_andAssign :: "ExplicitType \<Rightarrow> int \<Rightarrow> int \<Rightarrow> int option" where
  "verify_integer_andAssign = op_assign (AND)"

text \<open>\<^verbatim>\<open>OP_CASE_GUARD\<close> and \<^verbatim>\<open>OP_CASE_GUARD_SIGNED\<close>; the operators truncate.\<close>

definition op_assign_guard :: "(int \<Rightarrow> int \<Rightarrow> int) \<Rightarrow> ExplicitType \<Rightarrow> int \<Rightarrow> int \<Rightarrow> int option" where
  "op_assign_guard operation vecType s d = Some
     (if vecType \<notin> set tested_types then d
      else if signed_type vecType then
        if s = 0 \<or> (d = CL_MIN vecType \<and> s = - 1) then cast vecType (- 1 - CL_MIN vecType)
        else cast vecType (operation d s)
      else if s = 0 then cast vecType (- 1) else cast vecType (operation d s))"

definition verify_integer_divideAssign :: "ExplicitType \<Rightarrow> int \<Rightarrow> int \<Rightarrow> int option" where
  "verify_integer_divideAssign = op_assign_guard (sdiv)"

definition verify_integer_moduloAssign :: "ExplicitType \<Rightarrow> int \<Rightarrow> int \<Rightarrow> int option" where
  "verify_integer_moduloAssign = op_assign_guard (smod)"

text \<open>
  \<^verbatim>\<open>patchup_divide_results\<close>: where the quotient is not defined the result is replaced by what the
  guarded operators expect. \<open>None\<close> is an access beyond an array.
\<close>

definition patch_case :: "ExplicitType \<Rightarrow> int list \<Rightarrow> nat \<Rightarrow> int list \<Rightarrow> int list option" where
  "patch_case t denom count result =
     for_loop 0 count (\<lambda>i result. do {
       s \<leftarrow> rd denom i;
       if s = 0 then wr result i (cast t (- 1)) else Some result }) result"

definition patch_case_signed :: "ExplicitType \<Rightarrow> int list \<Rightarrow> int list \<Rightarrow> nat \<Rightarrow> int list \<Rightarrow> int list option" where
  "patch_case_signed t denom num count result =
     for_loop 0 count (\<lambda>i result. do {
       s \<leftarrow> rd denom i;
       patch \<leftarrow> (if s = 0 then Some True else do { d \<leftarrow> rd num i; Some (d = CL_MIN t \<and> s = - 1) });
       if patch then wr result i (cast t (- 1 - CL_MIN t)) else Some result }) result"

definition patchup_divide_results ::
    "int list \<Rightarrow> int list \<Rightarrow> int list \<Rightarrow> nat \<Rightarrow> ExplicitType \<Rightarrow> int list option" where
  "patchup_divide_results outData inDataA inDataB count vecType =
     (if vecType \<in> {kChar, kShort, kInt, kLong} then patch_case_signed vecType inDataA inDataB count outData
      else if vecType \<in> {kUChar, kUShort, kUInt, kULong} then patch_case vecType inDataA count outData
      else Some outData)"

text \<open>Halving adds.\<close>

definition verify_integer_hadd :: "ExplicitType \<Rightarrow> int \<Rightarrow> int \<Rightarrow> int option" where
  "verify_integer_hadd vecType a b =
     (if vecType \<in> {kChar, kUChar, kShort, kUShort, kInt, kUInt}
      then Some (cast vecType (drop_bit 1 (to_Long (a + b))))
      else if vecType = kLong then
        let overflow = to_Long ((a AND 1) + (b AND 1))
        in Some (to_Long (to_Long (drop_bit 1 a + drop_bit 1 b) + drop_bit 1 overflow))
      else if vecType = kULong then
        let uOverflow = to_ULong ((a AND 1) + (b AND 1))
        in Some (to_ULong (to_ULong (drop_bit 1 a + drop_bit 1 b) + drop_bit 1 uOverflow))
      else None)"

definition verify_integer_rhadd :: "ExplicitType \<Rightarrow> int \<Rightarrow> int \<Rightarrow> int option" where
  "verify_integer_rhadd vecType a b =
     (if vecType \<in> {kChar, kUChar, kShort, kUShort, kInt, kUInt}
      then Some (cast vecType (drop_bit 1 (to_Long (to_Long (a + b) + 1))))
      else if vecType = kLong then
        let overflow = (a OR b) AND 1
        in Some (to_Long (to_Long (drop_bit 1 a + drop_bit 1 b) + overflow))
      else if vecType = kULong then
        let uOverflow = (a OR b) AND 1
        in Some (to_ULong (to_ULong (drop_bit 1 a + drop_bit 1 b) + uOverflow))
      else None)"

definition verify_integer_min :: "ExplicitType \<Rightarrow> int \<Rightarrow> int \<Rightarrow> int option" where
  "verify_integer_min vecType valueA valueB =
     (if vecType \<in> set tested_types then Some (cast vecType (if valueB < valueA then valueB else valueA)) else None)"

definition verify_integer_max :: "ExplicitType \<Rightarrow> int \<Rightarrow> int \<Rightarrow> int option" where
  "verify_integer_max vecType valueA valueB =
     (if vecType \<in> set tested_types then Some (cast vecType (if valueA < valueB then valueB else valueA)) else None)"

text \<open>
  \<^verbatim>\<open>verify_integer_rotate\<close> reads and writes through the unsigned type of the same size, and keeps the
  number of bits in a \<^verbatim>\<open>char\<close>. For other types it aborts, which is \<open>None\<close> too.
\<close>

definition verify_integer_rotate :: "ExplicitType \<Rightarrow> int \<Rightarrow> int \<Rightarrow> int option" where
  "verify_integer_rotate vecType a b =
     (if vecType \<in> set tested_types then
        let u = unsigned_version vecType; w = width vecType;
            testValueA = cast u a;
            numBits = nat (cast kChar (cast u b) AND (int w - 1))
        in Some (cast vecType (cast u
             (if numBits = 0 then testValueA
              else to_ULong (push_bit numBits testValueA) OR drop_bit (w - numBits) testValueA)))
      else None)"

text \<open>\<^verbatim>\<open>std::min\<close> and \<^verbatim>\<open>std::max\<close>.\<close>

definition std_min :: "int \<Rightarrow> int \<Rightarrow> int" where "std_min a b = (if b < a then b else a)"

definition std_max :: "int \<Rightarrow> int \<Rightarrow> int" where "std_max a b = (if a < b then b else a)"

definition verify_integer_clamp :: "ExplicitType \<Rightarrow> int \<Rightarrow> int \<Rightarrow> int \<Rightarrow> int option" where
  "verify_integer_clamp vecType valueA valueB valueC =
     (if vecType \<notin> set tested_types \<or> valueB > valueC then None
      else Some (cast vecType (std_max (std_min valueA valueC) valueB)))"


section \<open>Casts\<close>

lemma tested_integer: "t \<in> set tested_types \<Longrightarrow> t \<in> set integer_types"
  by (auto simp: tested_types_def integer_types_def)

lemmas tested_cast_id = cast_id [OF tested_integer]
lemmas tested_in_type = cast_in_type [OF tested_integer]

lemma tested_cases:
  assumes "t \<in> set tested_types"
  obtains "t = kChar" | "t = kUChar" | "t = kShort" | "t = kUShort" | "t = kInt" | "t = kUInt" | "t = kLong" | "t = kULong"
  using assms by (auto simp: tested_types_def)

lemma tested_width: "t \<in> set tested_types \<Longrightarrow> 8 \<le> width t \<and> width t \<le> 64"
  by (elim tested_cases) simp_all

lemma tested_range:
  "t \<in> set tested_types \<Longrightarrow> value_of_type t v \<longleftrightarrow>
     (if signed_type t then - (2 ^ (width t - 1)) \<le> v \<and> v < 2 ^ (width t - 1) else 0 \<le> v \<and> v < 2 ^ width t)"
  by (auto simp: value_of_type_def type_min_def type_max_def)

lemma zero_in_type: "t \<in> set tested_types \<Longrightarrow> value_of_type t 0"
  by (elim tested_cases) (simp_all add: tested_range tested_types_def signed_type_def)

lemma unsigned_version [simp]:
  "t \<in> set tested_types \<Longrightarrow> width (unsigned_version t) = width t \<and> \<not> signed_type (unsigned_version t)"
  by (elim tested_cases) (simp_all add: unsigned_version_def signed_type_def)

lemma cast_unsigned: "\<not> signed_type t \<Longrightarrow> cast t v = v mod 2 ^ width t" by (simp add: cast_def)

lemma cast_congruent: "0 < width t \<Longrightarrow> cast t v mod 2 ^ width t = v mod 2 ^ width t"
  by (simp add: cast_def mod_diff_left_eq)

lemma cast_equal: "v mod 2 ^ width t = v' mod 2 ^ width t \<Longrightarrow> cast t v = cast t v'"
  by (metis cast_mod)

lemma bit_cast: "j < width t \<Longrightarrow> bit (cast t v) j \<longleftrightarrow> bit v j"
proof -
  assume j: "j < width t"
  have "take_bit (width t) (cast t v) = take_bit (width t) v"
    using j by (simp add: take_bit_eq_mod cast_congruent)
  then show ?thesis using j by (metis bit_take_bit_iff)
qed

lemma to_Long_id: "- (2 ^ 63) \<le> v \<Longrightarrow> v < 2 ^ 63 \<Longrightarrow> to_Long v = v" by (simp add: to_Long_def)

lemma to_Long_range: "- (2 ^ 63) \<le> to_Long v \<and> to_Long v < 2 ^ 63" by (simp add: to_Long_def)

lemma to_Long_congruent: "to_Long v mod 2 ^ 64 = v mod 2 ^ 64" unfolding to_Long_def by (simp add: mod_simps)

lemma to_Long_equal: "v mod 2 ^ 64 = v' mod 2 ^ 64 \<Longrightarrow> to_Long v = to_Long v'"
  unfolding to_Long_def by (metis mod_add_left_eq)

lemma to_ULong_id: "0 \<le> v \<Longrightarrow> v < 2 ^ 64 \<Longrightarrow> to_ULong v = v" by (simp add: to_ULong_def)

lemma to_ULong_take_bit: "to_ULong v = take_bit 64 v" by (simp only: to_ULong_def take_bit_eq_mod)

lemma tested_long:
  assumes "t \<in> set tested_types" "value_of_type t v"
  shows "t \<noteq> kULong \<Longrightarrow> to_Long v = v" "- (2 ^ 63) \<le> v" "v < 2 ^ 64" "to_Long v mod 2 ^ width t = v mod 2 ^ width t"
proof -
  show bounds: "t \<noteq> kULong \<Longrightarrow> to_Long v = v" "- (2 ^ 63) \<le> v" "v < 2 ^ 64"
    using assms(1) assms(2) [unfolded tested_range [OF assms(1)]]
    by (elim tested_cases; simp add: to_Long_id signed_type_def)+
  show "to_Long v mod 2 ^ width t = v mod 2 ^ width t"
  proof (cases "t = kULong")
    case True
    then show ?thesis using to_Long_congruent [of v] by simp
  qed (simp add: bounds)
qed

section \<open>Leading and trailing zeros\<close>

lemma and_CL_LONG_MIN:
  assumes "- (2 ^ 63) \<le> x" "x < 2 ^ 63"
  shows "0 = x AND CL_LONG_MIN \<longleftrightarrow> 0 \<le> x"
proof -
  have "x AND NOT (mask 63) = push_bit 63 (drop_bit 63 x)"
    by (rule bit_eqI) (auto simp: bit_simps)
  moreover have "CL_LONG_MIN = NOT (mask 63)" unfolding CL_LONG_MIN_def by (simp flip: minus_exp_eq_not_mask)
  ultimately have "x AND CL_LONG_MIN = push_bit 63 (drop_bit 63 x)" by simp
  also have "\<dots> = x div 2 ^ 63 * 2 ^ 63" by (simp only: push_bit_eq_mult drop_bit_eq_div)
  finally have "0 = x AND CL_LONG_MIN \<longleftrightarrow> x div 2 ^ 63 = 0" by auto
  then show ?thesis using assms by auto
qed

lemma to_Long_high: "2 ^ 63 \<le> y \<Longrightarrow> y < 2 ^ 64 \<Longrightarrow> to_Long y = y - 2 ^ 64"
proof -
  assume y: "2 ^ 63 \<le> y" "y < 2 ^ 64"
  have "(y + 2 ^ 63) mod 2 ^ 64 = (y + 2 ^ 63 - 2 ^ 64) mod 2 ^ 64" by (simp only: minus_mod_self2)
  also have "\<dots> = y + 2 ^ 63 - 2 ^ 64" using y by (intro mod_pos_pos_trivial) simp_all
  finally show ?thesis by (simp add: to_Long_def)
qed

lemma leading_loop_counts:
  assumes "2 ^ (63 - k) \<le> y" "y < 2 ^ (64 - k)" "k \<le> 63"
  shows "leading_loop (to_Long y) count = Some (count + k)"
  using assms
proof (induction k arbitrary: y count)
  case 0
  then have "\<not> 0 \<le> to_Long y" by (simp add: to_Long_high)
  then have "0 \<noteq> to_Long y AND CL_LONG_MIN" using and_CL_LONG_MIN to_Long_range by metis
  then show ?case by (subst leading_loop.simps) simp
next
  case (Suc k)
  have half: "(2 :: int) ^ (63 - k) = 2 * 2 ^ (63 - Suc k)" "(2 :: int) ^ (64 - k) = 2 * 2 ^ (64 - Suc k)"
    using Suc.prems(3) by (simp_all flip: power_Suc add: Suc_diff_le)
  have "(2 :: int) ^ (64 - Suc k) \<le> 2 ^ 63" using Suc.prems(3) by (intro power_increasing) simp_all
  then have y: "0 \<le> y" "y < 2 ^ 63"
    using Suc.prems(1,2) zero_le_power [of "2 :: int" "63 - Suc k"] by linarith+
  then have id: "to_Long y = y" by (simp add: to_Long_id)
  have "0 = to_Long y AND CL_LONG_MIN" using and_CL_LONG_MIN [of y] y unfolding id by simp
  then have "leading_loop (to_Long y) count = leading_loop (to_Long (2 * y)) (count + 1)"
    by (subst leading_loop.simps) (simp add: id push_bit_eq_mult mult.commute)
  also have "\<dots> = Some (count + 1 + k)" using Suc.prems half by (intro Suc.IH) simp_all
  finally show ?case by simp
qed

lemma power_interval:
  assumes "0 < u" "u < 2 ^ w"
  obtains k where "k < w" "2 ^ (w - 1 - k) \<le> u" "u < (2 :: int) ^ (w - k)"
proof -
  obtain n where n: "2 ^ n \<le> nat u" "nat u < 2 ^ (n + 1)"
    using ex_power_ivl1 [of 2 "nat u"] assms(1) by (metis One_nat_def Suc_leI order_refl zero_less_nat_eq)
  have "int (2 ^ n) \<le> int (nat u)" "int (nat u) < int (2 ^ (n + 1))"
    using n by (simp_all only: of_nat_le_iff of_nat_less_iff)
  then have i: "2 ^ n \<le> u" "u < 2 ^ (n + 1)" using assms by simp_all
  then have "(2 :: int) ^ n < 2 ^ w" using assms by linarith
  then have "n < w" by simp
  then show thesis using i by (intro that [of "w - 1 - n"]) simp_all
qed

lemma count_in_type: "t \<in> set tested_types \<Longrightarrow> n \<le> width t \<Longrightarrow> cast t (int n) = int n"
  by (rule tested_cast_id) (auto simp: tested_range elim!: tested_cases)

text \<open>The bits of a value, as a number from 0.\<close>

definition unsigned_value :: "ExplicitType \<Rightarrow> int \<Rightarrow> int" where "unsigned_value t v = v mod 2 ^ width t"

lemma value_nonzero:
  assumes "t \<in> set tested_types" "value_of_type t v" "v \<noteq> 0"
  shows "v mod 2 ^ width t \<noteq> 0"
proof
  assume "v mod 2 ^ width t = 0"
  then have "(2 :: int) ^ width t dvd v" by (simp add: mod_eq_0_iff_dvd)
  then have "\<bar>2 ^ width t\<bar> \<le> \<bar>v\<bar>" using assms(3) by (rule dvd_imp_le_int [rotated])
  moreover have "\<bar>v\<bar> < 2 ^ width t"
    using assms(1) assms(2) [unfolded tested_range [OF assms(1)]]
    by (elim tested_cases; simp add: signed_type_def abs_less_iff)
  ultimately show False by simp
qed

lemma verify_clz:
  assumes "t \<in> set tested_types" "value_of_type t v"
  shows "\<exists>c \<le> width t. verify_integer_clz t v = Some (int c) \<and>
    (if v = 0 then c = width t
     else 2 ^ (width t - 1 - c) \<le> unsigned_value t v \<and> unsigned_value t v < 2 ^ (width t - c))"
proof (cases "v = 0")
  case True
  then show ?thesis using assms by (simp add: verify_integer_clz_def to_Long_def count_in_type)
next
  case False
  let ?w = "width t" and ?u = "unsigned_value t v"
  note w = tested_width [OF assms(1)]
  have "?u \<noteq> 0" using value_nonzero [OF assms False] by (simp add: unsigned_value_def)
  moreover have "to_Long v \<noteq> 0" using value_nonzero [OF assms False] tested_long(4) [OF assms] by auto
  moreover have "0 \<le> ?u" "?u < 2 ^ ?w" by (simp_all add: unsigned_value_def)
  ultimately obtain c where c: "c < ?w" "2 ^ (?w - 1 - c) \<le> ?u" "?u < 2 ^ (?w - c)" "to_Long v \<noteq> 0"
    using power_interval [of ?u ?w] by (metis order_le_imp_less_or_eq)
  define y where "y = ?u * 2 ^ (64 - ?w)"
  have "to_Long (push_bit (64 - ?w) (to_Long v)) = to_Long y"
  proof (rule to_Long_equal)
    have "(2 :: int) ^ 64 = 2 ^ ?w * 2 ^ (64 - ?w)" using w by (simp flip: power_add)
    then have "to_Long v * 2 ^ (64 - ?w) mod 2 ^ 64 = (to_Long v mod 2 ^ ?w) * 2 ^ (64 - ?w)"
      by (simp only: mod_mult_mult2)
    also have "\<dots> = y" using tested_long(4) [OF assms] by (simp add: y_def unsigned_value_def)
    also have "y = y mod 2 ^ 64"
      unfolding \<open>2 ^ 64 = 2 ^ ?w * 2 ^ (64 - ?w)\<close> y_def mod_mult_mult2 by (simp add: unsigned_value_def)
    finally show "push_bit (64 - ?w) (to_Long v) mod 2 ^ 64 = y mod 2 ^ 64" by (simp add: push_bit_eq_mult)
  qed
  moreover have "(2 :: int) ^ (63 - c) = 2 ^ (?w - 1 - c) * 2 ^ (64 - ?w)" "(2 :: int) ^ (64 - c) = 2 ^ (?w - c) * 2 ^ (64 - ?w)"
    using c(1) w by (simp_all flip: power_add)
  then have "leading_loop (to_Long y) 0 = Some c"
    using c w leading_loop_counts [of c y 0] by (simp add: y_def)
  ultimately have "verify_integer_clz t v = Some (int c)"
    using assms(1) c(1,4) by (simp add: verify_integer_clz_def Let_def count_in_type)
  then show ?thesis using c False by (intro exI [of _ c]) simp
qed


lemma trailing_loop_counts: "v \<noteq> 0 \<Longrightarrow> \<exists>k. trailing_loop v count = Some (count + k) \<and> 2 ^ k dvd v \<and> \<not> 2 ^ (k + 1) dvd v"
proof (induction "nat \<bar>v\<bar>" arbitrary: v count rule: less_induct)
  case less
  show ?case
  proof (cases "even v")
    case False
    then have "0 \<noteq> v AND 1" by (simp add: and_one_eq mod_2_eq_odd)
    then have "trailing_loop v count = Some (count + 0)" by (subst trailing_loop.simps) simp
    then show ?thesis using False by (intro exI [of _ 0]) simp
  next
    case True
    then obtain h where h: "v = 2 * h" by blast
    with less.prems have "h \<noteq> 0" "nat \<bar>h\<bar> < nat \<bar>v\<bar>" by simp_all
    then obtain k where k: "trailing_loop h (count + 1) = Some (count + 1 + k)" "2 ^ k dvd h" "\<not> 2 ^ (k + 1) dvd h"
      using less.hyps by blast
    have "trailing_loop v count = trailing_loop h (count + 1)"
      by (subst trailing_loop.simps) (simp add: h and_one_eq mod_2_eq_odd drop_bit_eq_div)
    then show ?thesis
      using k dvd_times_left_cancel_iff [of "2 :: int" "2 ^ (k + 1)" h] by (intro exI [of _ "k + 1"]) (simp add: h)
  qed
qed

lemma dvd_to_Long: "k \<le> 64 \<Longrightarrow> 2 ^ k dvd to_Long v \<longleftrightarrow> 2 ^ k dvd v"
proof -
  assume "k \<le> 64"
  then have d: "(2 :: int) ^ k dvd 2 ^ 64" by (rule le_imp_power_dvd)
  show ?thesis using dvd_mod_iff [OF d, of v] dvd_mod_iff [OF d, of "to_Long v"] to_Long_congruent [of v] by simp
qed

lemma verify_ctz:
  assumes "t \<in> set tested_types" "value_of_type t v"
  shows "\<exists>c \<le> width t. verify_integer_ctz t v = Some (int c) \<and>
    (if v = 0 then c = width t else c < width t \<and> 2 ^ c dvd v \<and> \<not> 2 ^ (c + 1) dvd v)"
proof (cases "v = 0")
  case True
  then show ?thesis using assms by (simp add: verify_integer_ctz_def to_Long_def count_in_type)
next
  case False
  note w = tested_width [OF assms(1)]
  have nz: "to_Long v \<noteq> 0" using value_nonzero [OF assms False] tested_long(4) [OF assms] by auto
  then obtain c where c: "trailing_loop (to_Long v) 0 = Some c" "2 ^ c dvd to_Long v" "\<not> 2 ^ (c + 1) dvd to_Long v"
    using trailing_loop_counts [OF nz, of 0] by auto
  have small: "c < width t"
  proof (rule ccontr)
    assume "\<not> c < width t"
    then have "2 ^ width t dvd to_Long v" using c(2) power_le_dvd by (metis not_less)
    then have "2 ^ width t dvd v" using w by (simp add: dvd_to_Long)
    then show False using value_nonzero [OF assms False] by (simp add: mod_eq_0_iff_dvd)
  qed
  then have "verify_integer_ctz t v = Some (int c)"
    using assms(1) c nz by (simp add: verify_integer_ctz_def Let_def count_in_type)
  then show ?thesis using small c False w dvd_to_Long [of c v] dvd_to_Long [of "c + 1" v] by (intro exI [of _ c]) simp
qed

section \<open>Rotation\<close>

lemma rotate_count:
  assumes "t \<in> set tested_types"
  shows "nat (cast kChar (cast (unsigned_version t) b) AND (int (width t) - 1)) = nat (b mod int (width t))"
proof -
  obtain n where n: "int (width t) = 2 ^ n" "n \<le> 8" "n \<le> width t"
    using assms by (elim tested_cases) (auto intro: that [of 3] that [of 4] that [of 5] that [of 6])
  let ?c = "cast kChar (cast (unsigned_version t) b)"
  have "?c AND (int (width t) - 1) = ?c mod 2 ^ n"
    by (simp add: n(1) flip: mask_eq_exp_minus_1 take_bit_eq_mask take_bit_eq_mod)
  also have "\<dots> = ?c mod 2 ^ 8 mod 2 ^ n" by (rule mod_mod_cancel [symmetric]) (rule le_imp_power_dvd [OF n(2)])
  also have "?c mod 2 ^ 8 = b mod 2 ^ width t mod 2 ^ 8"
    using cast_congruent [of kChar "cast (unsigned_version t) b"] assms by (simp add: cast_unsigned)
  also have "\<dots> mod 2 ^ n = b mod 2 ^ width t mod 2 ^ n" by (rule mod_mod_cancel) (rule le_imp_power_dvd [OF n(2)])
  also have "\<dots> = b mod 2 ^ n" by (rule mod_mod_cancel) (rule le_imp_power_dvd [OF n(3)])
  finally show ?thesis by (simp add: n(1))
qed

lemma verify_rotate:
  assumes t: "t \<in> set tested_types"
  shows "\<exists>r. verify_integer_rotate t a b = Some r \<and> value_of_type t r \<and>
    (\<forall>i < width t. bit r ((i + nat (b mod int (width t))) mod width t) = bit a i)"
proof -
  let ?w = "width t" and ?u = "unsigned_version t"
  define n where "n = nat (b mod int ?w)"
  define A where "A = cast ?u a"
  define r where "r = cast t (cast ?u (if n = 0 then A else to_ULong (push_bit n A) OR drop_bit (?w - n) A))"
  have w: "8 \<le> ?w" "?w \<le> 64" using tested_width [OF t] by simp_all
  have "b mod int ?w < int ?w" using w by (intro pos_mod_bound) simp
  then have n: "n < ?w" using w by (simp add: n_def nat_less_iff)
  have A: "bit A j \<longleftrightarrow> j < ?w \<and> bit a j" for j
    using t by (simp add: A_def cast_unsigned bit_take_bit_iff flip: take_bit_eq_mod)
  have r_bits: "bit r j \<longleftrightarrow> (if n = 0 then bit A j else n \<le> j \<and> bit A (j - n) \<or> bit A (j + (?w - n)))" if "j < ?w" for j
    using that t w by (simp add: r_def bit_cast to_ULong_take_bit bit_simps add.commute flip: take_bit_eq_mod)
  have "bit r ((i + n) mod ?w) = bit a i" if "i < ?w" for i
  proof (cases "i + n < ?w")
    case True
    then show ?thesis using that by (auto simp: r_bits A)
  next
    case False
    then have "(i + n) mod ?w = i + n - ?w" using that n by (simp add: le_mod_geq)
    then show ?thesis using that n False by (auto simp: r_bits A)
  qed
  moreover have "value_of_type t r" unfolding r_def by (rule tested_in_type [OF t])
  moreover have "verify_integer_rotate t a b = Some r"
    unfolding verify_integer_rotate_def Let_def rotate_count [OF t] n_def [symmetric] r_def A_def using t by simp
  ultimately show ?thesis unfolding n_def by blast
qed


section \<open>Halving adds, minimum, maximum, clamping\<close>

lemma drop_bit_1: "drop_bit 1 v = v div (2 :: int)" "drop_bit (Suc 0) v = v div (2 :: int)"
  by (simp_all add: drop_bit_eq_div)

lemma and_1: "v AND 1 = v mod (2 :: int)" by (rule and_one_eq)

lemma or_mod_2: "(a OR b) mod 2 = (if even a \<and> even b then 0 else 1 :: int)"
  by (simp add: mod_2_eq_odd even_or_iff)

lemma half_sums:
  fixes a b :: int
  shows "a div 2 + b div 2 + (a mod 2 + b mod 2) div 2 = (a + b) div 2"
    "a div 2 + b div 2 + (if even a \<and> even b then 0 else 1) = (a + b + 1) div 2"
  by presburger+

lemma value_between:
  assumes "t \<in> set tested_types" "value_of_type t a" "value_of_type t b"
    and "min a b \<le> v" "v \<le> max a b"
  shows "value_of_type t v" "cast t v = v"
proof -
  show v: "value_of_type t v" using assms(2-) by (auto simp: value_of_type_def)
  show "cast t v = v" by (rule tested_cast_id [OF assms(1) v])
qed

lemma half_sum_between:
  fixes a b :: int
  shows "min a b \<le> (a + b) div 2" "(a + b) div 2 \<le> max a b" "min a b \<le> (a + b + 1) div 2" "(a + b + 1) div 2 \<le> max a b"
  by (simp_all add: min_def max_def; presburger)+

lemma verify_hadd:
  assumes "t \<in> set tested_types" "value_of_type t a" "value_of_type t b"
  shows "verify_integer_hadd t a b = Some ((a + b) div 2)" "verify_integer_rhadd t a b = Some ((a + b + 1) div 2)"
proof -
  note ids = value_between(2) [OF assms half_sum_between(1,2)] value_between(2) [OF assms half_sum_between(3,4)]
  note ranges = assms(2,3) [unfolded tested_range [OF assms(1)]]
  have bits: "0 \<le> a mod 2 + b mod 2" "a mod 2 + b mod 2 \<le> 2" by presburger+
  consider (narrow) "t \<in> {kChar, kUChar, kShort, kUShort, kInt, kUInt}" | (Long) "t = kLong" | (ULong) "t = kULong"
    using assms(1) by (elim tested_cases) auto
  then have "verify_integer_hadd t a b = Some ((a + b) div 2) \<and> verify_integer_rhadd t a b = Some ((a + b + 1) div 2)"
  proof cases
    case narrow
    then have "to_Long (a + b) = a + b" "to_Long (a + b + 1) = a + b + 1"
      using ranges by (elim insertE emptyE; simp add: to_Long_id signed_type_def)+
    then show ?thesis
      using narrow ids by (simp add: verify_integer_hadd_def verify_integer_rhadd_def drop_bit_1)
  next
    case Long
    have l: "to_Long v = cast t v" for v using Long by (simp add: cast_def signed_type_def to_Long_def)
    have "cast t (cast t x + y) = cast t (x + y)" for x y
      unfolding l [symmetric] by (rule to_Long_equal) (metis mod_add_left_eq to_Long_congruent)
    moreover have "cast t (a mod 2 + b mod 2) = a mod 2 + b mod 2"
      unfolding l [symmetric] using bits by (intro to_Long_id) simp_all
    ultimately show ?thesis using Long ids
      by (simp only: verify_integer_hadd_def verify_integer_rhadd_def drop_bit_1 and_1 or_mod_2 l half_sums Let_def) simp
  next
    case ULong
    have l: "to_ULong v = cast t v" for v using ULong by (simp add: cast_def signed_type_def to_ULong_def)
    have "cast t (cast t x + y) = cast t (x + y)" for x y
      unfolding l [symmetric] by (simp add: to_ULong_def mod_simps)
    moreover have "cast t (a mod 2 + b mod 2) = a mod 2 + b mod 2"
      unfolding l [symmetric] using bits by (intro to_ULong_id) simp_all
    ultimately show ?thesis using ULong ids
      by (simp only: verify_integer_hadd_def verify_integer_rhadd_def drop_bit_1 and_1 or_mod_2 l half_sums Let_def) simp
  qed
  then show "verify_integer_hadd t a b = Some ((a + b) div 2)" "verify_integer_rhadd t a b = Some ((a + b + 1) div 2)"
    by blast+
qed

lemma verify_min_max:
  assumes "t \<in> set tested_types" "value_of_type t a" "value_of_type t b"
  shows "verify_integer_min t a b = Some (min a b)" "verify_integer_max t a b = Some (max a b)"
proof -
  have "cast t (min a b) = min a b" "cast t (max a b) = max a b"
    by (rule value_between(2) [OF assms]; simp)+
  then show "verify_integer_min t a b = Some (min a b)" "verify_integer_max t a b = Some (max a b)"
    using assms(1) by (simp_all add: verify_integer_min_def verify_integer_max_def min_def max_def split: if_splits)
qed

lemma verify_clamp:
  assumes "t \<in> set tested_types" "value_of_type t a" "value_of_type t b" "value_of_type t c"
  shows "verify_integer_clamp t a b c = (if b \<le> c then Some (max b (min a c)) else None)"
proof -
  have "value_of_type t (min a c)" by (rule value_between(1) [OF assms(1,2,4)]) simp_all
  then have "cast t (max b (min a c)) = max b (min a c)"
    by (rule value_between(2) [OF assms(1,3)]) simp_all
  moreover have "std_max (std_min a c) b = max b (min a c)" by (auto simp: std_max_def std_min_def)
  ultimately show ?thesis using assms(1) by (simp add: verify_integer_clamp_def)
qed


section \<open>Division\<close>

text \<open>Where the quotient and the remainder have a value of the type.\<close>

definition division_defined :: "ExplicitType \<Rightarrow> int \<Rightarrow> int \<Rightarrow> bool" where
  "division_defined t d s \<longleftrightarrow> s \<noteq> 0 \<and> \<not> (signed_type t \<and> d = type_min t \<and> s = - 1)"

lemma CL_MIN: "t \<in> set tested_types \<Longrightarrow> signed_type t \<Longrightarrow> CL_MIN t = type_min t"
  by (elim tested_cases) (simp_all add: CL_MIN_def CL_LONG_MIN_def type_min_def signed_type_def)

lemma guarded_results:
  assumes "t \<in> set tested_types"
  shows "signed_type t \<Longrightarrow> cast t (- 1 - CL_MIN t) = type_max t" "\<not> signed_type t \<Longrightarrow> cast t (- 1) = type_max t"
  using assms by (elim tested_cases;
    simp add: CL_MIN_def CL_LONG_MIN_def type_max_def cast_def signed_type_def)+

lemma div_between:
  fixes d s :: int
  assumes "0 < s" "0 \<le> d"
  shows "0 \<le> d div s" "d div s \<le> d" "1 < s \<Longrightarrow> 0 < d \<Longrightarrow> d div s < d"
  using assms zdiv_mono2 [of d 1 s] int_div_less_self [of d s] by (simp_all add: pos_imp_zdiv_nonneg_iff)

lemma quotient_in_type:
  assumes t: "t \<in> set tested_types" and v: "value_of_type t d" "value_of_type t s" and ok: "division_defined t d s"
  shows "cast t (d sdiv s) = d sdiv s" "cast t (d smod s) = d smod s"
proof -
  have q: "\<bar>d sdiv s\<bar> \<le> \<bar>d\<bar>" "\<bar>s\<bar> > 1 \<Longrightarrow> d \<noteq> 0 \<Longrightarrow> \<bar>d sdiv s\<bar> < \<bar>d\<bar>"
    using ok div_between [of "\<bar>s\<bar>" "\<bar>d\<bar>"]
    by (auto simp: signed_divide_int_def abs_mult sgn_if division_defined_def)
  have type: "type_min t = (if signed_type t then - type_max t - 1 else 0)"
    by (simp add: type_min_def type_max_def)
  have "value_of_type t (d sdiv s)"
  proof (cases "signed_type t")
    case True
    have "d = type_min t \<Longrightarrow> d sdiv s \<noteq> - d"
      using ok True v q(2) by (cases "\<bar>s\<bar> > 1"; cases "s = 1"; auto simp: division_defined_def type value_of_type_def)
    then show ?thesis using q(1) v True by (cases "d = type_min t") (auto simp: value_of_type_def type)
  next
    case False
    then have "0 \<le> d" "0 < s" using v ok by (auto simp: value_of_type_def type division_defined_def)
    then show ?thesis using v div_between [of s d] False
      by (auto simp: value_of_type_def type signed_divide_int_def sgn_if)
  qed
  then show "cast t (d sdiv s) = d sdiv s" by (rule tested_cast_id [OF t])
  have "min 0 d \<le> d smod s" "d smod s \<le> max 0 d"
    using zmod_le_nonneg_dividend [of "\<bar>d\<bar>" "\<bar>s\<bar>"] ok
      pos_mod_sign [of "\<bar>s\<bar>" "\<bar>d\<bar>"]
    by (auto simp: smod_int_alt_def division_defined_def sgn_if min_def max_def)
  moreover have "value_of_type t 0" using t by (elim tested_cases) (simp_all add: tested_range tested_types_def signed_type_def)
  ultimately show "cast t (d smod s) = d smod s"
    by (intro value_between(2) [OF t _ v(1), of 0])
qed

lemma verify_divide:
  assumes "t \<in> set tested_types" "value_of_type t d" "value_of_type t s"
  shows "verify_integer_divideAssign t s d = Some (if division_defined t d s then d sdiv s else type_max t)"
    "verify_integer_moduloAssign t s d = Some (if division_defined t d s then d smod s else type_max t)"
  using assms quotient_in_type [OF assms(1,2,3)] guarded_results [OF assms(1)] CL_MIN [OF assms(1)]
  by (simp_all add: verify_integer_divideAssign_def verify_integer_moduloAssign_def op_assign_guard_def division_defined_def)

lemma patch_loop:
  assumes "count \<le> length result" "\<And>i r. i < count \<Longrightarrow> length r = length result \<Longrightarrow>
    body i r = Some (if bad i then r[i := m] else r)"
  shows "for_loop 0 count body result = Some (map (\<lambda>i. if i < count \<and> bad i then m else result ! i) [0..<length result])"
proof -
  let ?out = "\<lambda>k. map (\<lambda>i. if i < k \<and> bad i then m else result ! i) [0..<length result]"
  have "\<exists>s'. for_loop 0 count body result = Some s' \<and> s' = ?out count"
  proof (rule for_loop_rule)
    show "result = ?out 0" by (simp add: map_nth)
    fix i s assume "i < count" "s = ?out i"
    moreover have "(?out i)[i := m] = ?out (Suc i)" if "bad i"
      using that \<open>i < count\<close> assms(1) by (intro nth_equalityI) (auto simp: nth_list_update less_Suc_eq)
    moreover have "?out i = ?out (Suc i)" if "\<not> bad i" using that by (auto simp: less_Suc_eq)
    ultimately show "\<exists>s'. body i s = Some s' \<and> s' = ?out (Suc i)" using assms(2) [of i s] by auto
  qed simp
  then show ?thesis by blast
qed


lemma patchup_results:
  assumes t: "t \<in> set tested_types" and "count \<le> length out" "count \<le> length A" "count \<le> length B"
    and v: "\<forall>s \<in> set A. value_of_type t s" "\<forall>d \<in> set B. value_of_type t d"
  shows "patchup_divide_results out A B count t =
    Some (map (\<lambda>i. if i < count \<and> \<not> division_defined t (B ! i) (A ! i) then type_max t else out ! i) [0..<length out])"
proof (cases "signed_type t")
  case True
  have "patch_case_signed t A B count out =
      Some (map (\<lambda>i. if i < count \<and> \<not> division_defined t (B ! i) (A ! i) then type_max t else out ! i) [0..<length out])"
    unfolding patch_case_signed_def
    using assms True guarded_results(1) [OF t True] CL_MIN [OF t True]
    by (intro patch_loop) (auto simp: division_defined_def)
  then show ?thesis using True by (auto simp: patchup_divide_results_def signed_type_def)
next
  case False
  have "patch_case t A count out =
      Some (map (\<lambda>i. if i < count \<and> \<not> division_defined t (B ! i) (A ! i) then type_max t else out ! i) [0..<length out])"
    unfolding patch_case_def
    using assms False guarded_results(2) [OF t False]
    by (intro patch_loop) (auto simp: division_defined_def)
  then show ?thesis using False t by (auto simp: patchup_divide_results_def signed_type_def elim!: tested_cases)
qed

end
