(* ===== verification/IntegerMul.thy ===== *)
theory IntegerMul
  imports IntegerBuiltins
begin

text \<open>
  The reference functions of \<^verbatim>\<open>integer_ops/test_integers.cpp\<close> that multiply: the product of two
  64-bit numbers as a pair of halves, \<^verbatim>\<open>mul_hi\<close>, \<^verbatim>\<open>mad_hi\<close> and \<^verbatim>\<open>mad_sat\<close>. Values are
  modelled as in \<open>IntegerBuiltins\<close>; the pair of a product is the low and the high half.
\<close>

unbundle bit_operations_syntax

section \<open>The functions\<close>

definition multiply_unsigned_64_by_64 :: "int \<Rightarrow> int \<Rightarrow> int \<times> int" where
  "multiply_unsigned_64_by_64 sourceA sourceB =
     (let lowA = sourceA AND 0xffffffff;
          highA = drop_bit 32 sourceA;
          lowB = sourceB AND 0xffffffff;
          highB = drop_bit 32 sourceB;
          aHibHi = to_ULong (highA * highB);
          aHibLo = to_ULong (highA * lowB);
          aLobHi = to_ULong (lowA * highB);
          aLobLo = to_ULong (lowA * lowB);
          aLobLoHi = drop_bit 32 aLobLo;
          aLobHiLo = aLobHi AND 0xffffffff;
          aHibLo = to_ULong (aHibLo + to_ULong (aLobLoHi + aLobHiLo));
          destHi = to_ULong (to_ULong (aHibHi + drop_bit 32 aHibLo) + drop_bit 32 aLobHi);
          destLow = to_ULong (push_bit 32 aHibLo) OR (aLobLo AND 0xffffffff)
      in (destLow, destHi))"

definition multiply_signed_64_by_64 :: "int \<Rightarrow> int \<Rightarrow> int \<times> int" where
  "multiply_signed_64_by_64 sourceA sourceB =
     (let aSign = drop_bit 63 sourceA;
          bSign = drop_bit 63 sourceB;
          resultSign = aSign XOR bSign;
          sourceA = to_Long ((sourceA XOR aSign) - aSign);
          sourceB = to_Long ((sourceB XOR bSign) - bSign);
          (destLow, hi) = multiply_unsigned_64_by_64 (to_ULong sourceA) (to_ULong sourceB);
          (destLow, hi) =
            (if resultSign \<noteq> 0 then
               let destLow = destLow XOR to_ULong resultSign;
                   hi = hi XOR to_ULong resultSign;
                   destLow = to_ULong (destLow - to_ULong resultSign);
                   hi = (if 0 = destLow then to_ULong (hi - to_ULong resultSign) else hi)
               in (destLow, hi)
             else (destLow, hi))
      in (destLow, to_Long hi))"

text \<open>
  The narrow products are taken in \<^verbatim>\<open>cl_long\<close>; that of two \<^verbatim>\<open>cl_uint\<close> values can overflow it,
  which is undefined in C++ and wraps here.
\<close>

definition verify_integer_mul_hi :: "ExplicitType \<Rightarrow> int \<Rightarrow> int \<Rightarrow> int option" where
  "verify_integer_mul_hi vecType a b =
     (if vecType \<in> {kChar, kUChar, kShort, kUShort, kInt, kUInt}
      then Some (cast vecType (drop_bit (width vecType) (to_Long (a * b))))
      else if vecType = kLong then Some (snd (multiply_signed_64_by_64 a b))
      else if vecType = kULong
      then Some (snd (multiply_unsigned_64_by_64 (to_ULong (to_Long a)) (to_ULong (to_Long b))))
      else None)"

definition CL_LONG_MAX :: int where "CL_LONG_MAX = 0x7fffffffffffffff"

definition CL_ULONG_MAX :: int where "CL_ULONG_MAX = 0xffffffffffffffff"

definition CL_MAX :: "ExplicitType \<Rightarrow> int" where
  "CL_MAX t = (case t of kChar \<Rightarrow> 127 | kUChar \<Rightarrow> 255 | kShort \<Rightarrow> 32767 | kUShort \<Rightarrow> 65535
     | kInt \<Rightarrow> 0x7fffffff | kUInt \<Rightarrow> 0xffffffff | kLong \<Rightarrow> CL_LONG_MAX | kULong \<Rightarrow> CL_ULONG_MAX | _ \<Rightarrow> 0)"

definition verify_integer_mad_sat :: "ExplicitType \<Rightarrow> int \<Rightarrow> int \<Rightarrow> int \<Rightarrow> int option" where
  "verify_integer_mad_sat vecType valueA valueB valueC =
     (if vecType \<in> {kULong, kUInt, kUShort, kUChar} then
        let (multLo, multHi) = multiply_unsigned_64_by_64 valueA valueB;
            multLo = to_ULong (multLo + valueC);
            multHi = to_ULong (multHi + (if multLo < valueC then 1 else 0));
            multLo = (if multHi \<noteq> 0 then 0xffffffffffffffff else multLo)
        in Some (if vecType = kULong then multLo else cast vecType (std_min multLo (CL_MAX vecType)))
      else if vecType \<in> {kLong, kInt, kShort, kChar} then
        let (multLo, multHi) = multiply_signed_64_by_64 valueA valueB;
            sum = to_ULong (multLo + valueC);
            (multHi, sum) =
              (if valueC \<ge> 0 then
                 if multLo > sum then
                   let multHi = to_Long (multHi + 1)
                   in if CL_LONG_MIN = multHi then (CL_LONG_MAX, CL_ULONG_MAX) else (multHi, sum)
                 else (multHi, sum)
               else
                 if multLo < sum then
                   let multHi = to_Long (multHi - 1)
                   in if CL_LONG_MAX = multHi then (CL_LONG_MIN, 0) else (multHi, sum)
                 else (multHi, sum));
            sum = (if multHi > 0 then to_ULong CL_LONG_MAX
                   else if multHi < - 1 then to_ULong CL_LONG_MIN else sum);
            result = to_Long sum
        in Some (if vecType = kLong then result
          else cast vecType (std_max (std_min result (CL_MAX vecType)) (CL_MIN vecType)))
      else None)"

definition verify_integer_mad_hi :: "ExplicitType \<Rightarrow> int \<Rightarrow> int \<Rightarrow> int \<Rightarrow> int option" where
  "verify_integer_mad_hi vecType valueA valueB valueC =
     (if vecType \<in> {kULong, kUInt, kUShort, kUChar} then
        let (multLo, multHi) = multiply_unsigned_64_by_64 valueA valueB
        in Some (if vecType = kULong then to_ULong (multHi + valueC)
          else cast vecType (to_ULong (drop_bit (width vecType) multLo + valueC)))
      else if vecType \<in> {kLong, kInt, kShort, kChar} then
        let (multLo, multHi) = multiply_signed_64_by_64 valueA valueB
        in Some (if vecType = kLong then to_Long (multHi + valueC)
          else cast vecType (cast kInt (to_ULong (drop_bit (width vecType) multLo + to_ULong valueC))))
      else None)"

section \<open>The product of two 64-bit numbers\<close>

lemma and_ffffffff: "v AND 0xffffffff = v mod (2 :: int) ^ 32"
proof -
  have "(0xffffffff :: int) = mask 32" by (simp add: mask_eq_exp_minus_1)
  then show ?thesis by (simp only: take_bit_eq_mask [symmetric] take_bit_eq_mod)
qed

lemma or_low_high: "(hi * 2 ^ 32) OR (lo mod 2 ^ 32) = hi * 2 ^ 32 + lo mod (2 :: int) ^ 32"
proof -
  have "push_bit 32 hi AND take_bit 32 lo = 0" by (rule bit_eqI) (auto simp: bit_simps)
  then show ?thesis
    unfolding push_bit_eq_mult [symmetric] take_bit_eq_mod [symmetric] by (rule disjunctive_add_eq_or [symmetric])
qed

lemma product_bound:
  fixes a b :: int
  assumes "0 \<le> a" "a < 2 ^ 32" "0 \<le> b" "b < 2 ^ 32"
  shows "0 \<le> a * b" "a * b \<le> (2 ^ 32 - 1) * (2 ^ 32 - 1)"
  using assms mult_mono [of a "2 ^ 32 - 1" b "2 ^ 32 - 1"] by simp_all

lemma assemble:
  fixes B :: int
  assumes "S = q1 * B + r1" "R = q2 * B + r2" "Q + (q1 + r2) = q3 * B + r3"
  shows "P * (B * B) + (Q + R) * B + S = (P + q3 + q2) * (B * B) + (r3 * B + r1)"
proof -
  have Q: "Q = q3 * B + r3 - (q1 + r2)" using assms(3) by simp
  show ?thesis unfolding assms(1,2) Q by (simp add: algebra_simps)
qed

lemma multiply_unsigned:
  assumes "0 \<le> a" "a < 2 ^ 64" "0 \<le> b" "b < 2 ^ 64"
  shows "\<exists>lo hi. multiply_unsigned_64_by_64 a b = (lo, hi) \<and> 0 \<le> lo \<and> lo < 2 ^ 64 \<and> 0 \<le> hi \<and> hi < 2 ^ 64 \<and>
    a * b = hi * 2 ^ 64 + lo"
proof -
  define B :: int where "B = 2 ^ 32"
  define al ah bl bh where s: "al = a mod B" "ah = a div B" "bl = b mod B" "bh = b div B"
  have ab: "a = ah * B + al" "b = bh * B + bl" by (simp_all add: s)
  have BB: "(2 :: int) ^ 64 = B * B" "B = 4294967296" by (simp_all add: B_def)
  have r: "0 \<le> al" "al < B" "0 \<le> ah" "ah < B" "0 \<le> bl" "bl < B" "0 \<le> bh" "bh < B"
    using assms unfolding s BB(1) by (simp_all add: BB(2) pos_imp_zdiv_nonneg_iff)
  note p = product_bound [folded B_def]
  have ids: "to_ULong (ah * bh) = ah * bh" "to_ULong (ah * bl) = ah * bl"
      "to_ULong (al * bh) = al * bh" "to_ULong (al * bl) = al * bl"
    using p [of ah bh] p [of ah bl] p [of al bh] p [of al bl] r
    by (simp_all add: to_ULong_id BB(2))
  define t where "t = al * bl div B + (al * bh) mod B"
  define m where "m = ah * bl + t"
  have d: "0 \<le> al * bl div B" "al * bl div B \<le> B - 1" "0 \<le> al * bh div B" "al * bh div B \<le> B - 1"
    "0 \<le> (al * bh) mod B" "(al * bh) mod B \<le> B - 1"
    using p [of al bl] p [of al bh] r by (simp_all add: BB(2) pos_imp_zdiv_nonneg_iff)
  have t: "to_ULong t = t" "0 \<le> t" "t \<le> 2 * B - 2" using d by (simp_all add: t_def to_ULong_id BB(2))
  have m: "to_ULong m = m" "0 \<le> m" "m \<le> B * B - 1" "m div B \<le> B - 1"
    using t(2,3) p [of ah bl] r by (simp_all add: m_def to_ULong_id BB(2))
  define hi where "hi = ah * bh + m div B + al * bh div B"
  have md: "0 \<le> m div B" using m(2) by (simp add: BB(2) pos_imp_zdiv_nonneg_iff)
  have hi: "to_ULong (ah * bh + m div B) = ah * bh + m div B" "to_ULong hi = hi" "0 \<le> hi" "hi < B * B"
    using p [of ah bh] r m(4) md d(3,4) by (simp_all add: hi_def to_ULong_id BB(2))
  define lo where "lo = (m mod B) * B + (al * bl) mod B"
  have lo: "0 \<le> lo" "lo < B * B" by (simp_all add: lo_def BB(2))
  have push: "to_ULong (push_bit 32 m) = (m mod B) * B"
    by (simp only: to_ULong_def push_bit_eq_mult B_def [symmetric] BB(1) mod_mult_mult2)
  have "multiply_unsigned_64_by_64 a b = (lo, hi)"
    unfolding multiply_unsigned_64_by_64_def Let_def and_ffffffff drop_bit_eq_div B_def [symmetric] s(1-4) [symmetric]
      ids t_def [symmetric] t(1) m_def [symmetric] m(1) hi(1) hi_def [symmetric] hi(2) push
    using or_low_high [of "m mod B" "al * bl", folded B_def] by (simp add: lo_def)
  moreover have "a * b = hi * (B * B) + lo"
  proof -
    have "a * b = ah * bh * (B * B) + (ah * bl + al * bh) * B + al * bl" by (simp add: ab algebra_simps)
    also have "\<dots> = hi * (B * B) + lo" unfolding hi_def lo_def
      by (rule assemble) (simp_all add: t_def m_def)
    finally show ?thesis .
  qed
  ultimately show ?thesis using lo hi unfolding BB(1) by blast
qed


text \<open>Signs, as the code handles them.\<close>

lemma sign_word: "- (2 ^ 63) \<le> a \<Longrightarrow> a < 2 ^ 63 \<Longrightarrow> drop_bit 63 a = (if a < 0 then - 1 else 0 :: int)"
proof -
  assume a: "- (2 ^ 63) \<le> a" "a < 2 ^ 63"
  have "a < 0 \<Longrightarrow> a div 2 ^ 63 = - 1" using a by (simp add: div_pos_neg_trivial)
  moreover have "0 \<le> a \<Longrightarrow> a div 2 ^ 63 = 0" using a by simp
  ultimately show ?thesis by (simp add: drop_bit_eq_div)
qed

lemma xor_sign: "(a XOR (if n then - 1 else 0)) - (if n then - 1 else 0) = (if n then - a else a :: int)"
  by (simp add: not_int_def)

lemma xor_all_ones: "0 \<le> x \<Longrightarrow> x < 2 ^ 64 \<Longrightarrow> x XOR to_ULong (- 1) = 2 ^ 64 - 1 - (x :: int)"
proof -
  assume x: "0 \<le> x" "x < 2 ^ 64"
  have t: "take_bit 64 x = x" using x by (simp add: take_bit_eq_mod)
  have "x XOR to_ULong (- 1) = take_bit 64 x XOR take_bit 64 (- 1)" by (simp only: t to_ULong_take_bit)
  also have "\<dots> = take_bit 64 (NOT x)" by (rule bit_eqI) (auto simp: bit_simps)
  also have "\<dots> = (- x - 1) mod 2 ^ 64" by (simp only: take_bit_eq_mod not_int_def)
  also have "\<dots> = (- x - 1 + 2 ^ 64) mod 2 ^ 64" by (simp only: mod_add_self2)
  also have "- x - 1 + 2 ^ 64 = 2 ^ 64 - 1 - x" by simp
  also have "\<dots> mod 2 ^ 64 = \<dots>" using x by (intro mod_pos_pos_trivial) simp_all
  finally show ?thesis .
qed

lemma to_ULong_neg: "0 \<le> x \<Longrightarrow> x < 2 ^ 64 \<Longrightarrow> to_ULong (- x) = (if x = 0 then 0 else 2 ^ 64 - x)"
  by (simp add: to_ULong_def zmod_zminus1_eq_if)

lemma to_ULong_to_Long: "to_ULong (to_Long v) = to_ULong v" by (simp only: to_ULong_def to_Long_congruent)

lemma to_Long_to_ULong: "to_Long (to_ULong v) = to_Long v"
  by (rule to_Long_equal) (simp add: to_ULong_def)

definition long_value :: "int \<Rightarrow> bool" where "long_value a \<longleftrightarrow> - (2 ^ 63) \<le> a \<and> a < 2 ^ 63"

lemma kLong_values: "value_of_type kLong a \<longleftrightarrow> long_value a"
  by (auto simp: value_of_type_def type_min_def type_max_def signed_type_def long_value_def)

lemma kULong_values: "value_of_type kULong a \<longleftrightarrow> 0 \<le> a \<and> a < 2 ^ 64"
  by (auto simp: value_of_type_def type_min_def type_max_def signed_type_def)

lemma magnitudes:
  assumes "long_value a" "long_value b"
  shows "\<bar>a\<bar> \<le> 2 ^ 63" "\<bar>a\<bar> * \<bar>b\<bar> \<le> 2 ^ 126" "to_ULong \<bar>a\<bar> = \<bar>a\<bar>"
proof -
  show a: "\<bar>a\<bar> \<le> 2 ^ 63" using assms by (auto simp: long_value_def)
  have "\<bar>b\<bar> \<le> 2 ^ 63" using assms by (auto simp: long_value_def)
  with a have "\<bar>a\<bar> * \<bar>b\<bar> \<le> 2 ^ 63 * 2 ^ 63" by (intro mult_mono) simp_all
  then show "\<bar>a\<bar> * \<bar>b\<bar> \<le> 2 ^ 126" by simp
  show "to_ULong \<bar>a\<bar> = \<bar>a\<bar>" using a by (simp add: to_ULong_id)
qed

lemma multiply_signed:
  assumes a: "long_value a" and b: "long_value b"
  shows "\<exists>lo hi. multiply_signed_64_by_64 a b = (lo, hi) \<and> 0 \<le> lo \<and> lo < 2 ^ 64 \<and> long_value hi \<and>
    a * b = hi * 2 ^ 64 + lo \<and> - (2 ^ 62) - 1 \<le> hi \<and> hi \<le> 2 ^ 62"
proof -
  note ma = magnitudes [OF a b] and mb = magnitudes [OF b a]
  have "\<bar>a\<bar> < 2 ^ 64" "\<bar>b\<bar> < 2 ^ 64" using ma(1) mb(1) by simp_all
  then obtain lo hi where m: "multiply_unsigned_64_by_64 \<bar>a\<bar> \<bar>b\<bar> = (lo, hi)" "0 \<le> lo" "lo < 2 ^ 64" "0 \<le> hi" "hi < 2 ^ 64"
      "\<bar>a\<bar> * \<bar>b\<bar> = hi * 2 ^ 64 + lo"
    using multiply_unsigned [of "\<bar>a\<bar>" "\<bar>b\<bar>"] by auto
  have hi: "hi \<le> 2 ^ 62"
  proof (rule ccontr)
    assume "\<not> hi \<le> 2 ^ 62"
    then have "(2 ^ 62 + 1) * 2 ^ 64 \<le> hi * 2 ^ 64" by (intro mult_right_mono) simp_all
    then show False using m(2,6) ma(2) by simp
  qed
  have abs_word: "to_ULong (to_Long ((v XOR drop_bit 63 v) - drop_bit 63 v)) = \<bar>v\<bar>" if "long_value v" for v
    using that magnitudes(3) [OF that that] sign_word [of v] xor_sign [of v "v < 0"]
    by (simp add: long_value_def to_ULong_to_Long abs_if)
  have sign: "drop_bit 63 a XOR drop_bit 63 b = (if (a < 0) \<noteq> (b < 0) then - 1 else 0)"
    using a b by (simp add: long_value_def sign_word)
  note code = multiply_signed_64_by_64_def Let_def abs_word [OF a] abs_word [OF b] m(1) sign
  show ?thesis
  proof (cases "(a < 0) \<noteq> (b < 0)")
    case False
    then have ab: "a * b = hi * 2 ^ 64 + lo" using m(6) by (auto simp: abs_if split: if_splits)
    have "multiply_signed_64_by_64 a b = (lo, hi)"
      unfolding code using False hi m(4) by (simp add: to_Long_id)
    then show ?thesis using ab m(2,3,4) hi by (auto simp: long_value_def)
  next
    case True
    then have ab: "a * b = - (hi * 2 ^ 64 + lo)" using m(6) by (auto simp: abs_if split: if_splits)
    have "to_ULong ((lo XOR to_ULong (- 1)) - to_ULong (- 1)) = to_ULong (- lo)"
      unfolding xor_all_ones [OF m(2,3)] by (simp add: to_ULong_def)
    also have "\<dots> = (if lo = 0 then 0 else 2 ^ 64 - lo)" using m(2,3) by (rule to_ULong_neg)
    finally have low: "to_ULong ((lo XOR to_ULong (- 1)) - to_ULong (- 1)) = (if lo = 0 then 0 else 2 ^ 64 - lo)" .
    have zero: "to_ULong 0 = 0" by (simp add: to_ULong_def)
    have high: "to_Long (hi XOR to_ULong (- 1)) = - 1 - hi"
      unfolding xor_all_ones [OF m(4,5)] using to_Long_high [of "2 ^ 64 - 1 - hi"] hi m(4) by simp
    have high': "to_Long (to_ULong ((hi XOR to_ULong (- 1)) - to_ULong (- 1))) = - hi"
    proof -
      have "(hi XOR to_ULong (- 1)) - to_ULong (- 1) = - hi" unfolding xor_all_ones [OF m(4,5)] by (simp add: to_ULong_def)
      then show ?thesis unfolding to_Long_to_ULong using hi m(4) by (simp add: to_Long_id)
    qed
    have "multiply_signed_64_by_64 a b = (if lo = 0 then (0, - hi) else (2 ^ 64 - lo, - 1 - hi))"
      unfolding code using True m(3) high high' low zero by simp
    then show ?thesis using ab m(2,3,4) hi
      by (intro exI [of _ "if lo = 0 then 0 else 2 ^ 64 - lo"] exI [of _ "if lo = 0 then - hi else - 1 - hi"])
        (simp add: long_value_def algebra_simps)
  qed
qed


section \<open>The high half of a product\<close>

lemma high_bits_congruent:
  assumes "x mod 2 ^ 64 = y mod (2 :: int) ^ 64" "2 * w \<le> 64"
  shows "(x div 2 ^ w) mod 2 ^ w = (y div 2 ^ w) mod 2 ^ w"
proof -
  have "take_bit w (drop_bit w v) = take_bit w (drop_bit w (take_bit 64 v))" for v :: int
    by (rule bit_eqI) (use assms(2) in \<open>auto simp: bit_simps\<close>)
  then show ?thesis using assms(1) by (metis take_bit_eq_mod drop_bit_eq_div)
qed

lemma mod_width_congruent:
  assumes "w \<le> 64"
  shows "to_ULong v mod 2 ^ w = v mod 2 ^ w" "to_Long v mod 2 ^ w = v mod 2 ^ w"
proof -
  have d: "(2 :: int) ^ w dvd 2 ^ 64" by (rule le_imp_power_dvd [OF assms])
  show "to_ULong v mod 2 ^ w = v mod 2 ^ w" unfolding to_ULong_def by (rule mod_mod_cancel [OF d])
  show "to_Long v mod 2 ^ w = v mod 2 ^ w"
    using mod_mod_cancel [OF d, of v] mod_mod_cancel [OF d, of "to_Long v"] unfolding to_Long_congruent by simp
qed

lemma product_high_in_type:
  assumes t: "t \<in> set tested_types" and v: "value_of_type t a" "value_of_type t b"
  shows "cast t (a * b div 2 ^ width t) = a * b div 2 ^ width t"
proof (rule tested_cast_id [OF t])
  let ?w = "width t"
  note w = tested_width [OF t]
  have pow: "(2 :: int) ^ ?w = 2 * 2 ^ (?w - 1)" "(2 :: int) ^ (?w - 1) = 2 * 2 ^ (?w - 2)"
    using w by (simp_all flip: power_Suc add: Suc_diff_Suc numeral_2_eq_2)
  show "value_of_type t (a * b div 2 ^ ?w)"
  proof (cases "signed_type t")
    case True
    then have "\<bar>a\<bar> \<le> 2 ^ (?w - 1)" "\<bar>b\<bar> \<le> 2 ^ (?w - 1)" using v by (auto simp: tested_range [OF t])
    then have "\<bar>a\<bar> * \<bar>b\<bar> \<le> 2 ^ (?w - 1) * 2 ^ (?w - 1)" by (intro mult_mono) simp_all
    also have "\<dots> = 2 ^ (?w - 2) * 2 ^ ?w" unfolding pow by simp
    finally have "a * b \<le> 2 ^ (?w - 2) * 2 ^ ?w" "- (2 ^ (?w - 2)) * 2 ^ ?w \<le> a * b"
      unfolding abs_mult [symmetric] by (simp_all add: abs_le_iff)
    then have "a * b div 2 ^ ?w \<le> 2 ^ (?w - 2) * 2 ^ ?w div 2 ^ ?w" "- (2 ^ (?w - 2)) * 2 ^ ?w div 2 ^ ?w \<le> a * b div 2 ^ ?w"
      by (intro zdiv_mono1; simp)+
    then have "a * b div 2 ^ ?w \<le> 2 ^ (?w - 2)" "- (2 ^ (?w - 2)) \<le> a * b div 2 ^ ?w"
      by (simp_all del: mult_minus_left)
    moreover obtain p :: int where "2 ^ (?w - 2) = p" "0 < p" by simp
    ultimately show ?thesis using True pow(2) by (simp add: tested_range [OF t])
  next
    case False
    then have r: "0 \<le> a" "a < 2 ^ ?w" "0 \<le> b" "b < 2 ^ ?w" using v by (auto simp: tested_range [OF t])
    then have "a * b < 2 ^ ?w * 2 ^ ?w" by (intro mult_strict_mono) simp_all
    moreover have "a * b div 2 ^ ?w * 2 ^ ?w \<le> a * b" by (simp flip: minus_mod_eq_div_mult)
    ultimately have "a * b div 2 ^ ?w * 2 ^ ?w < 2 ^ ?w * 2 ^ ?w" by linarith
    then have "a * b div 2 ^ ?w < 2 ^ ?w" by (rule mult_right_less_imp_less) simp
    then show ?thesis using r False by (simp add: tested_range [OF t] pos_imp_zdiv_nonneg_iff)
  qed
qed

lemma div_of_sum: "0 \<le> lo \<Longrightarrow> lo < 2 ^ 64 \<Longrightarrow> (hi * 2 ^ 64 + lo) div 2 ^ 64 = hi \<and> (hi * 2 ^ 64 + lo) mod 2 ^ 64 = (lo :: int)"
  by simp

lemma verify_mul_hi:
  assumes t: "t \<in> set tested_types" and v: "value_of_type t a" "value_of_type t b"
  shows "verify_integer_mul_hi t a b = Some (a * b div 2 ^ width t)"
proof -
  consider (narrow) "t \<in> {kChar, kUChar, kShort, kUShort, kInt, kUInt}" | (Long) "t = kLong" | (ULong) "t = kULong"
    using t by (elim tested_cases) auto
  then show ?thesis
  proof cases
    case narrow
    then have "2 * width t \<le> 64" by auto
    then have "cast t (to_Long (a * b) div 2 ^ width t) = cast t (a * b div 2 ^ width t)"
      by (intro cast_equal high_bits_congruent to_Long_congruent)
    then show ?thesis
      using narrow product_high_in_type [OF t v] by (simp add: verify_integer_mul_hi_def drop_bit_eq_div)
  next
    case Long
    then have "long_value a" "long_value b" using v by (simp_all add: kLong_values)
    then show ?thesis using multiply_signed [of a b] Long div_of_sum by (auto simp: verify_integer_mul_hi_def)
  next
    case ULong
    then have r: "0 \<le> a" "a < 2 ^ 64" "0 \<le> b" "b < 2 ^ 64" using v by (simp_all add: kULong_values)
    then have "to_ULong (to_Long a) = a" "to_ULong (to_Long b) = b"
      by (simp_all only: to_ULong_to_Long to_ULong_id)
    then show ?thesis using multiply_unsigned [OF r] ULong div_of_sum by (auto simp: verify_integer_mul_hi_def)
  qed
qed


lemma long_of_signed: "t \<in> set tested_types \<Longrightarrow> signed_type t \<Longrightarrow> value_of_type t a \<Longrightarrow> long_value a"
  by (elim tested_cases) (simp_all add: tested_range tested_types_def signed_type_def long_value_def)

lemma ulong_of_unsigned: "t \<in> set tested_types \<Longrightarrow> \<not> signed_type t \<Longrightarrow> value_of_type t a \<Longrightarrow> 0 \<le> a \<and> a < 2 ^ 64"
  by (elim tested_cases) (simp_all add: tested_range tested_types_def signed_type_def)

lemma tested_sign_cases:
  assumes "t \<in> set tested_types"
  obtains "\<not> signed_type t" "t = kULong" | "\<not> signed_type t" "t \<in> {kUInt, kUShort, kUChar}" "2 * width t \<le> 64"
    | "signed_type t" "t = kLong" | "signed_type t" "t \<in> {kInt, kShort, kChar}" "2 * width t \<le> 64"
  using assms by (elim tested_cases) (simp_all add: signed_type_def)

lemma verify_mad_hi:
  assumes t: "t \<in> set tested_types" and v: "value_of_type t a" "value_of_type t b" "value_of_type t c"
  shows "verify_integer_mad_hi t a b c = Some (cast t (a * b div 2 ^ width t + c))"
proof -
  have high: "(x div 2 ^ width t + c) mod 2 ^ width t = (a * b div 2 ^ width t + c) mod 2 ^ width t"
    if "x mod 2 ^ 64 = a * b mod 2 ^ 64" "2 * width t \<le> 64" for x
    using high_bits_congruent [OF that] by (metis mod_add_left_eq)
  from t show ?thesis
  proof (cases rule: tested_sign_cases)
    case 1
    then have r: "0 \<le> a" "a < 2 ^ 64" "0 \<le> b" "b < 2 ^ 64" using ulong_of_unsigned [OF t] v by simp_all
    then show ?thesis using multiply_unsigned [OF r] 1 div_of_sum
      by (auto simp: verify_integer_mad_hi_def cast_def to_ULong_def signed_type_def)
  next
    case 2
    then have r: "0 \<le> a" "a < 2 ^ 64" "0 \<le> b" "b < 2 ^ 64" using ulong_of_unsigned [OF t] v by simp_all
    obtain lo hi where m: "multiply_unsigned_64_by_64 a b = (lo, hi)" "lo mod 2 ^ 64 = a * b mod 2 ^ 64"
      using multiply_unsigned [OF r] div_of_sum by auto
    have "cast t (to_ULong (drop_bit (width t) lo + c)) = cast t (a * b div 2 ^ width t + c)"
      by (intro cast_equal) (use 2(3) high [OF m(2) 2(3)] in \<open>simp add: mod_width_congruent drop_bit_eq_div\<close>)
    then show ?thesis using 2 m(1) by (auto simp: verify_integer_mad_hi_def)
  next
    case 3
    then have r: "long_value a" "long_value b" using long_of_signed [OF t] v by simp_all
    then show ?thesis using multiply_signed [OF r] 3 div_of_sum
      by (auto simp: verify_integer_mad_hi_def cast_def to_Long_def signed_type_def)
  next
    case 4
    then have r: "long_value a" "long_value b" using long_of_signed [OF t] v by simp_all
    obtain lo hi where m: "multiply_signed_64_by_64 a b = (lo, hi)" "lo mod 2 ^ 64 = a * b mod 2 ^ 64"
      using multiply_signed [OF r] div_of_sum by auto
    have w: "width t \<le> 32" using 4(3) by simp
    have int: "cast kInt v mod 2 ^ width t = v mod 2 ^ width t" for v
    proof -
      have d: "(2 :: int) ^ width t dvd 2 ^ 32" by (rule le_imp_power_dvd [OF w])
      show ?thesis
        using mod_mod_cancel [OF d, of v] mod_mod_cancel [OF d, of "cast kInt v"] cast_congruent [of kInt v] by simp
    qed
    have "(drop_bit (width t) lo + to_ULong c) mod 2 ^ width t = (drop_bit (width t) lo + c) mod 2 ^ width t"
      by (rule mod_add_cong) (use w in \<open>simp_all add: mod_width_congruent\<close>)
    then have "cast t (cast kInt (to_ULong (drop_bit (width t) lo + to_ULong c))) = cast t (a * b div 2 ^ width t + c)"
      by (intro cast_equal) (use w high [OF m(2) 4(3)] in \<open>simp add: int mod_width_congruent drop_bit_eq_div\<close>)
    then show ?thesis using 4 m(1) by (auto simp: verify_integer_mad_hi_def)
  qed
qed


section \<open>Saturating multiply and add\<close>

definition clamped :: "ExplicitType \<Rightarrow> int \<Rightarrow> int" where
  "clamped t v = max (type_min t) (min v (type_max t))"

lemma CL_MAX: "t \<in> set tested_types \<Longrightarrow> CL_MAX t = type_max t"
  by (elim tested_cases) (simp_all add: CL_MAX_def CL_LONG_MAX_def CL_ULONG_MAX_def type_max_def signed_type_def)

lemma clamped_in_type:
  assumes t: "t \<in> set tested_types"
  shows "value_of_type t (clamped t v)" "cast t (clamped t v) = clamped t v"
proof -
  have "type_min t \<le> type_max t" using limits_64(3,4) [OF tested_integer [OF t]] by linarith
  then show *: "value_of_type t (clamped t v)" by (auto simp: value_of_type_def clamped_def)
  show "cast t (clamped t v) = clamped t v" by (rule tested_cast_id [OF t *])
qed

text \<open>A sum of two words and its carry or borrow.\<close>

lemma carry:
  fixes lo c hi :: int
  assumes "0 \<le> lo" "lo < M" "0 \<le> c" "c < M"
  shows "(lo + c) mod M = (if lo + c < M then lo + c else lo + c - M)"
    "(lo + c) mod M < c \<longleftrightarrow> M \<le> lo + c" "lo > (lo + c) mod M \<longleftrightarrow> M \<le> lo + c"
proof -
  have "(lo + c) mod M = lo + c - M" if "M \<le> lo + c"
  proof -
    have "(lo + c) mod M = (lo + c - M) mod M" by (simp only: minus_mod_self2)
    also have "\<dots> = lo + c - M" using assms that by (intro mod_pos_pos_trivial) simp_all
    finally show ?thesis .
  qed
  then show *: "(lo + c) mod M = (if lo + c < M then lo + c else lo + c - M)"
    using assms by (auto simp: mod_pos_pos_trivial)
  show "(lo + c) mod M < c \<longleftrightarrow> M \<le> lo + c" "lo > (lo + c) mod M \<longleftrightarrow> M \<le> lo + c"
    unfolding * using assms by auto
qed

lemma borrow:
  fixes lo c :: int
  assumes "0 \<le> lo" "lo < M" "- M < c" "c < 0"
  shows "(lo + c) mod M = (if 0 \<le> lo + c then lo + c else lo + c + M)" "lo < (lo + c) mod M \<longleftrightarrow> lo + c < 0"
proof -
  have "(lo + c) mod M = lo + c + M" if "lo + c < 0"
  proof -
    have "(lo + c) mod M = (lo + c + M) mod M" by (simp only: mod_add_self2)
    also have "\<dots> = lo + c + M" using assms that by (intro mod_pos_pos_trivial) simp_all
    finally show ?thesis .
  qed
  then show *: "(lo + c) mod M = (if 0 \<le> lo + c then lo + c else lo + c + M)"
    using assms by (auto simp: mod_pos_pos_trivial)
  show "lo < (lo + c) mod M \<longleftrightarrow> lo + c < 0" unfolding * using assms by auto
qed

lemma mad_sat_unsigned:
  assumes t: "t \<in> set tested_types" "\<not> signed_type t"
    and v: "value_of_type t a" "value_of_type t b" "value_of_type t c"
  shows "verify_integer_mad_sat t a b c = Some (clamped t (a * b + c))"
proof -
  have r: "0 \<le> a" "a < 2 ^ 64" "0 \<le> b" "b < 2 ^ 64" "0 \<le> c" "c < 2 ^ 64"
    using ulong_of_unsigned [OF t] v by simp_all
  obtain lo hi where m: "multiply_unsigned_64_by_64 a b = (lo, hi)" "0 \<le> lo" "lo < 2 ^ 64" "0 \<le> hi"
      "a * b = hi * 2 ^ 64 + lo"
    using multiply_unsigned [OF r(1-4)] by auto
  have "a * b \<le> (2 ^ 64 - 1) * (2 ^ 64 - 1)" using r by (intro mult_mono) simp_all
  then have hi: "hi \<le> 2 ^ 64 - 2" using m(2,5) by simp
  define low where "low = to_ULong (lo + c)"
  define high where "high = to_ULong (hi + (if low < c then 1 else 0))"
  have low: "low = (if lo + c < 2 ^ 64 then lo + c else lo + c - 2 ^ 64)" "low < c \<longleftrightarrow> 2 ^ 64 \<le> lo + c"
    unfolding low_def to_ULong_def by (rule carry(1,2) [OF m(2,3) r(5,6)])+
  have high: "high = hi + (if lo + c < 2 ^ 64 then 0 else 1)"
    unfolding high_def low(2) using hi m(4) by (simp add: to_ULong_id)
  have sum: "a * b + c = high * 2 ^ 64 + low" "0 \<le> low" "low < 2 ^ 64" "0 \<le> high"
    using m r(5,6) by (simp_all add: high low(1))
  have sat: "(if high \<noteq> 0 then 0xffffffffffffffff else low) = min (a * b + c) 0xffffffffffffffff"
    using sum by (auto simp: min_def)
  have m1: "type_min t = 0" "type_max t \<le> 0xffffffffffffffff" "0 \<le> type_max t" "t = kULong \<Longrightarrow> type_max t = 0xffffffffffffffff"
    using t by (auto simp: type_min_def type_max_def elim!: tested_cases)
  have "std_min (min (a * b + c) 0xffffffffffffffff) (CL_MAX t) = clamped t (a * b + c)"
    using m1 CL_MAX [OF t(1)] sum by (auto simp: std_min_def clamped_def)
  moreover have "t = kULong \<Longrightarrow> min (a * b + c) 0xffffffffffffffff = clamped t (a * b + c)"
    using m1 sum by (auto simp: clamped_def)
  moreover have "t \<in> {kULong, kUInt, kUShort, kUChar}" using t by (auto elim!: tested_cases simp: signed_type_def)
  ultimately show ?thesis
    using clamped_in_type(2) [OF t(1)]
    by (simp add: verify_integer_mad_sat_def m(1) low_def [symmetric] high_def [symmetric] sat [simplified])
      (auto simp: Let_def)
qed

lemma mad_sat_signed:
  assumes t: "t \<in> set tested_types" "signed_type t"
    and v: "value_of_type t a" "value_of_type t b" "value_of_type t c"
  shows "verify_integer_mad_sat t a b c = Some
    (if t = kLong \<and> - (2 ^ 64) \<le> a * b + c \<and> a * b + c < 2 ^ 64 then to_Long (a * b + c) else clamped t (a * b + c))"
proof -
  have r: "long_value a" "long_value b" "long_value c" using long_of_signed [OF t] v by simp_all
  obtain lo hi where m: "multiply_signed_64_by_64 a b = (lo, hi)" "0 \<le> lo" "lo < 2 ^ 64"
      "a * b = hi * 2 ^ 64 + lo" "- (2 ^ 62) - 1 \<le> hi" "hi \<le> 2 ^ 62"
    using multiply_signed [OF r(1,2)] by auto
  define sum where "sum = to_ULong (lo + c)"
  define high where "high = hi + (if c \<ge> 0 then if lo > sum then 1 else 0 else if lo < sum then - 1 else 0)"
  have pair: "(if c \<ge> 0 then
        if lo > sum then let multHi = to_Long (hi + 1)
          in if CL_LONG_MIN = multHi then (CL_LONG_MAX, CL_ULONG_MAX) else (multHi, sum)
        else (hi, sum)
      else if lo < sum then let multHi = to_Long (hi - 1)
          in if CL_LONG_MAX = multHi then (CL_LONG_MIN, 0) else (multHi, sum)
        else (hi, sum)) = (high, sum)"
    using m(5,6) by (simp add: high_def Let_def to_Long_id CL_LONG_MIN_def CL_LONG_MAX_def)
  have sum: "a * b + c = high * 2 ^ 64 + sum" "0 \<le> sum" "sum < 2 ^ 64"
  proof -
    show "0 \<le> sum" "sum < 2 ^ 64" by (simp_all add: sum_def to_ULong_def)
    have "a * b + c = high * 2 ^ 64 + sum" if "c \<ge> 0"
      using that carry [of lo "2 ^ 64" c] m(2-4) r(3)
      by (simp add: high_def sum_def to_ULong_def long_value_def)
    moreover have "a * b + c = high * 2 ^ 64 + sum" if "c < 0"
      using that borrow [of lo "2 ^ 64" c] m(2-4) r(3)
      by (simp add: high_def sum_def to_ULong_def long_value_def)
    ultimately show "a * b + c = high * 2 ^ 64 + sum" by linarith
  qed
  define s where "s = a * b + c"
  define result where "result = to_Long (if high > 0 then to_ULong CL_LONG_MAX
      else if high < - 1 then to_ULong CL_LONG_MIN else sum)"
  have result: "result = (if s \<ge> 2 ^ 64 then 2 ^ 63 - 1 else if s < - (2 ^ 64) then - (2 ^ 63) else to_Long s)"
  proof -
    have "high > 0 \<longleftrightarrow> s \<ge> 2 ^ 64" "high < - 1 \<longleftrightarrow> s < - (2 ^ 64)" using sum unfolding s_def by (cases "high > 0"; cases "high < - 1"; simp)+
    moreover have "to_Long sum = to_Long s" using sum(1) by (intro to_Long_equal) (simp add: s_def)
    ultimately show ?thesis
      by (simp add: result_def to_Long_to_ULong CL_LONG_MAX_def CL_LONG_MIN_def to_Long_id)
  qed
  have code: "verify_integer_mad_sat t a b c =
      Some (if t = kLong then result else cast t (std_max (std_min result (CL_MAX t)) (CL_MIN t)))"
  proof -
    have "t \<notin> {kULong, kUInt, kUShort, kUChar}" "t \<in> {kLong, kInt, kShort, kChar}"
      using t by (auto simp: signed_type_def)
    then show ?thesis
      unfolding verify_integer_mad_sat_def m(1) Let_def prod.case sum_def [symmetric] pair [unfolded Let_def] result_def
      by (simp only: if_True if_False)
  qed
  show ?thesis
  proof (cases "t = kLong")
    case True
    have "clamped kLong s = 2 ^ 63 - 1" if "s \<ge> 2 ^ 64"
      using that by (simp add: clamped_def type_min_def type_max_def signed_type_def)
    moreover have "clamped kLong s = - (2 ^ 63)" if "s < - (2 ^ 64)"
      using that by (simp add: clamped_def type_min_def type_max_def signed_type_def)
    ultimately show ?thesis using True code result by (auto simp: s_def [symmetric])
  next
    case False
    have c: "\<bar>c\<bar> \<le> 2 ^ 31" and "\<bar>a\<bar> \<le> 2 ^ 31" "\<bar>b\<bar> \<le> 2 ^ 31"
      using t v False by (elim tested_cases; simp add: tested_range tested_types_def signed_type_def abs_le_iff)+
    then have "\<bar>a\<bar> * \<bar>b\<bar> \<le> 2 ^ 31 * 2 ^ 31" by (intro mult_mono) simp_all
    with c have "- (2 ^ 63) \<le> s" "s < 2 ^ 63" unfolding abs_mult [symmetric] by (simp_all add: s_def abs_le_iff)
    then have "result = s" by (simp add: result to_Long_id)
    moreover have "type_min t \<le> type_max t" using limits_64(3,4) [OF tested_integer [OF t(1)]] by linarith
    then have "std_max (std_min s (type_max t)) (type_min t) = clamped t s"
      by (auto simp: std_max_def std_min_def clamped_def)
    ultimately show ?thesis
      using False code CL_MAX [OF t(1)] CL_MIN [OF t] clamped_in_type(2) [OF t(1)] by (simp add: s_def)
  qed
qed


section \<open>The references are the built-in functions\<close>

text \<open>
  For values of a type, the references of the two-argument built-in functions are exact: halving
  adds rounded down and up that do not lose the carry, minimum, maximum, and the high half of the
  full product, from 8 to 64 bits.
\<close>

theorem two_param_references:
  assumes "t \<in> set tested_types" "value_of_type t a" "value_of_type t b"
  shows "verify_integer_hadd t a b = Some ((a + b) div 2) \<and> verify_integer_rhadd t a b = Some ((a + b + 1) div 2) \<and>
    verify_integer_min t a b = Some (min a b) \<and> verify_integer_max t a b = Some (max a b) \<and>
    verify_integer_mul_hi t a b = Some (a * b div 2 ^ width t)"
  using verify_hadd [OF assms] verify_min_max [OF assms] verify_mul_hi [OF assms] by simp

theorem two_param_references_witness:
  "verify_integer_mul_hi kLong (- 0x7000000000000000) 0x7000000000000001 = Some (- 0x3100000000000001)"
proof -
  have "kLong \<in> set tested_types" "value_of_type kLong (- 0x7000000000000000)" "value_of_type kLong 0x7000000000000001"
    by (simp_all add: tested_types_def kLong_values long_value_def)
  then show ?thesis using two_param_references [of kLong "- 0x7000000000000000" "0x7000000000000001"] by simp
qed

text \<open>
  C31. \<^verbatim>\<open>mad_sat\<close> saturates \<open>a * b + c\<close> to the type, for every type but \<^verbatim>\<open>long\<close>. For \<^verbatim>\<open>long\<close>
  it does exactly when the sum is a \<^verbatim>\<open>long\<close> or is not in \<open>-2^64..2^64-1\<close>: in between, where the
  high half is 0 or -1 but the low half has the other sign, the reference wraps.
\<close>

theorem mad_sat_reference:
  assumes t: "t \<in> set tested_types" and v: "value_of_type t a" "value_of_type t b" "value_of_type t c"
  shows "verify_integer_mad_sat t a b c = Some (clamped t (a * b + c)) \<longleftrightarrow>
    \<not> (t = kLong \<and> - (2 ^ 64) \<le> a * b + c \<and> a * b + c < 2 ^ 64 \<and> \<not> value_of_type kLong (a * b + c))"
proof (cases "signed_type t")
  case True
  define s where "s = a * b + c"
  have eq: "to_Long s = clamped kLong s \<longleftrightarrow> value_of_type kLong s" if "- (2 ^ 64) \<le> s" "s < 2 ^ 64"
  proof
    assume "to_Long s = clamped kLong s"
    moreover have "s \<ge> 2 ^ 63 \<Longrightarrow> to_Long s = s - 2 ^ 64" using that to_Long_high by simp
    moreover have "to_Long s = s + 2 ^ 64" if "s < - (2 ^ 63)"
      using to_Long_equal [of s "s + 2 ^ 64"] to_Long_id [of "s + 2 ^ 64"] that \<open>- (2 ^ 64) \<le> s\<close> by simp
    ultimately show "value_of_type kLong s"
      using that by (auto simp: clamped_def value_of_type_def type_min_def type_max_def signed_type_def min_def max_def split: if_splits)
  qed (auto simp: kLong_values long_value_def to_Long_id clamped_def type_min_def type_max_def signed_type_def)
  show ?thesis using mad_sat_signed [OF t True v, folded s_def] eq unfolding s_def [symmetric] by auto
next
  case False
  then have "t \<noteq> kLong" by (auto simp: signed_type_def)
  then show ?thesis using mad_sat_unsigned [OF t False v] by simp
qed

theorem mad_sat_reference_witness:
  "verify_integer_mad_sat kLong (2 ^ 62) 2 0 \<noteq> Some (clamped kLong (2 ^ 62 * 2 + 0)) \<and>
   verify_integer_mad_sat kInt (2 ^ 30) 4 (- 1) = Some (clamped kInt (2 ^ 30 * 4 + (- 1)))"
proof -
  have "kLong \<in> set tested_types" "value_of_type kLong (2 ^ 62)" "value_of_type kLong 2" "value_of_type kLong 0"
    "\<not> value_of_type kLong (2 ^ 62 * 2 + 0)"
    by (simp_all add: tested_types_def kLong_values long_value_def)
  then have 1: "verify_integer_mad_sat kLong (2 ^ 62) 2 0 \<noteq> Some (clamped kLong (2 ^ 62 * 2 + 0))"
    by (subst mad_sat_reference) simp_all
  have "kInt \<in> set tested_types" "value_of_type kInt (2 ^ 30)" "value_of_type kInt 4" "value_of_type kInt (- 1)"
    by (simp_all add: tested_types_def value_of_type_def type_min_def type_max_def signed_type_def)
  then have "verify_integer_mad_sat kInt (2 ^ 30) 4 (- 1) = Some (clamped kInt (2 ^ 30 * 4 + (- 1)))"
    by (subst mad_sat_reference) simp_all
  with 1 show ?thesis by blast
qed

end
