(* ===== verification/RandomValues.thy ===== *)
theory RandomValues
  imports RandomSource Conversions
begin

text \<open>
  Random test data, \<open>generate_random_data\<close> of \<^verbatim>\<open>test_common/harness/conversions.cpp\<close>, over
  any random source: arrays of values of a type, and that they are values of the type.
\<close>

unbundle bit_operations_syntax

section \<open>Random values of a type\<close>

text \<open>
  Values of 1, 8 or 16 bits are taken from a word that has been drawn, lowest bits first, until no
  bits are left.
\<close>

fun take_bits ::
    "('s \<Rightarrow> (u32 \<times> 's) option) \<Rightarrow> nat \<Rightarrow> (u32 \<Rightarrow> int) \<Rightarrow> nat \<Rightarrow> u32 \<Rightarrow> nat \<Rightarrow> 's \<Rightarrow> (int list \<times> 's) option" where
  "take_bits gen w conv 0 bits bitsLeft d = Some ([], d)"
| "take_bits gen w conv (Suc count) bits bitsLeft d = do {
     (bits, bitsLeft, d) \<leftarrow> (if bitsLeft = 0
       then do { (bits, d) \<leftarrow> gen d; Some (bits, 32, d) }
       else Some (bits, bitsLeft, d));
     (xs, d) \<leftarrow> take_bits gen w conv count (drop_bit w bits) (bitsLeft - w) d;
     Some (conv (bits AND mask w) # xs, d)
   }"

fun take_words :: "('s \<Rightarrow> (u32 \<times> 's) option) \<Rightarrow> (u32 \<Rightarrow> int) \<Rightarrow> nat \<Rightarrow> 's \<Rightarrow> (int list \<times> 's) option" where
  "take_words gen conv 0 d = Some ([], d)"
| "take_words gen conv (Suc count) d = do {
     (x, d) \<leftarrow> gen d; (xs, d) \<leftarrow> take_words gen conv count d; Some (conv x # xs, d) }"

text \<open>The low word first, as compilers evaluate the operands of \<^verbatim>\<open>|\<close> from left to right.\<close>

fun take_doubles :: "('s \<Rightarrow> (u32 \<times> 's) option) \<Rightarrow> (u64 \<Rightarrow> int) \<Rightarrow> nat \<Rightarrow> 's \<Rightarrow> (int list \<times> 's) option" where
  "take_doubles gen conv 0 d = Some ([], d)"
| "take_doubles gen conv (Suc count) d = do {
     (lo, d) \<leftarrow> gen d; (hi, d) \<leftarrow> gen d;
     (xs, d) \<leftarrow> take_doubles gen conv count d;
     Some (conv (ucast lo OR push_bit 32 (ucast hi)) # xs, d) }"

definition bits_value :: "ExplicitType \<Rightarrow> u32 \<Rightarrow> int" where
  "bits_value t bits =
     (if t = kChar then cast kChar (sint bits - 127)
      else if t = kShort then cast kShort (sint bits - 32767)
      else uint bits)"

text \<open>
  The first word is drawn before the type is looked at. \<^verbatim>\<open>float\<close> and \<^verbatim>\<open>double\<close>, scaled
  in floating point, are left out: \<open>None\<close>. A half is its bits.
\<close>

definition generate_random_data ::
    "('s \<Rightarrow> (u32 \<times> 's) option) \<Rightarrow> ExplicitType \<Rightarrow> nat \<Rightarrow> 's \<Rightarrow> (int list \<times> 's) option" where
  "generate_random_data gen t count d = do {
     (bits, d) \<leftarrow> gen d;
     if t = kBool then take_bits gen 1 (bits_value t) count bits 32 d
     else if t \<in> {kChar, kUChar, kUnsignedChar} then take_bits gen 8 (bits_value t) count bits 32 d
     else if t \<in> {kShort, kUShort, kUnsignedShort, kHalf} then take_bits gen 16 (bits_value t) count bits 32 d
     else if t = kInt then take_words gen sint count d
     else if t \<in> {kUInt, kUnsignedInt} then take_words gen uint count d
     else if t = kLong then take_doubles gen sint count d
     else if t \<in> {kULong, kUnsignedLong} then take_doubles gen uint count d
     else None
   }"

section \<open>Values of the type\<close>

lemma bits_value_narrow:
  assumes "t \<in> set integer_types" "width t \<in> {8, 16}"
  shows "value_of_type t (bits_value t (b AND mask (width t)))"
proof -
  have "b AND mask (width t) = take_bit (width t) b" by (simp only: take_bit_eq_mask)
  then have "uint (b AND mask (width t)) = take_bit (width t) (uint b)"
    by (simp only: unsigned_take_bit_eq)
  then have u: "0 \<le> uint (b AND mask (width t))" "uint (b AND mask (width t)) < 2 ^ width t"
    by (simp_all add: take_bit_eq_mod)
  show ?thesis
  proof (cases "t = kChar \<or> t = kShort")
    case True
    then show ?thesis using cast_in_type [OF assms(1)] by (auto simp: bits_value_def)
  next
    case False
    then have "\<not> signed_type t" using assms by (auto simp: signed_type_def)
    then show ?thesis using u False by (simp add: bits_value_def value_of_type_def type_min_def type_max_def)
  qed
qed

context random_source
begin

lemma take_bits_values:
  assumes "\<And>b. P (conv (b AND mask w))"
  shows "inv d \<Longrightarrow> \<exists>xs d'. take_bits gen w conv count bits bitsLeft d = Some (xs, d') \<and> length xs = count \<and>
    (\<forall>x \<in> set xs. P x) \<and> inv d'"
proof (induction count arbitrary: bits bitsLeft d)
  case (Suc count)
  obtain b d1 where g: "gen d = Some (b, d1)" "inv d1" using gen_total [OF Suc.prems] by blast
  show ?case
  proof (cases "bitsLeft = 0")
    case True
    then show ?thesis using g Suc.IH [OF g(2), of "drop_bit w b" "32 - w"] assms by auto
  next
    case False
    then show ?thesis using Suc.IH [OF Suc.prems, of "drop_bit w bits" "bitsLeft - w"] assms by auto
  qed
qed simp

lemma take_words_values:
  assumes "\<And>b. P (conv b)"
  shows "inv d \<Longrightarrow> \<exists>xs d'. take_words gen conv count d = Some (xs, d') \<and> length xs = count \<and> (\<forall>x \<in> set xs. P x) \<and> inv d'"
proof (induction count arbitrary: d)
  case (Suc count)
  then obtain b d1 where g: "gen d = Some (b, d1)" "inv d1" using gen_total by blast
  then show ?case using Suc.IH [OF g(2)] assms by auto
qed simp

lemma take_doubles_values:
  assumes "\<And>b. P (conv b)"
  shows "inv d \<Longrightarrow> \<exists>xs d'. take_doubles gen conv count d = Some (xs, d') \<and> length xs = count \<and> (\<forall>x \<in> set xs. P x) \<and> inv d'"
proof (induction count arbitrary: d)
  case (Suc count)
  then obtain b d1 where g: "gen d = Some (b, d1)" "inv d1" using gen_total by blast
  obtain b' d2 where g': "gen d1 = Some (b', d2)" "inv d2" using gen_total [OF g(2)] by blast
  show ?case using g g' Suc.IH [OF g'(2)] assms by auto
qed simp

lemma generate_random_data_values:
  assumes "inv d" and t: "t \<in> set integer_types"
  shows "\<exists>xs d'. generate_random_data gen t count d = Some (xs, d') \<and> length xs = count \<and>
    (\<forall>x \<in> set xs. value_of_type t x) \<and> inv d'"
proof -
  obtain bits d1 where g: "gen d = Some (bits, d1)" "inv d1" using gen_total [OF assms(1)] by blast
  have s32: "value_of_type kInt (sint x)" "value_of_type kUInt (uint x)" "value_of_type kUnsignedInt (uint x)" for x :: u32
    using sint_range_size [of x] uint_range_size [of x]
    by (simp_all add: value_of_type_def type_min_def type_max_def signed_type_def word_size)
  have s64: "value_of_type kLong (sint x)" "value_of_type kULong (uint x)" "value_of_type kUnsignedLong (uint x)" for x :: u64
    using sint_range_size [of x] uint_range_size [of x]
    by (simp_all add: value_of_type_def type_min_def type_max_def signed_type_def word_size)
  consider "t \<in> {kChar, kUChar, kUnsignedChar}" "width t = 8" | "t \<in> {kShort, kUShort, kUnsignedShort}" "width t = 16"
    | "t = kInt" | "t \<in> {kUInt, kUnsignedInt}" | "t = kLong" | "t \<in> {kULong, kUnsignedLong}"
    using t by (auto simp: integer_types_def)
  then show ?thesis
  proof cases
    case 1
    then show ?thesis
      using g take_bits_values [where P = "value_of_type t" and conv = "bits_value t" and w = 8, OF _ g(2)]
        bits_value_narrow [OF t] by (auto simp: generate_random_data_def)
  next
    case 2
    then show ?thesis
      using g take_bits_values [where P = "value_of_type t" and conv = "bits_value t" and w = 16, OF _ g(2)]
        bits_value_narrow [OF t] by (auto simp: generate_random_data_def)
  next
    case 3
    then show ?thesis
      using g take_words_values [where P = "value_of_type t" and conv = sint, OF _ g(2)] s32
      by (auto simp: generate_random_data_def)
  next
    case 4
    then show ?thesis
      using g take_words_values [where P = "value_of_type t" and conv = uint, OF _ g(2)] s32
      by (auto simp: generate_random_data_def)
  next
    case 5
    then show ?thesis
      using g take_doubles_values [where P = "value_of_type t" and conv = sint, OF _ g(2)] s64
      by (auto simp: generate_random_data_def)
  next
    case 6
    then show ?thesis
      using g take_doubles_values [where P = "value_of_type t" and conv = uint, OF _ g(2)] s64
      by (auto simp: generate_random_data_def)
  qed
qed

end

end
