(* ===== verification/IntegerHarness.thy ===== *)
theory IntegerHarness
  imports IntegerMul RandomValues ParseParameters
begin

text \<open>
  The harness of \<^verbatim>\<open>integer_ops/test_integers.cpp\<close>: for each type and vector size it builds a
  kernel, fills its arguments with random values, runs it, and compares each result with a reference
  function of \<open>IntegerBuiltins\<close> and \<open>IntegerMul\<close>. The OpenCL implementation under test is
  a parameter (\<open>opencl\<close>), the source of random words too. What is shown is what a verdict of the
  harness says about the implementation.
\<close>

section \<open>The kernels\<close>

text \<open>\<^verbatim>\<open>sprintf\<close> for formats whose only directive is \<^verbatim>\<open>%s\<close>.\<close>

fun sprintf_s :: "string \<Rightarrow> string list \<Rightarrow> string" where
  "sprintf_s [] args = []"
| "sprintf_s (c # cs) args =
     (if c = CHR ''%'' \<and> cs \<noteq> [] \<and> hd cs = CHR ''s'' \<and> args \<noteq> []
      then hd args @ sprintf_s (tl cs) (tl args) else c # sprintf_s cs args)"

definition text_lines :: "string list \<Rightarrow> string" where
  "text_lines ls = concat (map (\<lambda>l. l @ [CHR 0x0A]) ls)"

definition singleParamIntegerKernelSourcePattern :: string where
  "singleParamIntegerKernelSourcePattern = text_lines
    [''__kernel void sample_test(__global %s *sourceA, __global %s *destValues)'',
     ''{'',
     ''    int  tid = get_global_id(0);'',
     ''    %s%s tmp = vload%s( tid, destValues );'',
     ''    tmp %s= %s( vload%s( tid, sourceA ) );'',
     ''    vstore%s( tmp, tid, destValues );'',
     '''',
     ''}'']"

definition singleParamSingleSizeIntegerKernelSourcePattern :: string where
  "singleParamSingleSizeIntegerKernelSourcePattern = text_lines
    [''__kernel void sample_test(__global %s *sourceA, __global %s *destValues)'',
     ''{'',
     ''    int  tid = get_global_id(0);'',
     ''    destValues[tid] %s= %s( sourceA[tid] );'',
     ''}'']"

definition twoParamIntegerKernelSourcePattern :: string where
  "twoParamIntegerKernelSourcePattern = text_lines
    [''__kernel void sample_test(__global %s%s *sourceA, __global %s%s *sourceB, __global %s%s *destValues)'',
     ''{'',
     ''    int  tid = get_global_id(0);'',
     ''    %s%s sA = %s;'',
     ''    %s%s sB = %s;'',
     ''    %s%s dst = %s( sA, sB );'',
     ''     %s;'',
     '''',
     ''}'']"

definition threeParamIntegerKernelSourcePattern :: string where
  "threeParamIntegerKernelSourcePattern = text_lines
    [''__kernel void sample_test(__global %s%s *sourceA, __global %s%s *sourceB, __global %s%s *sourceC, __global %s%s *destValues)'',
     ''{'',
     ''    int  tid = get_global_id(0);'',
     ''    %s%s sA = %s;'',
     ''    %s%s sB = %s;'',
     ''    %s%s sC = %s;'',
     ''    %s%s dst = %s( sA, sB, sC );'',
     ''     %s;'',
     '''',
     ''}'']"

definition build_load_statement :: "nat \<Rightarrow> string \<Rightarrow> string" where
  "build_load_statement vecSize var =
     (if vecSize \<noteq> 3 then sprintf_s ''%s[ tid ]'' [var] else sprintf_s ''vload3( tid, %s )'' [var])"

definition build_store_statement :: "nat \<Rightarrow> string \<Rightarrow> string \<Rightarrow> string" where
  "build_store_statement vecSize var srcName =
     (if vecSize \<noteq> 3 then sprintf_s ''%s[ tid ] = %s'' [var, srcName]
      else sprintf_s ''vstore3( %s, tid, %s )'' [srcName, var])"

section \<open>The implementation under test\<close>

text \<open>
  What the harness asks of the implementation: to build a kernel from its source (0 for success);
  to create a buffer, by the position of the argument; and to run the kernel on the
  values of its arguments, where \<open>Inl\<close> is the code that the harness returns when a call
  fails, and \<open>Inr\<close> has the values read back.
\<close>

record opencl =
  create_kernel :: "string \<Rightarrow> int"
  create_buffer :: "string \<Rightarrow> nat \<Rightarrow> bool"
  execute :: "string \<Rightarrow> int list list \<Rightarrow> int + int list"

definition TEST_SIZE :: nat where "TEST_SIZE = 512"

text \<open>Types whose name contains \<^verbatim>\<open>long\<close> are skipped on devices without them.\<close>

definition skipped_type :: "bool \<Rightarrow> ExplicitType \<Rightarrow> bool" where
  "skipped_type gHasLong t \<longleftrightarrow> \<not> gHasLong \<and> strstr_from 0 (get_explicit_type_name t) ''long'' \<noteq> None"

section \<open>One argument, or an assignment operator\<close>

text \<open>The functions of type \<^verbatim>\<open>singleParamIntegerVerifyFn\<close>, which the harness compares by address.\<close>

datatype singleParamIntegerVerifyFn =
    Clz | Ctz | AddAssign | SubtractAssign | MultiplyAssign | ExclusiveOrAssign | OrAssign | AndAssign
  | DivideAssign | ModuloAssign

fun single_verify :: "singleParamIntegerVerifyFn \<Rightarrow> ExplicitType \<Rightarrow> int \<Rightarrow> int \<Rightarrow> int option" where
  "single_verify Clz t source destination = verify_integer_clz t source"
| "single_verify Ctz t source destination = verify_integer_ctz t source"
| "single_verify AddAssign t source destination = verify_integer_addAssign t source destination"
| "single_verify SubtractAssign t source destination = verify_integer_subtractAssign t source destination"
| "single_verify MultiplyAssign t source destination = verify_integer_multiplyAssign t source destination"
| "single_verify ExclusiveOrAssign t source destination = verify_integer_exclusiveOrAssign t source destination"
| "single_verify OrAssign t source destination = verify_integer_orAssign t source destination"
| "single_verify AndAssign t source destination = verify_integer_andAssign t source destination"
| "single_verify DivideAssign t source destination = verify_integer_divideAssign t source destination"
| "single_verify ModuloAssign t source destination = verify_integer_moduloAssign t source destination"

definition single_kernel_source :: "string \<Rightarrow> ExplicitType \<Rightarrow> nat \<Rightarrow> bool \<Rightarrow> string" where
  "single_kernel_source fnName vecType vecSize useOpKernel =
     (let sizeName = (if vecSize = 1 then '''' else decimal vecSize);
          typeName = get_explicit_type_name vecType;
          operator = (if useOpKernel then fnName else '''');
          function = (if useOpKernel then '''' else fnName)
      in if vecSize = 1 then sprintf_s singleParamSingleSizeIntegerKernelSourcePattern
           [typeName, typeName, operator, function]
         else sprintf_s singleParamIntegerKernelSourcePattern
           [typeName, typeName, typeName, sizeName, sizeName, operator, function, sizeName, sizeName])"

text \<open>
  The two loops over vectors and their elements walk the values in order; \<open>expected\<close> keeps its
  value when the reference does not store one, as its result is not looked at. \<open>None\<close> is a
  read beyond an array.
\<close>

function single_compare :: "singleParamIntegerVerifyFn \<Rightarrow> ExplicitType \<Rightarrow> bool \<Rightarrow> int list \<Rightarrow> int list \<Rightarrow> int list \<Rightarrow>
    nat \<Rightarrow> nat \<Rightarrow> int \<Rightarrow> int option" where
  "single_compare verifyFn t useOpKernel inA inB out n k expected =
     (if k < n then do {
        expected \<leftarrow> (if useOpKernel then rd inB k else Some expected);
        source \<leftarrow> rd inA k;
        p \<leftarrow> rd out k;
        let expected = (case single_verify verifyFn t source expected of None \<Rightarrow> expected | Some x \<Rightarrow> x);
        if expected \<noteq> p then Some (- 1)
        else single_compare verifyFn t useOpKernel inA inB out n (k + 1) expected
      } else Some 0)"
  by pat_completeness auto
termination
  by (relation "measure (\<lambda>(_, _, _, _, _, _, n, k, _). n - k)") auto

declare single_compare.simps [simp del]

text \<open>The variable \<open>expected\<close> is not initialised; its first value is an argument.\<close>

definition test_single_param_integer_kernel ::
    "('s \<Rightarrow> (u32 \<times> 's) option) \<Rightarrow> opencl \<Rightarrow> bool \<Rightarrow> int \<Rightarrow> string \<Rightarrow> singleParamIntegerVerifyFn \<Rightarrow> bool \<Rightarrow>
     ExplicitType \<Rightarrow> nat \<Rightarrow> 's \<Rightarrow> (int \<times> 's) option" where
  "test_single_param_integer_kernel gen cl gHasLong expected fnName verifyFn useOpKernel vecType vecSize d =
     (let kernelSource = single_kernel_source fnName vecType vecSize useOpKernel;
          count = vecSize * TEST_SIZE
      in if skipped_type gHasLong vecType then Some (0, d)
      else if create_kernel cl kernelSource \<noteq> 0 then Some (- 1, d)
      else do {
        (inDataA, d) \<leftarrow> generate_random_data gen vecType count d;
        if \<not> create_buffer cl kernelSource 0 then Some (- 1, d)
        else do {
          (inDataB, d) \<leftarrow> (if useOpKernel then generate_random_data gen vecType count d else Some ([], d));
          if \<not> create_buffer cl kernelSource 1 then Some (- 1, d)
          else case execute cl kernelSource (if useOpKernel then [inDataA, inDataB] else [inDataA]) of
            Inl error \<Rightarrow> Some (error, d)
          | Inr outData \<Rightarrow> do {
              outData \<leftarrow> (if verifyFn = DivideAssign \<or> verifyFn = ModuloAssign
                then patchup_divide_results outData inDataA inDataB (TEST_SIZE * vecSize) vecType
                else Some outData);
              r \<leftarrow> single_compare verifyFn vecType useOpKernel inDataA inDataB outData (TEST_SIZE * vecSize) 0 expected;
              Some (r, d) } } })"

text \<open>The loop over the types and vector sizes; a failure is remembered, and the loop goes on.\<close>

fun run_kernels :: "('k \<Rightarrow> 's \<Rightarrow> (int \<times> 's) option) \<Rightarrow> 'k list \<Rightarrow> int \<Rightarrow> 's \<Rightarrow> (int \<times> 's) option" where
  "run_kernels run [] retVal d = Some (retVal, d)"
| "run_kernels run (k # ks) retVal d = do {
     (r, d) \<leftarrow> run k d;
     run_kernels run ks (if r \<noteq> 0 then - 1 else retVal) d }"

definition vecSizes :: "nat list" where "vecSizes = [1, 2, 3, 4, 8, 16]"

definition types_and_sizes :: "bool \<Rightarrow> (ExplicitType \<times> nat) list" where
  "types_and_sizes gHasLong =
     [(t, v). t \<leftarrow> tested_types, \<not> ((t = kLong \<or> t = kULong) \<and> \<not> gHasLong), v \<leftarrow> vecSizes]"

definition test_single_param_integer_fn ::
    "('s \<Rightarrow> (u32 \<times> 's) option) \<Rightarrow> opencl \<Rightarrow> bool \<Rightarrow> int \<Rightarrow> string \<Rightarrow> singleParamIntegerVerifyFn \<Rightarrow> bool \<Rightarrow>
     's \<Rightarrow> (int \<times> 's) option" where
  "test_single_param_integer_fn gen cl gHasLong expected fnName verifyFn useOpKernel d =
     run_kernels (\<lambda>(t, v). test_single_param_integer_kernel gen cl gHasLong expected fnName verifyFn useOpKernel t v)
       (types_and_sizes gHasLong) 0 d"

section \<open>Two arguments\<close>

datatype twoParamIntegerVerifyFn = Hadd | Rhadd | Min | Max | MulHi | Rotate

fun two_verify :: "twoParamIntegerVerifyFn \<Rightarrow> ExplicitType \<Rightarrow> int \<Rightarrow> int \<Rightarrow> int option" where
  "two_verify Hadd t a b = verify_integer_hadd t a b"
| "two_verify Rhadd t a b = verify_integer_rhadd t a b"
| "two_verify Min t a b = verify_integer_min t a b"
| "two_verify Max t a b = verify_integer_max t a b"
| "two_verify MulHi t a b = verify_integer_mul_hi t a b"
| "two_verify Rotate t a b = verify_integer_rotate t a b"

text \<open>The name of a vector size, and that in the type of a parameter, where size 3 is read by \<^verbatim>\<open>vload3\<close>.\<close>

definition size_name :: "nat \<Rightarrow> string" where
  "size_name vecSize = (if vecSize = 1 then '''' else decimal vecSize)"

definition param_size_name :: "nat \<Rightarrow> string" where
  "param_size_name vecSize = (if vecSize = 1 \<or> vecSize = 3 then '''' else decimal vecSize)"

definition two_kernel_source :: "string \<Rightarrow> ExplicitType \<Rightarrow> ExplicitType \<Rightarrow> nat \<Rightarrow> string" where
  "two_kernel_source fnName vecAType vecBType vecSize =
     (let a = get_explicit_type_name vecAType; b = get_explicit_type_name vecBType;
          sizeName = size_name vecSize; paramSizeName = param_size_name vecSize
      in sprintf_s twoParamIntegerKernelSourcePattern
        [a, paramSizeName, b, paramSizeName, a, paramSizeName,
         a, sizeName, build_load_statement vecSize ''sourceA'',
         b, sizeName, build_load_statement vecSize ''sourceB'',
         a, sizeName, fnName,
         build_store_statement vecSize ''destValues'' ''dst''])"

text \<open>Results for which the reference function returns false are not compared.\<close>

function two_compare :: "(int \<Rightarrow> int \<Rightarrow> int option) \<Rightarrow> int list \<Rightarrow> int list \<Rightarrow> int list \<Rightarrow> nat \<Rightarrow> nat \<Rightarrow> int option" where
  "two_compare verifyFn inA inB out n k =
     (if k < n then do {
        a \<leftarrow> rd inA k; b \<leftarrow> rd inB k; p \<leftarrow> rd out k;
        case verifyFn a b of
          None \<Rightarrow> two_compare verifyFn inA inB out n (k + 1)
        | Some expected \<Rightarrow> if expected \<noteq> p then Some (- 1) else two_compare verifyFn inA inB out n (k + 1)
      } else Some 0)"
  by pat_completeness auto
termination
  by (relation "measure (\<lambda>(_, _, _, _, n, k). n - k)") auto

declare two_compare.simps [simp del]

definition test_two_param_integer_kernel ::
    "('s \<Rightarrow> (u32 \<times> 's) option) \<Rightarrow> opencl \<Rightarrow> bool \<Rightarrow> string \<Rightarrow> ExplicitType \<Rightarrow> ExplicitType \<Rightarrow> nat \<Rightarrow>
     twoParamIntegerVerifyFn \<Rightarrow> 's \<Rightarrow> (int \<times> 's) option" where
  "test_two_param_integer_kernel gen cl gHasLong fnName vecAType vecBType vecSize verifyFn d =
     (let kernelSource = two_kernel_source fnName vecAType vecBType vecSize;
          count = vecSize * TEST_SIZE
      in if skipped_type gHasLong vecAType then Some (0, d)
      else if create_kernel cl kernelSource \<noteq> 0 then Some (- 1, d)
      else do {
        (inDataA, d) \<leftarrow> generate_random_data gen vecAType count d;
        (inDataB, d) \<leftarrow> generate_random_data gen vecBType count d;
        if \<not> (\<forall>i < 3. create_buffer cl kernelSource i) then Some (- 1, d)
        else case execute cl kernelSource [inDataA, inDataB] of
          Inl error \<Rightarrow> Some (error, d)
        | Inr outData \<Rightarrow> do {
            r \<leftarrow> two_compare (two_verify verifyFn vecAType) inDataA inDataB outData count 0;
            Some (r, d) } })"

definition test_two_param_integer_fn ::
    "('s \<Rightarrow> (u32 \<times> 's) option) \<Rightarrow> opencl \<Rightarrow> bool \<Rightarrow> string \<Rightarrow> twoParamIntegerVerifyFn \<Rightarrow> 's \<Rightarrow> (int \<times> 's) option" where
  "test_two_param_integer_fn gen cl gHasLong fnName verifyFn d =
     run_kernels (\<lambda>(t, v). test_two_param_integer_kernel gen cl gHasLong fnName t t v verifyFn)
       (types_and_sizes gHasLong) 0 d"

text \<open>The variant with two types, which no test uses.\<close>

definition test_two_param_unmatched_integer_fn ::
    "('s \<Rightarrow> (u32 \<times> 's) option) \<Rightarrow> opencl \<Rightarrow> bool \<Rightarrow> string \<Rightarrow> twoParamIntegerVerifyFn \<Rightarrow> 's \<Rightarrow> (int \<times> 's) option" where
  "test_two_param_unmatched_integer_fn gen cl gHasLong fnName verifyFn d =
     (let types = [t. t \<leftarrow> tested_types, \<not> ((t = kLong \<or> t = kULong) \<and> \<not> gHasLong)]
      in run_kernels (\<lambda>(a, b, v). test_two_param_integer_kernel gen cl gHasLong fnName a b v verifyFn)
        [(a, b, v). a \<leftarrow> types, b \<leftarrow> types, v \<leftarrow> [1, 2, 4, 8, 16]] 0 d)"

section \<open>Three arguments\<close>

datatype threeParamIntegerVerifyFn = Clamp | MadSat | MadHi

fun three_verify :: "threeParamIntegerVerifyFn \<Rightarrow> ExplicitType \<Rightarrow> int \<Rightarrow> int \<Rightarrow> int \<Rightarrow> int option" where
  "three_verify Clamp t a b c = verify_integer_clamp t a b c"
| "three_verify MadSat t a b c = verify_integer_mad_sat t a b c"
| "three_verify MadHi t a b c = verify_integer_mad_hi t a b c"

definition three_kernel_source :: "string \<Rightarrow> ExplicitType \<Rightarrow> ExplicitType \<Rightarrow> ExplicitType \<Rightarrow> ExplicitType \<Rightarrow> nat \<Rightarrow> string" where
  "three_kernel_source fnName vecAType vecBType vecCType destType vecSize =
     (let a = get_explicit_type_name vecAType; b = get_explicit_type_name vecBType;
          c = get_explicit_type_name vecCType; dest = get_explicit_type_name destType;
          sizeName = size_name vecSize; paramSizeName = param_size_name vecSize
      in sprintf_s threeParamIntegerKernelSourcePattern
        [a, paramSizeName, b, paramSizeName, c, paramSizeName, dest, paramSizeName,
         a, sizeName, build_load_statement vecSize ''sourceA'',
         b, sizeName, build_load_statement vecSize ''sourceB'',
         c, sizeName, build_load_statement vecSize ''sourceC'',
         dest, sizeName, fnName,
         build_store_statement vecSize ''destValues'' ''dst''])"

function three_compare ::
    "(int \<Rightarrow> int \<Rightarrow> int \<Rightarrow> int option) \<Rightarrow> int list \<Rightarrow> int list \<Rightarrow> int list \<Rightarrow> int list \<Rightarrow> nat \<Rightarrow> nat \<Rightarrow> int option" where
  "three_compare verifyFn inA inB inC out n k =
     (if k < n then do {
        a \<leftarrow> rd inA k; b \<leftarrow> rd inB k; c \<leftarrow> rd inC k; p \<leftarrow> rd out k;
        case verifyFn a b c of
          None \<Rightarrow> three_compare verifyFn inA inB inC out n (k + 1)
        | Some expected \<Rightarrow> if expected \<noteq> p then Some (- 1) else three_compare verifyFn inA inB inC out n (k + 1)
      } else Some 0)"
  by pat_completeness auto
termination
  by (relation "measure (\<lambda>(_, _, _, _, _, n, k). n - k)") auto

declare three_compare.simps [simp del]

definition test_three_param_integer_kernel ::
    "('s \<Rightarrow> (u32 \<times> 's) option) \<Rightarrow> opencl \<Rightarrow> bool \<Rightarrow> string \<Rightarrow> ExplicitType \<Rightarrow> ExplicitType \<Rightarrow> ExplicitType \<Rightarrow> ExplicitType \<Rightarrow>
     nat \<Rightarrow> threeParamIntegerVerifyFn \<Rightarrow> 's \<Rightarrow> (int \<times> 's) option" where
  "test_three_param_integer_kernel gen cl gHasLong fnName vecAType vecBType vecCType destType vecSize verifyFn d =
     (let kernelSource = three_kernel_source fnName vecAType vecBType vecCType destType vecSize;
          count = vecSize * TEST_SIZE
      in if skipped_type gHasLong vecAType then Some (0, d)
      else if create_kernel cl kernelSource \<noteq> 0 then Some (- 1, d)
      else do {
        (inDataA, d) \<leftarrow> generate_random_data gen vecAType count d;
        (inDataB, d) \<leftarrow> generate_random_data gen vecBType count d;
        (inDataC, d) \<leftarrow> generate_random_data gen vecCType count d;
        if \<not> (\<forall>i < 4. create_buffer cl kernelSource i) then Some (- 1, d)
        else case execute cl kernelSource [inDataA, inDataB, inDataC] of
          Inl error \<Rightarrow> Some (error, d)
        | Inr outData \<Rightarrow> do {
            r \<leftarrow> three_compare (three_verify verifyFn vecAType) inDataA inDataB inDataC outData count 0;
            Some (r, d) } })"

definition test_three_param_integer_fn ::
    "('s \<Rightarrow> (u32 \<times> 's) option) \<Rightarrow> opencl \<Rightarrow> bool \<Rightarrow> string \<Rightarrow> threeParamIntegerVerifyFn \<Rightarrow> 's \<Rightarrow> (int \<times> 's) option" where
  "test_three_param_integer_fn gen cl gHasLong fnName verifyFn d =
     run_kernels (\<lambda>(t, v). test_three_param_integer_kernel gen cl gHasLong fnName t t t t v verifyFn)
       (types_and_sizes gHasLong) 0 d"

section \<open>The inputs that are drawn\<close>

text \<open>The arrays of random values for one kernel, and for all kernels of a test.\<close>

fun draw_arrays :: "('s \<Rightarrow> (u32 \<times> 's) option) \<Rightarrow> nat \<Rightarrow> ExplicitType \<times> nat \<Rightarrow> 's \<Rightarrow> (int list list \<times> 's) option" where
  "draw_arrays gen 0 k d = Some ([], d)"
| "draw_arrays gen (Suc m) k d = do {
     (A, d) \<leftarrow> generate_random_data gen (fst k) (snd k * TEST_SIZE) d;
     (As, d) \<leftarrow> draw_arrays gen m k d;
     Some (A # As, d) }"

fun draw_inputs ::
    "('s \<Rightarrow> (u32 \<times> 's) option) \<Rightarrow> nat \<Rightarrow> (ExplicitType \<times> nat) list \<Rightarrow> 's \<Rightarrow>
     (((ExplicitType \<times> nat) \<times> int list list) list \<times> 's) option" where
  "draw_inputs gen m [] d = Some ([], d)"
| "draw_inputs gen m (k # ks) d = do {
     (As, d) \<leftarrow> draw_arrays gen m k d;
     (runs, d) \<leftarrow> draw_inputs gen m ks d;
     Some ((k, As) # runs, d) }"

definition typed_array :: "ExplicitType \<times> nat \<Rightarrow> int list \<Rightarrow> bool" where
  "typed_array k A \<longleftrightarrow> length A = snd k * TEST_SIZE \<and> (\<forall>x \<in> set A. value_of_type (fst k) x)"

context random_source
begin

lemma draw_arrays_typed:
  "inv d \<Longrightarrow> fst k \<in> set integer_types \<Longrightarrow>
     \<exists>As d'. draw_arrays gen m k d = Some (As, d') \<and> length As = m \<and> (\<forall>A \<in> set As. typed_array k A) \<and> inv d'"
proof (induction m arbitrary: d)
  case (Suc m)
  obtain A d1 where A: "generate_random_data gen (fst k) (snd k * TEST_SIZE) d = Some (A, d1)" "typed_array k A" "inv d1"
    using generate_random_data_values [OF Suc.prems] unfolding typed_array_def by blast
  then show ?case using Suc.IH [OF A(3) Suc.prems(2)] by auto
qed simp

text \<open>
  A test runs its kernels one by one. When each draws its inputs and passes if and only if
  \<open>passed\<close> holds of them, the test passes if and only if it holds for all.
\<close>

lemma run_kernels_verdict:
  assumes kernel: "\<And>k d As d'. k \<in> set ks \<Longrightarrow> inv d \<Longrightarrow> draw_arrays gen m k d = Some (As, d') \<Longrightarrow>
      length As = m \<Longrightarrow> \<forall>A \<in> set As. typed_array k A \<Longrightarrow> \<exists>r. run k d = Some (r, d') \<and> (r = 0 \<longleftrightarrow> passed k As)"
    and types: "\<And>k. k \<in> set ks \<Longrightarrow> fst k \<in> set integer_types"
  shows "inv d \<Longrightarrow> \<exists>runs r d'. draw_inputs gen m ks d = Some (runs, d') \<and> run_kernels run ks r0 d = Some (r, d') \<and>
    map fst runs = ks \<and> (\<forall>(k, As) \<in> set runs. length As = m \<and> (\<forall>A \<in> set As. typed_array k A)) \<and>
    (r = 0 \<longleftrightarrow> r0 = 0 \<and> (\<forall>(k, As) \<in> set runs. passed k As)) \<and> inv d'"
  using assms
proof (induction ks arbitrary: d r0)
  case (Cons k ks)
  obtain As d1 where As: "draw_arrays gen m k d = Some (As, d1)" "length As = m" "\<forall>A \<in> set As. typed_array k A" "inv d1"
    using draw_arrays_typed [OF Cons.prems(1) Cons.prems(3), of k m] by auto
  obtain r where r: "run k d = Some (r, d1)" "r = 0 \<longleftrightarrow> passed k As"
    using Cons.prems(2) [OF _ Cons.prems(1) As(1,2,3)] by auto
  have "\<exists>runs r' d'. draw_inputs gen m ks d1 = Some (runs, d') \<and>
      run_kernels run ks (if r \<noteq> 0 then - 1 else r0) d1 = Some (r', d') \<and>
      map fst runs = ks \<and> (\<forall>(k, As) \<in> set runs. length As = m \<and> (\<forall>A \<in> set As. typed_array k A)) \<and>
      (r' = 0 \<longleftrightarrow> (if r \<noteq> 0 then - 1 else r0) = 0 \<and> (\<forall>(k, As) \<in> set runs. passed k As)) \<and> inv d'"
    by (rule Cons.IH [OF As(4)]) (use Cons.prems(2,3) in auto)
  then obtain runs r' d' where "draw_inputs gen m ks d1 = Some (runs, d')"
      "run_kernels run ks (if r \<noteq> 0 then - 1 else r0) d1 = Some (r', d')"
      "map fst runs = ks" "\<forall>(k, As) \<in> set runs. length As = m \<and> (\<forall>A \<in> set As. typed_array k A)"
      "r' = 0 \<longleftrightarrow> (if r \<noteq> 0 then - 1 else r0) = 0 \<and> (\<forall>(k, As) \<in> set runs. passed k As)" "inv d'"
    by blast
  then show ?case using As r by (intro exI [of _ "(k, As) # runs"] exI [of _ r'] exI [of _ d']) auto
qed simp

end

end
