(* ===== verification/IntegerTests.thy ===== *)
theory IntegerTests
  imports IntegerHarness
begin

text \<open>
  What the tests of \<^verbatim>\<open>integer_ops/test_integers.cpp\<close> accept: the results that OpenCL C allows
  (\<open>single_right\<close>, \<open>two_right\<close>, \<open>three_right\<close>), and that a test passes if and only if
  every result of every kernel is one of them. The theorems are for any random source here, and are
  stated for the Mersenne twister in \<open>IntegerVerdicts\<close>.
\<close>

section \<open>The tests\<close>

text \<open>The name of the function or operator under test, and whether it is an operator.\<close>

fun single_test :: "singleParamIntegerVerifyFn \<Rightarrow> string \<times> bool" where
  "single_test Clz = (''clz'', False)"
| "single_test Ctz = (''ctz'', False)"
| "single_test AddAssign = (''+'', True)"
| "single_test SubtractAssign = (''-'', True)"
| "single_test MultiplyAssign = (''*'', True)"
| "single_test ExclusiveOrAssign = (''^'', True)"
| "single_test OrAssign = (''|'', True)"
| "single_test AndAssign = (''&'', True)"
| "single_test DivideAssign = (''/'', True)"
| "single_test ModuloAssign = (''%'', True)"

fun two_test :: "twoParamIntegerVerifyFn \<Rightarrow> string" where
  "two_test Hadd = ''hadd''"
| "two_test Rhadd = ''rhadd''"
| "two_test Min = ''min''"
| "two_test Max = ''max''"
| "two_test MulHi = ''mul_hi''"
| "two_test Rotate = ''rotate''"

fun three_test :: "threeParamIntegerVerifyFn \<Rightarrow> string" where
  "three_test Clamp = ''clamp''"
| "three_test MadSat = ''mad_sat''"
| "three_test MadHi = ''mad_hi''"

section \<open>Right results\<close>

definition wraps_to :: "ExplicitType \<Rightarrow> int \<Rightarrow> int \<Rightarrow> bool" where
  "wraps_to t r v \<longleftrightarrow> r mod 2 ^ width t = v mod 2 ^ width t"

fun single_right :: "singleParamIntegerVerifyFn \<Rightarrow> ExplicitType \<Rightarrow> int \<Rightarrow> int \<Rightarrow> int \<Rightarrow> bool" where
  "single_right Clz t a b r \<longleftrightarrow> (\<exists>c \<le> width t. r = int c \<and>
     (if a = 0 then c = width t
      else 2 ^ (width t - 1 - c) \<le> unsigned_value t a \<and> unsigned_value t a < 2 ^ (width t - c)))"
| "single_right Ctz t a b r \<longleftrightarrow> (\<exists>c \<le> width t. r = int c \<and>
     (if a = 0 then c = width t else c < width t \<and> 2 ^ c dvd a \<and> \<not> 2 ^ (c + 1) dvd a))"
| "single_right AddAssign t a b r \<longleftrightarrow> wraps_to t r (b + a)"
| "single_right SubtractAssign t a b r \<longleftrightarrow> wraps_to t r (b - a)"
| "single_right MultiplyAssign t a b r \<longleftrightarrow> wraps_to t r (b * a)"
| "single_right ExclusiveOrAssign t a b r \<longleftrightarrow> (\<forall>i < width t. bit r i \<longleftrightarrow> bit b i \<noteq> bit a i)"
| "single_right OrAssign t a b r \<longleftrightarrow> (\<forall>i < width t. bit r i \<longleftrightarrow> bit b i \<or> bit a i)"
| "single_right AndAssign t a b r \<longleftrightarrow> (\<forall>i < width t. bit r i \<longleftrightarrow> bit b i \<and> bit a i)"
| "single_right DivideAssign t a b r \<longleftrightarrow> (division_defined t b a \<longrightarrow> r = b sdiv a)"
| "single_right ModuloAssign t a b r \<longleftrightarrow> (division_defined t b a \<longrightarrow> r = b smod a)"

fun two_right :: "twoParamIntegerVerifyFn \<Rightarrow> ExplicitType \<Rightarrow> int \<Rightarrow> int \<Rightarrow> int \<Rightarrow> bool" where
  "two_right Hadd t a b r \<longleftrightarrow> r = (a + b) div 2"
| "two_right Rhadd t a b r \<longleftrightarrow> r = (a + b + 1) div 2"
| "two_right Min t a b r \<longleftrightarrow> r = min a b"
| "two_right Max t a b r \<longleftrightarrow> r = max a b"
| "two_right MulHi t a b r \<longleftrightarrow> r = a * b div 2 ^ width t"
| "two_right Rotate t a b r \<longleftrightarrow>
     (\<forall>i < width t. bit r ((i + nat (b mod int (width t))) mod width t) = bit a i)"

fun three_right :: "threeParamIntegerVerifyFn \<Rightarrow> ExplicitType \<Rightarrow> int \<Rightarrow> int \<Rightarrow> int \<Rightarrow> int \<Rightarrow> bool" where
  "three_right Clamp t a b c r \<longleftrightarrow> (b \<le> c \<longrightarrow> r = max b (min a c))"
| "three_right MadSat t a b c r \<longleftrightarrow> r = clamped t (a * b + c)"
| "three_right MadHi t a b c r \<longleftrightarrow> wraps_to t r (a * b div 2 ^ width t + c)"

section \<open>What a comparison accepts\<close>

lemma typed_eq_cast: "t \<in> set tested_types \<Longrightarrow> value_of_type t r \<Longrightarrow> cast t v = r \<longleftrightarrow> wraps_to t r v"
proof -
  assume t: "t \<in> set tested_types" "value_of_type t r"
  have "cast t v = r \<Longrightarrow> wraps_to t r v"
    using tested_width [OF t(1)] cast_congruent [of t v] by (auto simp: wraps_to_def)
  moreover have "cast t v = r" if "wraps_to t r v"
  proof -
    have "cast t v = cast t r" using that by (intro cast_equal) (simp add: wraps_to_def)
    then show ?thesis using tested_cast_id [OF t] by simp
  qed
  ultimately show ?thesis by blast
qed

lemma wraps_to_bits: "wraps_to t r v \<longleftrightarrow> (\<forall>i < width t. bit r i = bit v i)"
  by (auto simp: wraps_to_def bit_eq_iff bit_take_bit_iff simp flip: take_bit_eq_mod)

lemma typed_eq_bits:
  assumes "t \<in> set tested_types" "value_of_type t r" "value_of_type t r'"
  shows "r = r' \<longleftrightarrow> (\<forall>i < width t. bit r i = bit r' i)"
  using typed_eq_cast [OF assms(1,2), of r'] tested_cast_id [OF assms(1,3)] by (auto simp: wraps_to_bits)

lemma leading_unique:
  assumes "2 ^ (w - 1 - c) \<le> u" "u < (2 :: int) ^ (w - c)" "2 ^ (w - 1 - c') \<le> u" "u < 2 ^ (w - c')"
  shows "\<not> c < c'"
proof
  assume "c < c'"
  then have "(2 :: int) ^ (w - c') \<le> 2 ^ (w - 1 - c)" by (intro power_increasing) simp_all
  with assms(1,4) show False by linarith
qed

lemma trailing_unique: "2 ^ c' dvd (a :: int) \<Longrightarrow> \<not> 2 ^ (c + 1) dvd a \<Longrightarrow> \<not> c < c'"
  using power_le_dvd [of 2 c' a "c + 1"] by auto

lemma zero_counts:
  assumes "t \<in> set tested_types" "value_of_type t a"
  shows "\<exists>x. verify_integer_clz t a = Some x \<and> (\<forall>b r. x = r \<longleftrightarrow> single_right Clz t a b r)"
    "\<exists>x. verify_integer_ctz t a = Some x \<and> (\<forall>b r. x = r \<longleftrightarrow> single_right Ctz t a b r)"
proof -
  obtain c where c: "c \<le> width t" "verify_integer_clz t a = Some (int c)"
    "if a = 0 then c = width t else 2 ^ (width t - 1 - c) \<le> unsigned_value t a \<and> unsigned_value t a < 2 ^ (width t - c)"
    using verify_clz [OF assms] by blast
  have "int c = r \<longleftrightarrow> single_right Clz t a b r" for b r
    using c(1,3) leading_unique by (auto split: if_splits) (meson linorder_neqE_nat)+
  then show "\<exists>x. verify_integer_clz t a = Some x \<and> (\<forall>b r. x = r \<longleftrightarrow> single_right Clz t a b r)"
    using c(2) by blast
  obtain c where c: "c \<le> width t" "verify_integer_ctz t a = Some (int c)"
    "if a = 0 then c = width t else c < width t \<and> 2 ^ c dvd a \<and> \<not> 2 ^ (c + 1) dvd a"
    using verify_ctz [OF assms] by blast
  have "int c = r \<longleftrightarrow> single_right Ctz t a b r" for b r
    using c(1,3) trailing_unique by (auto split: if_splits) (meson linorder_neqE_nat)+
  then show "\<exists>x. verify_integer_ctz t a = Some x \<and> (\<forall>b r. x = r \<longleftrightarrow> single_right Ctz t a b r)"
    using c(2) by blast
qed

text \<open>The value a result is compared with after \<^verbatim>\<open>patchup_divide_results\<close>.\<close>

definition patched :: "singleParamIntegerVerifyFn \<Rightarrow> ExplicitType \<Rightarrow> int \<Rightarrow> int \<Rightarrow> int \<Rightarrow> int" where
  "patched fn t a b r =
     (if (fn = DivideAssign \<or> fn = ModuloAssign) \<and> \<not> division_defined t b a then type_max t else r)"

lemma single_accepts:
  assumes t: "t \<in> set tested_types" "value_of_type t a" "value_of_type t b" "snd (single_test fn) \<longrightarrow> e = b"
  shows "\<exists>x. single_verify fn t a e = Some x \<and> (\<forall>r. value_of_type t r \<longrightarrow> (x = patched fn t a b r \<longleftrightarrow> single_right fn t a b r))"
proof -
  note assign = typed_eq_cast [OF t(1)] op_assign_def t(1)
  note bits = wraps_to_bits bit_simps
  show ?thesis
  proof (cases fn)
    case Clz
    obtain x where "verify_integer_clz t a = Some x" "\<forall>b r. x = r \<longleftrightarrow> single_right Clz t a b r"
      using zero_counts(1) [OF t(1,2)] by blast
    then show ?thesis using Clz by (intro exI [of _ x]) (simp add: patched_def del: single_right.simps)
  next
    case Ctz
    obtain x where "verify_integer_ctz t a = Some x" "\<forall>b r. x = r \<longleftrightarrow> single_right Ctz t a b r"
      using zero_counts(2) [OF t(1,2)] by blast
    then show ?thesis using Ctz by (intro exI [of _ x]) (simp add: patched_def del: single_right.simps)
  next
    case DivideAssign
    then show ?thesis using t(4) verify_divide(1) [OF t(1,3,2)] by (auto simp: patched_def)
  next
    case ModuloAssign
    then show ?thesis using t(4) verify_divide(2) [OF t(1,3,2)] by (auto simp: patched_def)
  qed (use t(4) in \<open>simp_all add: assign patched_def bits verify_integer_addAssign_def verify_integer_subtractAssign_def
    verify_integer_multiplyAssign_def verify_integer_exclusiveOrAssign_def verify_integer_orAssign_def verify_integer_andAssign_def\<close>)
qed

lemma rotated_bits:
  assumes "n \<le> w" "0 < (w :: nat)"
  shows "(\<forall>i < w. P ((i + n) mod w) i) \<longleftrightarrow> (\<forall>j < w. P j ((j + (w - n)) mod w))"
proof -
  have "((j + (w - n)) mod w + n) mod w = (j + (w - n) + n) mod w" for j by (rule mod_add_left_eq)
  then have 1: "((j + (w - n)) mod w + n) mod w = j" if "j < w" for j
    using assms that by simp
  have "((i + n) mod w + (w - n)) mod w = (i + n + (w - n)) mod w" for i by (rule mod_add_left_eq)
  then have 2: "((i + n) mod w + (w - n)) mod w = i" if "i < w" for i
    using assms that by simp
  show ?thesis using 1 2 assms(2) by (metis mod_less_divisor)
qed

lemma two_accepts:
  assumes t: "t \<in> set tested_types" "value_of_type t a" "value_of_type t b"
  shows "\<exists>x. two_verify fn t a b = Some x \<and> (\<forall>r. value_of_type t r \<longrightarrow> (x = r \<longleftrightarrow> two_right fn t a b r))"
proof (cases fn)
  case Rotate
  let ?w = "width t" and ?n = "nat (b mod int (width t))"
  obtain x where x: "verify_integer_rotate t a b = Some x" "value_of_type t x" "\<forall>i < ?w. bit x ((i + ?n) mod ?w) = bit a i"
    using verify_rotate [OF t(1)] by blast
  have w: "0 < ?w" using tested_width [OF t(1)] by simp
  have n: "?n \<le> ?w" using w by (simp add: nat_le_iff order_less_imp_le)
  have "x = r \<longleftrightarrow> two_right Rotate t a b r" if r: "value_of_type t r" for r
  proof -
    have "\<forall>j < ?w. bit x j = bit a ((j + (?w - ?n)) mod ?w)"
      using x(3) rotated_bits [OF n w, of "\<lambda>j i. bit x j = bit a i"] by blast
    moreover have "two_right Rotate t a b r \<longleftrightarrow> (\<forall>j < ?w. bit r j = bit a ((j + (?w - ?n)) mod ?w))"
      using rotated_bits [OF n w, of "\<lambda>j i. bit r j = bit a i"] by simp
    ultimately show ?thesis using typed_eq_bits [OF t(1) x(2) r] by auto
  qed
  then show ?thesis using x(1) Rotate by auto
qed (use verify_hadd [OF t] verify_min_max [OF t] verify_mul_hi [OF t] in auto)

text \<open>The sums for which the reference of \<^verbatim>\<open>mad_sat\<close> wraps.\<close>

definition mad_sat_wraps :: "ExplicitType \<Rightarrow> int \<Rightarrow> bool" where
  "mad_sat_wraps t s \<longleftrightarrow> t = kLong \<and> - (2 ^ 64) \<le> s \<and> s < 2 ^ 64 \<and> \<not> value_of_type kLong s"

lemma three_accepts:
  assumes t: "t \<in> set tested_types" "value_of_type t a" "value_of_type t b" "value_of_type t c"
    and sum: "fn = MadSat \<Longrightarrow> \<not> mad_sat_wraps t (a * b + c)" and r: "value_of_type t r"
  shows "(case three_verify fn t a b c of None \<Rightarrow> True | Some x \<Rightarrow> x = r) \<longleftrightarrow> three_right fn t a b c r"
proof (cases fn)
  case Clamp
  then show ?thesis using verify_clamp [OF t] by auto
next
  case MadSat
  then have "verify_integer_mad_sat t a b c = Some (clamped t (a * b + c))"
    using sum mad_sat_reference [OF t] by (simp add: mad_sat_wraps_def)
  then show ?thesis using MadSat by auto
next
  case MadHi
  then show ?thesis using verify_mad_hi [OF t] typed_eq_cast [OF t(1) r] by simp
qed

section \<open>What a kernel's verdict says\<close>

text \<open>
  An implementation that answers: the kernel is built, its buffers are created, and it
  returns as many values of the type as were asked for, whatever they are.
\<close>

definition answers :: "opencl \<Rightarrow> string \<Rightarrow> ExplicitType \<times> nat \<Rightarrow> bool" where
  "answers cl source k \<longleftrightarrow> create_kernel cl source = 0 \<and> (\<forall>i < 4. create_buffer cl source i) \<and>
     (\<forall>ins. ins \<noteq> [] \<and> (\<forall>A \<in> set ins. typed_array k A) \<longrightarrow> (\<exists>out. execute cl source ins = Inr out \<and> typed_array k out))"

definition results :: "opencl \<Rightarrow> string \<Rightarrow> int list list \<Rightarrow> int list" where
  "results cl source ins = (case execute cl source ins of Inl e \<Rightarrow> [] | Inr out \<Rightarrow> out)"

lemma answers_results:
  assumes "answers cl source k" "ins \<noteq> []" "\<forall>A \<in> set ins. typed_array k A"
  shows "execute cl source ins = Inr (results cl source ins)" "typed_array k (results cl source ins)"
proof -
  obtain out where "execute cl source ins = Inr out" "typed_array k out" using assms unfolding answers_def by blast
  then show "execute cl source ins = Inr (results cl source ins)" "typed_array k (results cl source ins)"
    by (simp_all add: results_def)
qed

lemma single_compare_verdict:
  assumes "\<And>j e. k \<le> j \<Longrightarrow> j < n \<Longrightarrow> single_verify fn t (A ! j) (if useOp then B ! j else e) = Some (E j)"
    and "n \<le> length A" "n \<le> length out" "useOp \<longrightarrow> n \<le> length B"
  shows "single_compare fn t useOp A B out n k e = Some (if \<forall>j. k \<le> j \<and> j < n \<longrightarrow> E j = out ! j then 0 else - 1)"
  using assms
proof (induction fn t useOp A B out n k e rule: single_compare.induct)
  case (1 fn t useOp A B out n k e)
  show ?case
  proof (cases "k < n")
    case False
    then show ?thesis by (subst single_compare.simps) simp
  next
    case True
    have v: "single_verify fn t (A ! k) (if useOp then B ! k else e) = Some (E k)" using "1.prems"(1) True by simp
    have all: "(\<forall>j. k \<le> j \<and> j < n \<longrightarrow> E j = out ! j) \<longleftrightarrow> E k = out ! k \<and> (\<forall>j. k + 1 \<le> j \<and> j < n \<longrightarrow> E j = out ! j)"
      using True by (auto simp: Suc_le_eq) (metis le_neq_implies_less)
    have step: "single_compare fn t useOp A B out n k e =
        (if E k \<noteq> out ! k then Some (- 1) else single_compare fn t useOp A B out n (k + 1) (E k))"
      using True "1.prems"(2-4) v by (subst single_compare.simps) (auto simp: Let_def)
    show ?thesis
    proof (cases "E k = out ! k")
      case False
      then show ?thesis unfolding step all by simp
    next
      case same: True
      have "single_compare fn t useOp A B out n (k + 1) (E k) =
          Some (if \<forall>j. k + 1 \<le> j \<and> j < n \<longrightarrow> E j = out ! j then 0 else - 1)"
        using True "1.prems" v by (intro "1.IH" [of "if useOp then B ! k else e" "A ! k" "out ! k"]) (auto simp: same)
      then show ?thesis unfolding step all using same by simp
    qed
  qed
qed

lemma two_compare_verdict:
  assumes "n \<le> length A" "n \<le> length B" "n \<le> length out"
  shows "two_compare f A B out n k = Some
    (if \<forall>j. k \<le> j \<and> j < n \<longrightarrow> (case f (A ! j) (B ! j) of None \<Rightarrow> True | Some x \<Rightarrow> x = out ! j) then 0 else - 1)"
  using assms
proof (induction "n - k" arbitrary: k)
  case 0
  then show ?case by (subst two_compare.simps) simp
next
  case (Suc d)
  let ?ok = "\<lambda>j. case f (A ! j) (B ! j) of None \<Rightarrow> True | Some x \<Rightarrow> x = out ! j"
  from Suc.hyps(2) have k: "k < n" by simp
  have all: "(\<forall>j. k \<le> j \<and> j < n \<longrightarrow> ?ok j) \<longleftrightarrow> ?ok k \<and> (\<forall>j. k + 1 \<le> j \<and> j < n \<longrightarrow> ?ok j)"
    using k by (auto simp: Suc_le_eq) (metis le_neq_implies_less)
  have step: "two_compare f A B out n k = (if ?ok k then two_compare f A B out n (k + 1) else Some (- 1))"
    using k assms by (subst two_compare.simps) (auto split: option.splits)
  have "two_compare f A B out n (k + 1) = Some (if \<forall>j. k + 1 \<le> j \<and> j < n \<longrightarrow> ?ok j then 0 else - 1)"
    using Suc.hyps(2) by (intro Suc.hyps(1)) (simp_all add: Suc.prems)
  then show ?case unfolding step all by auto
qed

lemma three_compare_verdict:
  assumes "n \<le> length A" "n \<le> length B" "n \<le> length C" "n \<le> length out"
  shows "three_compare f A B C out n k = Some
    (if \<forall>j. k \<le> j \<and> j < n \<longrightarrow> (case f (A ! j) (B ! j) (C ! j) of None \<Rightarrow> True | Some x \<Rightarrow> x = out ! j) then 0 else - 1)"
  using assms
proof (induction "n - k" arbitrary: k)
  case 0
  then show ?case by (subst three_compare.simps) simp
next
  case (Suc d)
  let ?ok = "\<lambda>j. case f (A ! j) (B ! j) (C ! j) of None \<Rightarrow> True | Some x \<Rightarrow> x = out ! j"
  from Suc.hyps(2) have k: "k < n" by simp
  have all: "(\<forall>j. k \<le> j \<and> j < n \<longrightarrow> ?ok j) \<longleftrightarrow> ?ok k \<and> (\<forall>j. k + 1 \<le> j \<and> j < n \<longrightarrow> ?ok j)"
    using k by (auto simp: Suc_le_eq) (metis le_neq_implies_less)
  have step: "three_compare f A B C out n k = (if ?ok k then three_compare f A B C out n (k + 1) else Some (- 1))"
    using k assms by (subst three_compare.simps) (auto split: option.splits)
  have "three_compare f A B C out n (k + 1) = Some (if \<forall>j. k + 1 \<le> j \<and> j < n \<longrightarrow> ?ok j then 0 else - 1)"
    using Suc.hyps(2) by (intro Suc.hyps(1)) (simp_all add: Suc.prems)
  then show ?case unfolding step all by auto
qed

section \<open>What a test's verdict says\<close>

lemma types_and_sizes_cases:
  "k \<in> set (types_and_sizes gHasLong) \<Longrightarrow>
     fst k \<in> set tested_types \<and> (gHasLong \<or> fst k \<noteq> kLong \<and> fst k \<noteq> kULong) \<and> snd k \<in> set vecSizes"
  by (auto simp: types_and_sizes_def)

lemma tested_not_skipped: "k \<in> set (types_and_sizes gHasLong) \<Longrightarrow> \<not> skipped_type gHasLong (fst k)"
  by (drule types_and_sizes_cases)
    (auto simp: skipped_type_def get_explicit_type_name_def table_at_def ExplicitTypes_def elim!: tested_cases)

definition single_passed :: "opencl \<Rightarrow> singleParamIntegerVerifyFn \<Rightarrow> ExplicitType \<times> nat \<Rightarrow> int list list \<Rightarrow> bool" where
  "single_passed cl fn k As \<longleftrightarrow>
     (let (name, useOpKernel) = single_test fn;
          out = results cl (single_kernel_source name (fst k) (snd k) useOpKernel) As
      in \<forall>i < snd k * TEST_SIZE.
        single_right fn (fst k) (As ! 0 ! i) (if useOpKernel then As ! 1 ! i else 0) (out ! i))"

definition two_passed :: "opencl \<Rightarrow> twoParamIntegerVerifyFn \<Rightarrow> ExplicitType \<times> nat \<Rightarrow> int list list \<Rightarrow> bool" where
  "two_passed cl fn k As \<longleftrightarrow>
     (let out = results cl (two_kernel_source (two_test fn) (fst k) (fst k) (snd k)) As
      in \<forall>i < snd k * TEST_SIZE. two_right fn (fst k) (As ! 0 ! i) (As ! 1 ! i) (out ! i))"

definition three_passed :: "opencl \<Rightarrow> threeParamIntegerVerifyFn \<Rightarrow> ExplicitType \<times> nat \<Rightarrow> int list list \<Rightarrow> bool" where
  "three_passed cl fn k As \<longleftrightarrow>
     (let out = results cl (three_kernel_source (three_test fn) (fst k) (fst k) (fst k) (fst k) (snd k)) As
      in \<forall>i < snd k * TEST_SIZE.
        (if fn = MadSat \<and> mad_sat_wraps (fst k) (As ! 0 ! i * As ! 1 ! i + As ! 2 ! i)
         then out ! i = to_Long (As ! 0 ! i * As ! 1 ! i + As ! 2 ! i)
         else three_right fn (fst k) (As ! 0 ! i) (As ! 1 ! i) (As ! 2 ! i) (out ! i)))"

lemma typed_nth: "typed_array k A \<Longrightarrow> i < snd k * TEST_SIZE \<Longrightarrow> value_of_type (fst k) (A ! i)"
  by (auto simp: typed_array_def)

text \<open>What is compared after the patch.\<close>

lemma patched_results:
  assumes t: "t \<in> set tested_types" and A: "typed_array (t, v) A" and out: "typed_array (t, v) out"
    and B: "snd (single_test fn) \<Longrightarrow> typed_array (t, v) B"
  shows "\<exists>out'. (if fn = DivideAssign \<or> fn = ModuloAssign then patchup_divide_results out A B (TEST_SIZE * v) t else Some out) = Some out' \<and>
    length out' = v * TEST_SIZE \<and> (\<forall>i < v * TEST_SIZE. out' ! i = patched fn t (A ! i) (B ! i) (out ! i))"
proof (cases "fn = DivideAssign \<or> fn = ModuloAssign")
  case True
  then have "typed_array (t, v) B" using B by auto
  then show ?thesis
    using True t A out patchup_results [OF t, of "TEST_SIZE * v" out A B]
    by (auto simp: typed_array_def patched_def mult.commute)
next
  case False
  then show ?thesis using out by (auto simp: patched_def typed_array_def)
qed

context random_source
begin

lemma single_kernel_verdict:
  assumes k: "k \<in> set (types_and_sizes gHasLong)"
    and cl: "answers cl (single_kernel_source (fst (single_test fn)) (fst k) (snd k) (snd (single_test fn))) k"
    and draw: "draw_arrays gen (if snd (single_test fn) then 2 else 1) k d = Some (As, d')" "\<forall>A \<in> set As. typed_array k A"
  shows "\<exists>r. test_single_param_integer_kernel gen cl gHasLong e (fst (single_test fn)) fn (snd (single_test fn)) (fst k) (snd k) d =
      Some (r, d') \<and> (r = 0 \<longleftrightarrow> single_passed cl fn k As)"
proof -
  let ?op = "snd (single_test fn)" and ?t = "fst k" and ?n = "snd k * TEST_SIZE"
  let ?src = "single_kernel_source (fst (single_test fn)) ?t (snd k) ?op"
  define out where "out = results cl ?src As"
  note t = types_and_sizes_cases [OF k, THEN conjunct1]
  obtain A B d1 where AB: "generate_random_data gen ?t ?n d = Some (A, d1)" "typed_array k A"
      "(if ?op then generate_random_data gen ?t ?n d1 else Some ([], d1)) = Some (B, d')"
      "As = (if ?op then [A, B] else [A])" "?op \<Longrightarrow> typed_array k B"
    using draw by (auto simp: numeral_2_eq_2 bind_eq_Some_conv split: if_splits)
  have As: "As \<noteq> []" using AB by (auto split: if_splits)
  have out: "execute cl ?src As = Inr out" "typed_array k out"
    using answers_results [OF cl As draw(2)] by (simp_all add: out_def)
  define b where "b = (\<lambda>i. if ?op then B ! i else 0)"
  have b: "value_of_type ?t (b i)" if "i < ?n" for i
    using that AB(5) typed_nth zero_in_type [OF t] by (auto simp: b_def)
  have patch: "\<exists>out'. (if fn = DivideAssign \<or> fn = ModuloAssign then patchup_divide_results out A B (TEST_SIZE * snd k) ?t else Some out) = Some out' \<and>
      length out' = ?n \<and> (\<forall>i < ?n. out' ! i = patched fn ?t (A ! i) (B ! i) (out ! i))"
    by (rule patched_results [OF t]) (use AB(2,5) out(2) in simp_all)
  then obtain out' where out': "(if fn = DivideAssign \<or> fn = ModuloAssign then patchup_divide_results out A B (TEST_SIZE * snd k) ?t else Some out) = Some out'"
      "length out' = ?n" "\<forall>i < ?n. out' ! i = patched fn ?t (A ! i) (B ! i) (out ! i)"
    by blast
  have out'_b: "out' ! i = patched fn ?t (A ! i) (b i) (out ! i)" if "i < ?n" for i
    using that out'(3) by (cases fn) (auto simp: b_def patched_def)
  define E where "E = (\<lambda>i. the (single_verify fn ?t (A ! i) (b i)))"
  have E: "single_verify fn ?t (A ! i) e' = Some (E i) \<and> (E i = out' ! i \<longleftrightarrow> single_right fn ?t (A ! i) (b i) (out ! i))"
    if "i < ?n" "?op \<longrightarrow> e' = b i" for i e'
  proof -
    have a: "value_of_type ?t (A ! i)" "value_of_type ?t (out ! i)" using typed_nth [OF AB(2) that(1)] typed_nth [OF out(2) that(1)] .
    have "single_verify fn ?t (A ! i) e' = single_verify fn ?t (A ! i) (b i)"
      using that(2) by (cases fn) simp_all
    then show ?thesis
      using single_accepts [OF t a(1) b [OF that(1)], of fn "b i"] a(2) out'_b [OF that(1)] by (auto simp: E_def)
  qed
  have "single_compare fn ?t ?op A B out' ?n 0 e = Some (if \<forall>j. 0 \<le> j \<and> j < ?n \<longrightarrow> E j = out' ! j then 0 else - 1)"
    by (rule single_compare_verdict) (use AB(2,5) out'(2) E in \<open>auto simp: typed_array_def b_def\<close>)
  moreover have "(\<forall>j. 0 \<le> j \<and> j < ?n \<longrightarrow> E j = out' ! j) \<longleftrightarrow> single_passed cl fn k As"
    using E [of _ "b _"] AB(4) unfolding single_passed_def Let_def
    by (cases "single_test fn") (auto simp: out_def b_def)
  moreover have "create_kernel cl ?src = 0" "create_buffer cl ?src 0" "create_buffer cl ?src 1"
    using cl by (simp_all add: answers_def)
  moreover have "execute cl ?src (if ?op then [A, B] else [A]) = Inr out" using out(1) AB(4) by simp
  ultimately show ?thesis
    using tested_not_skipped [OF k] AB(1,3) out'(1)
    by (simp add: test_single_param_integer_kernel_def Let_def mult.commute [of TEST_SIZE])
qed

end

context random_source
begin

lemma two_kernel_verdict:
  assumes k: "k \<in> set (types_and_sizes gHasLong)"
    and cl: "answers cl (two_kernel_source (two_test fn) (fst k) (fst k) (snd k)) k"
    and draw: "draw_arrays gen 2 k d = Some (As, d')" "\<forall>A \<in> set As. typed_array k A"
  shows "\<exists>r. test_two_param_integer_kernel gen cl gHasLong (two_test fn) (fst k) (fst k) (snd k) fn d = Some (r, d') \<and>
    (r = 0 \<longleftrightarrow> two_passed cl fn k As)"
proof -
  let ?t = "fst k" and ?n = "snd k * TEST_SIZE"
  let ?src = "two_kernel_source (two_test fn) ?t ?t (snd k)"
  define out where "out = results cl ?src As"
  note t = types_and_sizes_cases [OF k, THEN conjunct1]
  obtain A B d1 where AB: "generate_random_data gen ?t ?n d = Some (A, d1)" "generate_random_data gen ?t ?n d1 = Some (B, d')"
      "As = [A, B]" "typed_array k A" "typed_array k B"
    using draw by (auto simp: numeral_2_eq_2 bind_eq_Some_conv)
  have As: "As \<noteq> []" using AB by (auto split: if_splits)
  have out: "execute cl ?src As = Inr out" "typed_array k out"
    using answers_results [OF cl As draw(2)] by (simp_all add: out_def)
  have "(case two_verify fn ?t (A ! j) (B ! j) of None \<Rightarrow> True | Some x \<Rightarrow> x = out ! j) \<longleftrightarrow>
      two_right fn ?t (A ! j) (B ! j) (out ! j)" if "j < ?n" for j
    using two_accepts [OF t typed_nth [OF AB(4) that] typed_nth [OF AB(5) that], of fn] typed_nth [OF out(2) that] by auto
  then have "(\<forall>j. 0 \<le> j \<and> j < ?n \<longrightarrow> (case two_verify fn ?t (A ! j) (B ! j) of None \<Rightarrow> True | Some x \<Rightarrow> x = out ! j)) \<longleftrightarrow>
      two_passed cl fn k As"
    unfolding two_passed_def Let_def out_def AB(3) by (auto simp: numeral_2_eq_2)
  moreover have "?n \<le> length A" "?n \<le> length B" "?n \<le> length out" using AB(4,5) out(2) by (simp_all add: typed_array_def)
  moreover have "create_kernel cl ?src = 0" "\<forall>i < 3. create_buffer cl ?src i" using cl by (simp_all add: answers_def)
  ultimately show ?thesis
    using tested_not_skipped [OF k] AB(1-3) out(1)
    by (simp add: test_two_param_integer_kernel_def Let_def two_compare_verdict)
qed

lemma three_kernel_verdict:
  assumes k: "k \<in> set (types_and_sizes gHasLong)"
    and cl: "answers cl (three_kernel_source (three_test fn) (fst k) (fst k) (fst k) (fst k) (snd k)) k"
    and draw: "draw_arrays gen 3 k d = Some (As, d')" "\<forall>A \<in> set As. typed_array k A"
  shows "\<exists>r. test_three_param_integer_kernel gen cl gHasLong (three_test fn) (fst k) (fst k) (fst k) (fst k) (snd k) fn d = Some (r, d') \<and>
    (r = 0 \<longleftrightarrow> three_passed cl fn k As)"
proof -
  let ?t = "fst k" and ?n = "snd k * TEST_SIZE"
  let ?src = "three_kernel_source (three_test fn) ?t ?t ?t ?t (snd k)"
  define out where "out = results cl ?src As"
  note t = types_and_sizes_cases [OF k, THEN conjunct1]
  obtain A B C d1 d2 where AB: "generate_random_data gen ?t ?n d = Some (A, d1)" "generate_random_data gen ?t ?n d1 = Some (B, d2)"
      "generate_random_data gen ?t ?n d2 = Some (C, d')" "As = [A, B, C]" "typed_array k A" "typed_array k B" "typed_array k C"
    using draw by (auto simp: numeral_3_eq_3 bind_eq_Some_conv)
  have As: "As \<noteq> []" using AB by (auto split: if_splits)
  have out: "execute cl ?src As = Inr out" "typed_array k out"
    using answers_results [OF cl As draw(2)] by (simp_all add: out_def)
  have accepts: "(case three_verify fn ?t (A ! j) (B ! j) (C ! j) of None \<Rightarrow> True | Some x \<Rightarrow> x = out ! j) \<longleftrightarrow>
      (if fn = MadSat \<and> mad_sat_wraps ?t (A ! j * B ! j + C ! j) then out ! j = to_Long (A ! j * B ! j + C ! j)
       else three_right fn ?t (A ! j) (B ! j) (C ! j) (out ! j))" if "j < ?n" for j
  proof -
    note v = typed_nth [OF AB(5) that] typed_nth [OF AB(6) that] typed_nth [OF AB(7) that]
    show ?thesis
    proof (cases "fn = MadSat \<and> mad_sat_wraps ?t (A ! j * B ! j + C ! j)")
      case True
      then have "signed_type ?t" by (simp add: mad_sat_wraps_def signed_type_def)
      then show ?thesis using True mad_sat_signed [OF t _ v] by (auto simp: mad_sat_wraps_def)
    next
      case False
      then show ?thesis using three_accepts [OF t v _ typed_nth [OF out(2) that], of fn] by auto
    qed
  qed
  then have "(\<forall>j. 0 \<le> j \<and> j < ?n \<longrightarrow> (case three_verify fn ?t (A ! j) (B ! j) (C ! j) of None \<Rightarrow> True | Some x \<Rightarrow> x = out ! j)) \<longleftrightarrow>
      three_passed cl fn k As"
    unfolding three_passed_def Let_def out_def AB(4) by (simp add: numeral_2_eq_2)
  moreover have "?n \<le> length A" "?n \<le> length B" "?n \<le> length C" "?n \<le> length out"
    using AB(5-7) out(2) by (simp_all add: typed_array_def)
  moreover have "create_kernel cl ?src = 0" "\<forall>i < 4. create_buffer cl ?src i" using cl by (simp_all add: answers_def)
  ultimately show ?thesis
    using tested_not_skipped [OF k] AB(1-4) out(1)
    by (simp add: test_three_param_integer_kernel_def Let_def three_compare_verdict)
qed

lemma single_fn_verdict:
  assumes "inv d" and cl: "\<forall>k \<in> set (types_and_sizes gHasLong).
      answers cl (single_kernel_source (fst (single_test fn)) (fst k) (snd k) (snd (single_test fn))) k"
  shows "\<exists>runs r d'. draw_inputs gen (if snd (single_test fn) then 2 else 1) (types_and_sizes gHasLong) d = Some (runs, d') \<and>
    test_single_param_integer_fn gen cl gHasLong e (fst (single_test fn)) fn (snd (single_test fn)) d = Some (r, d') \<and>
    map fst runs = types_and_sizes gHasLong \<and> (r = 0 \<longleftrightarrow> (\<forall>(k, As) \<in> set runs. single_passed cl fn k As))"
proof -
  let ?m = "if snd (single_test fn) then 2 else 1"
  let ?run = "\<lambda>(t, v). test_single_param_integer_kernel gen cl gHasLong e (fst (single_test fn)) fn (snd (single_test fn)) t v"
  have "\<exists>runs r d'. draw_inputs gen ?m (types_and_sizes gHasLong) d = Some (runs, d') \<and>
      run_kernels ?run (types_and_sizes gHasLong) 0 d = Some (r, d') \<and> map fst runs = types_and_sizes gHasLong \<and>
      (\<forall>(k, As) \<in> set runs. length As = ?m \<and> (\<forall>A \<in> set As. typed_array k A)) \<and>
      (r = 0 \<longleftrightarrow> 0 = (0 :: int) \<and> (\<forall>(k, As) \<in> set runs. single_passed cl fn k As)) \<and> inv d'"
  proof (rule run_kernels_verdict [OF _ _ assms(1)])
    fix k d As d'
    assume "k \<in> set (types_and_sizes gHasLong)" "draw_arrays gen ?m k d = Some (As, d')" "\<forall>A \<in> set As. typed_array k A"
    then show "\<exists>r. ?run k d = Some (r, d') \<and> (r = 0 \<longleftrightarrow> single_passed cl fn k As)"
      using single_kernel_verdict [of k gHasLong cl fn d As d' e] cl by (simp add: split_beta)
  qed (use types_and_sizes_cases tested_integer in blast)
  then show ?thesis unfolding test_single_param_integer_fn_def by (simp only: simp_thms) blast
qed

lemma two_fn_verdict:
  assumes "inv d" and cl: "\<forall>k \<in> set (types_and_sizes gHasLong).
      answers cl (two_kernel_source (two_test fn) (fst k) (fst k) (snd k)) k"
  shows "\<exists>runs r d'. draw_inputs gen 2 (types_and_sizes gHasLong) d = Some (runs, d') \<and>
    test_two_param_integer_fn gen cl gHasLong (two_test fn) fn d = Some (r, d') \<and>
    map fst runs = types_and_sizes gHasLong \<and> (r = 0 \<longleftrightarrow> (\<forall>(k, As) \<in> set runs. two_passed cl fn k As))"
proof -
  let ?run = "\<lambda>(t, v). test_two_param_integer_kernel gen cl gHasLong (two_test fn) t t v fn"
  have "\<exists>runs r d'. draw_inputs gen 2 (types_and_sizes gHasLong) d = Some (runs, d') \<and>
      run_kernels ?run (types_and_sizes gHasLong) 0 d = Some (r, d') \<and> map fst runs = types_and_sizes gHasLong \<and>
      (\<forall>(k, As) \<in> set runs. length As = 2 \<and> (\<forall>A \<in> set As. typed_array k A)) \<and>
      (r = 0 \<longleftrightarrow> 0 = (0 :: int) \<and> (\<forall>(k, As) \<in> set runs. two_passed cl fn k As)) \<and> inv d'"
  proof (rule run_kernels_verdict [OF _ _ assms(1)])
    fix k d As d'
    assume "k \<in> set (types_and_sizes gHasLong)" "draw_arrays gen 2 k d = Some (As, d')" "\<forall>A \<in> set As. typed_array k A"
    then show "\<exists>r. ?run k d = Some (r, d') \<and> (r = 0 \<longleftrightarrow> two_passed cl fn k As)"
      using two_kernel_verdict [of k gHasLong cl fn d As d'] cl by (simp add: split_beta)
  qed (use types_and_sizes_cases tested_integer in blast)
  then show ?thesis unfolding test_two_param_integer_fn_def by (simp only: simp_thms) blast
qed

lemma three_fn_verdict:
  assumes "inv d" and cl: "\<forall>k \<in> set (types_and_sizes gHasLong).
      answers cl (three_kernel_source (three_test fn) (fst k) (fst k) (fst k) (fst k) (snd k)) k"
  shows "\<exists>runs r d'. draw_inputs gen 3 (types_and_sizes gHasLong) d = Some (runs, d') \<and>
    test_three_param_integer_fn gen cl gHasLong (three_test fn) fn d = Some (r, d') \<and>
    map fst runs = types_and_sizes gHasLong \<and> (r = 0 \<longleftrightarrow> (\<forall>(k, As) \<in> set runs. three_passed cl fn k As))"
proof -
  let ?run = "\<lambda>(t, v). test_three_param_integer_kernel gen cl gHasLong (three_test fn) t t t t v fn"
  have "\<exists>runs r d'. draw_inputs gen 3 (types_and_sizes gHasLong) d = Some (runs, d') \<and>
      run_kernels ?run (types_and_sizes gHasLong) 0 d = Some (r, d') \<and> map fst runs = types_and_sizes gHasLong \<and>
      (\<forall>(k, As) \<in> set runs. length As = 3 \<and> (\<forall>A \<in> set As. typed_array k A)) \<and>
      (r = 0 \<longleftrightarrow> 0 = (0 :: int) \<and> (\<forall>(k, As) \<in> set runs. three_passed cl fn k As)) \<and> inv d'"
  proof (rule run_kernels_verdict [OF _ _ assms(1)])
    fix k d As d'
    assume "k \<in> set (types_and_sizes gHasLong)" "draw_arrays gen 3 k d = Some (As, d')" "\<forall>A \<in> set As. typed_array k A"
    then show "\<exists>r. ?run k d = Some (r, d') \<and> (r = 0 \<longleftrightarrow> three_passed cl fn k As)"
      using three_kernel_verdict [of k gHasLong cl fn d As d'] cl by (simp add: split_beta)
  qed (use types_and_sizes_cases tested_integer in blast)
  then show ?thesis unfolding test_three_param_integer_fn_def by (simp only: simp_thms) blast
qed

end

end
