(* ===== verification/IntegerElementwise.thy ===== *)
theory IntegerElementwise
  imports IntegerTests
begin

text \<open>
  The tests of \<^verbatim>\<open>integer_ops/test_add_sat.cpp\<close>, \<^verbatim>\<open>test_sub_sat.cpp\<close>, \<^verbatim>\<open>test_abs.cpp\<close>,
  \<^verbatim>\<open>test_absdiff.cpp\<close> and \<^verbatim>\<open>test_popcount.cpp\<close>. The five files have the same driver, written
  out five times: random words are read as values of each type in turn, and for each vector size a
  kernel is run on them and its results are checked vector by vector. The driver is modelled once
  (\<open>run_elementwise\<close>), over a record of what the files differ in. The OpenCL implementation is
  a parameter as in \<open>IntegerHarness\<close>.
\<close>

unbundle bit_operations_syntax

section \<open>The checks of one vector\<close>

text \<open>
  The verify functions walk \<open>n\<close> elements and return -1 at the first whose result is not the
  reference; \<open>None\<close> is a read beyond an array.
\<close>

function verify_unary :: "(int \<Rightarrow> int) \<Rightarrow> int list \<Rightarrow> int list \<Rightarrow> nat \<Rightarrow> nat \<Rightarrow> int option" where
  "verify_unary ref inA outptr n i =
     (if i < n then do {
        a \<leftarrow> rd inA i; out \<leftarrow> rd outptr i;
        if ref a \<noteq> out then Some (- 1) else verify_unary ref inA outptr n (i + 1)
      } else Some 0)"
  by pat_completeness auto
termination
  by (relation "measure (\<lambda>(_, _, _, n, i). n - i)") auto

declare verify_unary.simps [simp del]

function verify_binary :: "(int \<Rightarrow> int \<Rightarrow> int) \<Rightarrow> int list \<Rightarrow> int list \<Rightarrow> int list \<Rightarrow> nat \<Rightarrow> nat \<Rightarrow> int option" where
  "verify_binary ref inA inB outptr n i =
     (if i < n then do {
        a \<leftarrow> rd inA i; b \<leftarrow> rd inB i; out \<leftarrow> rd outptr i;
        if ref a b \<noteq> out then Some (- 1) else verify_binary ref inA inB outptr n (i + 1)
      } else Some 0)"
  by pat_completeness auto
termination
  by (relation "measure (\<lambda>(_, _, _, _, n, i). n - i)") auto

declare verify_binary.simps [simp del]

section \<open>References\<close>

text \<open>\<^verbatim>\<open>add_sat\<close>: the narrow types add in \<^verbatim>\<open>int\<close> and clamp, the others look for the overflow.\<close>

definition addsat_char :: "int \<Rightarrow> int \<Rightarrow> int" where
  "addsat_char a b = (let r = a + b; r = std_max r (- 128) in std_min r 127)"

definition addsat_uchar :: "int \<Rightarrow> int \<Rightarrow> int" where
  "addsat_uchar a b = (let r = a + b; r = std_max r 0 in std_min r 255)"

definition addsat_short :: "int \<Rightarrow> int \<Rightarrow> int" where
  "addsat_short a b = (let r = a + b; r = std_max r (- 32768) in std_min r 32767)"

definition addsat_ushort :: "int \<Rightarrow> int \<Rightarrow> int" where
  "addsat_ushort a b = (let r = a + b; r = std_max r 0 in std_min r 65535)"

definition addsat_int :: "int \<Rightarrow> int \<Rightarrow> int" where
  "addsat_int a b =
     (let r = cast kInt (cast kUInt (cast kUInt a + cast kUInt b))
      in if b > 0 then if r < a then 0x7fffffff else r
         else if r > a then - 0x80000000 else r)"

definition addsat_uint :: "int \<Rightarrow> int \<Rightarrow> int" where
  "addsat_uint a b = (let r = cast kUInt (a + b) in if r < a then 0xffffffff else r)"

definition addsat_long :: "int \<Rightarrow> int \<Rightarrow> int" where
  "addsat_long a b =
     (let r = cast kLong (cast kULong (cast kULong a + cast kULong b))
      in if b > 0 then if r < a then CL_LONG_MAX else r
         else if r > a then CL_LONG_MIN else r)"

definition addsat_ulong :: "int \<Rightarrow> int \<Rightarrow> int" where
  "addsat_ulong a b = (let r = cast kULong (a + b) in if r < a then CL_ULONG_MAX else r)"

text \<open>\<^verbatim>\<open>sub_sat\<close>.\<close>

definition subsat_char :: "int \<Rightarrow> int \<Rightarrow> int" where
  "subsat_char a b = (let r = a - b; r = std_max r (- 128) in std_min r 127)"

definition subsat_uchar :: "int \<Rightarrow> int \<Rightarrow> int" where
  "subsat_uchar a b = (let r = a - b; r = std_max r 0 in std_min r 255)"

definition subsat_short :: "int \<Rightarrow> int \<Rightarrow> int" where
  "subsat_short a b = (let r = a - b; r = std_max r (- 32768) in std_min r 32767)"

definition subsat_ushort :: "int \<Rightarrow> int \<Rightarrow> int" where
  "subsat_ushort a b = (let r = a - b; r = std_max r 0 in std_min r 65535)"

definition subsat_int :: "int \<Rightarrow> int \<Rightarrow> int" where
  "subsat_int a b =
     (let r = cast kInt (cast kUInt (cast kUInt a - cast kUInt b))
      in if b < 0 then if r < a then 0x7fffffff else r
         else if r > a then - 0x80000000 else r)"

definition subsat_uint :: "int \<Rightarrow> int \<Rightarrow> int" where
  "subsat_uint a b = (let r = cast kUInt (a - b) in if a < b then 0 else r)"

definition subsat_long :: "int \<Rightarrow> int \<Rightarrow> int" where
  "subsat_long a b =
     (let r = cast kLong (cast kULong (cast kULong a - cast kULong b))
      in if b < 0 then if r < a then CL_LONG_MAX else r
         else if r > a then CL_LONG_MIN else r)"

definition subsat_ulong :: "int \<Rightarrow> int \<Rightarrow> int" where
  "subsat_ulong a b = (let r = cast kULong (a - b) in if a < b then 0 else r)"

text \<open>
  \<^verbatim>\<open>abs\<close>: the result is of the unsigned type. The negation is in \<^verbatim>\<open>int\<close>, or \<^verbatim>\<open>long\<close>, where that
  of the least value, undefined in C++, wraps.
\<close>

definition abs_signed :: "ExplicitType \<Rightarrow> int \<Rightarrow> int" where
  "abs_signed t a =
     (let r = cast (unsigned_version t) a
      in if a < 0 then cast (unsigned_version t) (if t = kLong then to_Long (- a) else cast kInt (- a)) else r)"

definition abs_unsigned :: "int \<Rightarrow> int" where "abs_unsigned a = a"

text \<open>The template \<^verbatim>\<open>abs_diff\<close>.\<close>

definition abs_diff :: "ExplicitType \<Rightarrow> int \<Rightarrow> int \<Rightarrow> int" where
  "abs_diff t a b =
     (let u = unsigned_version t;
          ua = cast u a; ub = cast u b;
          diff = cast u (ua - ub)
      in if a < b then cast u (- diff) else diff)"

text \<open>\<^verbatim>\<open>popcount\<close>: a shift of a negative value is arithmetic, and the bit count bounds the loop.\<close>

fun popcnt_loop :: "ExplicitType \<Rightarrow> nat \<Rightarrow> int \<Rightarrow> int \<Rightarrow> int" where
  "popcnt_loop t 0 y r = r"
| "popcnt_loop t (Suc k) y r =
     popcnt_loop t k (cast t (drop_bit 1 y)) (if y AND 1 \<noteq> 0 then cast t (r + 1) else r)"

definition popcnt :: "ExplicitType \<Rightarrow> int \<Rightarrow> int" where "popcnt t x = popcnt_loop t (width t) x 0"

section \<open>The tables of checks\<close>

definition addsat_verify :: "ExplicitType \<Rightarrow> int \<Rightarrow> int \<Rightarrow> int" where
  "addsat_verify t = (case t of kChar \<Rightarrow> addsat_char | kUChar \<Rightarrow> addsat_uchar | kShort \<Rightarrow> addsat_short
     | kUShort \<Rightarrow> addsat_ushort | kInt \<Rightarrow> addsat_int | kUInt \<Rightarrow> addsat_uint | kLong \<Rightarrow> addsat_long
     | kULong \<Rightarrow> addsat_ulong | _ \<Rightarrow> (\<lambda>a b. 0))"

definition subsat_verify :: "ExplicitType \<Rightarrow> int \<Rightarrow> int \<Rightarrow> int" where
  "subsat_verify t = (case t of kChar \<Rightarrow> subsat_char | kUChar \<Rightarrow> subsat_uchar | kShort \<Rightarrow> subsat_short
     | kUShort \<Rightarrow> subsat_ushort | kInt \<Rightarrow> subsat_int | kUInt \<Rightarrow> subsat_uint | kLong \<Rightarrow> subsat_long
     | kULong \<Rightarrow> subsat_ulong | _ \<Rightarrow> (\<lambda>a b. 0))"

definition abs_verify :: "ExplicitType \<Rightarrow> int \<Rightarrow> int" where
  "abs_verify t = (if t \<in> {kChar, kShort, kInt, kLong} then abs_signed t else abs_unsigned)"

section \<open>The driver\<close>

text \<open>The bytes of the random words, and their values as elements of a type, lowest byte first.\<close>

definition word_bytes :: "u32 \<Rightarrow> int list" where
  "word_bytes w = map (\<lambda>i. uint (drop_bit (8 * i) w AND 0xff)) [0..<4]"

definition bytes_value :: "int list \<Rightarrow> int" where
  "bytes_value bs = foldr (\<lambda>b v. b + 256 * v) bs 0"

definition elements :: "ExplicitType \<Rightarrow> u32 list \<Rightarrow> int list" where
  "elements t ws =
     (let bytes = concat (map word_bytes ws); size = get_explicit_type_size t
      in map (\<lambda>i. cast t (bytes_value (take size (drop (i * size) bytes)))) [0..<length bytes div size])"

text \<open>
  What the files differ in: the types in order, the type of the results, the source of the kernel,
  the check of one vector given the inputs and the results, the number of inputs, and how many
  random words there are for each of the elements asked for.
\<close>

record elementwise_test =
  op_types :: "ExplicitType list"
  out_type :: "ExplicitType \<Rightarrow> ExplicitType"
  kernel_text :: "ExplicitType \<Rightarrow> nat \<Rightarrow> string"
  check :: "ExplicitType \<Rightarrow> int list list \<Rightarrow> int list \<Rightarrow> nat \<Rightarrow> int option"
  arity :: nat
  words :: nat

text \<open>The loop over the vectors: whether it ends with a failure.\<close>

function check_vectors ::
    "(int list list \<Rightarrow> int list \<Rightarrow> nat \<Rightarrow> int option) \<Rightarrow> int list list \<Rightarrow> int list \<Rightarrow> nat \<Rightarrow> nat \<Rightarrow> nat \<Rightarrow> bool option" where
  "check_vectors f ins out vecSize vectors e =
     (if e < vectors then do {
        r \<leftarrow> f (map (drop (e * vecSize)) ins) (drop (e * vecSize) out) vecSize;
        if r \<noteq> 0 then Some True else check_vectors f ins out vecSize vectors (e + 1)
      } else Some False)"
  by pat_completeness auto
termination
  by (relation "measure (\<lambda>(_, _, _, _, vectors, e). vectors - e)") auto

declare check_vectors.simps [simp del]

text \<open>
  The loops over the vector sizes and the types: \<open>Inl\<close> is the value of an early return, after
  an OpenCL call that failed, and \<open>Inr\<close> the number of failures so far.
\<close>

fun size_loop :: "opencl \<Rightarrow> elementwise_test \<Rightarrow> ExplicitType \<Rightarrow> int list list \<Rightarrow> nat \<Rightarrow> nat list \<Rightarrow> nat \<Rightarrow> (int + nat) option" where
  "size_loop cl T t ins elementCount [] fail_count = Some (Inr fail_count)"
| "size_loop cl T t ins elementCount (vecSize # sizes) fail_count =
     (let source = kernel_text T t vecSize; size = elementCount div vecSize
      in if create_kernel cl source \<noteq> 0 then Some (Inl (- 1))
      else case execute cl source ins of
        Inl err \<Rightarrow> Some (Inl (- 1))
      | Inr out \<Rightarrow> do {
          failed \<leftarrow> check_vectors (check T t) ins out vecSize size 0;
          size_loop cl T t ins elementCount sizes (if failed then fail_count + 1 else fail_count) })"

fun type_loop :: "opencl \<Rightarrow> bool \<Rightarrow> elementwise_test \<Rightarrow> u32 list list \<Rightarrow> nat \<Rightarrow> ExplicitType list \<Rightarrow> nat \<Rightarrow> (int + nat) option" where
  "type_loop cl gHasLong T ins bytes [] fail_count = Some (Inr fail_count)"
| "type_loop cl gHasLong T ins bytes (t # ts) fail_count =
     (if skipped_type gHasLong t then type_loop cl gHasLong T ins bytes ts fail_count
      else if \<not> (\<forall>i \<le> arity T. create_buffer cl (get_explicit_type_name t) i) then Some (Inl (- 1))
      else do {
        r \<leftarrow> size_loop cl T t (map (elements t) ins) (bytes div get_explicit_type_size t) vecSizes fail_count;
        case r of Inl err \<Rightarrow> Some (Inl err) | Inr fail_count \<Rightarrow> type_loop cl gHasLong T ins bytes ts fail_count })"

fun draw_words :: "('s \<Rightarrow> (u32 \<times> 's) option) \<Rightarrow> nat \<Rightarrow> nat \<Rightarrow> 's \<Rightarrow> (u32 list list \<times> 's) option" where
  "draw_words gen 0 n d = Some ([], d)"
| "draw_words gen (Suc m) n d = do {
     (ws, d) \<leftarrow> draws gen n d; (wss, d) \<leftarrow> draw_words gen m n d; Some (ws # wss, d) }"

definition run_elementwise ::
    "('s \<Rightarrow> (u32 \<times> 's) option) \<Rightarrow> opencl \<Rightarrow> bool \<Rightarrow> elementwise_test \<Rightarrow> nat \<Rightarrow> 's \<Rightarrow> int option" where
  "run_elementwise gen cl gHasLong T n_elems d = do {
     (ins, d) \<leftarrow> draw_words gen (arity T) (words T * n_elems) d;
     r \<leftarrow> type_loop cl gHasLong T ins (4 * words T * n_elems) (op_types T) 0;
     Some (case r of Inl err \<Rightarrow> err | Inr fail_count \<Rightarrow> if fail_count \<noteq> 0 then - 1 else 0) }"

section \<open>The five tests\<close>

definition newline :: string where "newline = [CHR 0x0A]"

definition sat_source :: "string \<Rightarrow> ExplicitType \<Rightarrow> nat \<Rightarrow> string" where
  "sat_source f t v =
     (let tn = get_explicit_type_name t; vn = size_name v
      in if v \<noteq> 3 then concat
        [''__kernel void test_'', f, ''_'', tn, vn, ''(__global '', tn, vn, '' *srcA, __global '', tn, vn,
         '' *srcB, __global '', tn, vn, '' *dst)'', newline, ''{'', newline,
         ''    int  tid = get_global_id(0);'', newline, newline,
         ''    '', tn, vn, '' tmp = '', f, ''(srcA[tid], srcB[tid]);'', newline,
         ''    dst[tid] = tmp;'', newline, ''}'', newline]
      else concat
        [''__kernel void test_'', f, ''_'', tn, vn, ''(__global '', tn, '' *srcA, __global '', tn,
         '' *srcB, __global '', tn, '' *dst)'', newline, ''{'', newline,
         ''    int  tid = get_global_id(0);'', newline, newline,
         ''    '', tn, vn, '' tmp = '', f, ''(vload3(tid, srcA), vload3(tid, srcB));'', newline,
         ''    vstore3(tmp, tid, dst);'', newline, ''}'', newline])"

definition abs_source :: "ExplicitType \<Rightarrow> nat \<Rightarrow> string" where
  "abs_source t v =
     (let tn = get_explicit_type_name t; un = get_explicit_type_name (unsigned_version t);
          vn = size_name v; pn = param_size_name v
      in concat
        [''__kernel void test_abs_'', tn, vn, ''(__global '', tn, pn, '' *srcA, __global '', un, pn,
         '' *dst)'', newline, ''{'', newline,
         ''    int  tid = get_global_id(0);'', newline, newline,
         ''    '', un, vn, '' tmp = abs('', (if v = 3 then ''vload3(tid, srcA)'' else ''srcA[tid]''), '');'', newline,
         (if v = 3 then ''    vstore3(tmp, tid, dst);'' else ''    dst[tid] = tmp;''), newline, ''}'', newline])"

definition absdiff_source :: "ExplicitType \<Rightarrow> nat \<Rightarrow> string" where
  "absdiff_source t v =
     (let tn = get_explicit_type_name t; un = get_explicit_type_name (unsigned_version t);
          vn = size_name v; pn = param_size_name v
      in concat
        [''__kernel void test_absdiff_'', tn, vn, ''(__global '', tn, pn, '' *srcA, __global '', tn, pn,
         '' *srcB, __global '', un, pn, '' *dst)'', newline, ''{'', newline,
         ''    int  tid = get_global_id(0);'', newline, newline,
         ''    '', tn, vn, '' sA, sB;'', newline,
         ''    sA = '', (if v = 3 then ''vload3( tid, srcA )'' else ''srcA[tid]''), '';'', newline,
         ''    sB = '', (if v = 3 then ''vload3( tid, srcB )'' else ''srcB[tid]''), '';'', newline,
         ''    '', un, vn, '' dstVal = abs_diff(sA, sB);'', newline,
         ''     '', (if v = 3 then ''vstore3( dstVal, tid, dst )'' else ''dst[ tid ] = dstVal''), '';'', newline,
         ''}'', newline])"

definition popcount_source :: "ExplicitType \<Rightarrow> nat \<Rightarrow> string" where
  "popcount_source t v =
     (let tn = get_explicit_type_name t; vn = size_name v; pn = param_size_name v
      in concat
        [''__kernel void test_popcount_'', tn, vn, ''(__global '', tn, pn, '' *srcA, __global '', tn, pn,
         '' *dst)'', newline, ''{'', newline,
         ''    int  tid = get_global_id(0);'', newline, newline,
         ''    '', tn, vn, '' sA;'', newline,
         ''    sA = '', (if v = 3 then ''vload3( tid, srcA )'' else ''srcA[tid]''), '';'', newline,
         ''    '', tn, vn, '' dstVal = popcount(sA);'', newline,
         ''     '', (if v = 3 then ''vstore3( dstVal, tid, dst )'' else ''dst[ tid ] = dstVal''), '';'', newline,
         ''}'', newline])"

definition check_binary :: "(ExplicitType \<Rightarrow> int \<Rightarrow> int \<Rightarrow> int) \<Rightarrow> ExplicitType \<Rightarrow> int list list \<Rightarrow> int list \<Rightarrow> nat \<Rightarrow> int option" where
  "check_binary ref t ins out n = verify_binary (ref t) (ins ! 0) (ins ! 1) out n 0"

definition check_unary :: "(ExplicitType \<Rightarrow> int \<Rightarrow> int) \<Rightarrow> ExplicitType \<Rightarrow> int list list \<Rightarrow> int list \<Rightarrow> nat \<Rightarrow> int option" where
  "check_unary ref t ins out n = verify_unary (ref t) (ins ! 0) out n 0"

definition add_sat_test :: elementwise_test where
  "add_sat_test = \<lparr>op_types = tested_types, out_type = id, kernel_text = sat_source ''add_sat'',
     check = check_binary addsat_verify, arity = 2, words = 4\<rparr>"

definition sub_sat_test :: elementwise_test where
  "sub_sat_test = \<lparr>op_types = tested_types, out_type = id, kernel_text = sat_source ''sub_sat'',
     check = check_binary subsat_verify, arity = 2, words = 4\<rparr>"

definition abs_test :: elementwise_test where
  "abs_test = \<lparr>op_types = [kChar, kShort, kInt, kLong, kUChar, kUShort, kUInt, kULong],
     out_type = unsigned_version, kernel_text = abs_source, check = check_unary abs_verify, arity = 1, words = 4\<rparr>"

definition abs_diff_test :: elementwise_test where
  "abs_diff_test = \<lparr>op_types = tested_types, out_type = unsigned_version, kernel_text = absdiff_source,
     check = check_binary abs_diff, arity = 2, words = 4\<rparr>"

definition popcount_test :: elementwise_test where
  "popcount_test = \<lparr>op_types = tested_types, out_type = id, kernel_text = popcount_source,
     check = check_unary popcnt, arity = 1, words = 8\<rparr>"

text \<open>The five drivers.\<close>

definition test_integer_add_sat :: "('s \<Rightarrow> (u32 \<times> 's) option) \<Rightarrow> opencl \<Rightarrow> bool \<Rightarrow> nat \<Rightarrow> 's \<Rightarrow> int option" where
  "test_integer_add_sat gen cl gHasLong n_elems d = run_elementwise gen cl gHasLong add_sat_test n_elems d"

definition test_integer_sub_sat :: "('s \<Rightarrow> (u32 \<times> 's) option) \<Rightarrow> opencl \<Rightarrow> bool \<Rightarrow> nat \<Rightarrow> 's \<Rightarrow> int option" where
  "test_integer_sub_sat gen cl gHasLong n_elems d = run_elementwise gen cl gHasLong sub_sat_test n_elems d"

definition test_integer_abs_diff :: "('s \<Rightarrow> (u32 \<times> 's) option) \<Rightarrow> opencl \<Rightarrow> bool \<Rightarrow> nat \<Rightarrow> 's \<Rightarrow> int option" where
  "test_integer_abs_diff gen cl gHasLong n_elems d = run_elementwise gen cl gHasLong abs_diff_test n_elems d"

definition test_integer_abs :: "('s \<Rightarrow> (u32 \<times> 's) option) \<Rightarrow> opencl \<Rightarrow> bool \<Rightarrow> nat \<Rightarrow> 's \<Rightarrow> int option" where
  "test_integer_abs gen cl gHasLong n_elems d = run_elementwise gen cl gHasLong abs_test n_elems d"

definition test_popcount :: "('s \<Rightarrow> (u32 \<times> 's) option) \<Rightarrow> opencl \<Rightarrow> bool \<Rightarrow> nat \<Rightarrow> 's \<Rightarrow> int option" where
  "test_popcount gen cl gHasLong n_elems d = run_elementwise gen cl gHasLong popcount_test n_elems d"

section \<open>The references are right\<close>

lemma cast_through_unsigned:
  assumes "t \<in> set tested_types"
  shows "cast t (cast (unsigned_version t) v) = cast t v"
    "cast (unsigned_version t) (cast (unsigned_version t) a + cast (unsigned_version t) b) = cast (unsigned_version t) (a + b)"
    "cast (unsigned_version t) (cast (unsigned_version t) a - cast (unsigned_version t) b) = cast (unsigned_version t) (a - b)"
proof -
  note [simp] = unsigned_version [OF assms]
  show "cast t (cast (unsigned_version t) v) = cast t v" by (simp add: cast_unsigned cast_mod)
  show "cast (unsigned_version t) (cast (unsigned_version t) a + cast (unsigned_version t) b) = cast (unsigned_version t) (a + b)"
    "cast (unsigned_version t) (cast (unsigned_version t) a - cast (unsigned_version t) b) = cast (unsigned_version t) (a - b)"
    by (simp_all add: cast_unsigned mod_add_eq mod_diff_eq)
qed

lemma wrapped:
  assumes t: "t \<in> set tested_types"
  shows "value_of_type t v \<Longrightarrow> cast t v = v"
    "value_of_type t (v - 2 ^ width t) \<Longrightarrow> cast t v = v - 2 ^ width t"
    "value_of_type t (v + 2 ^ width t) \<Longrightarrow> cast t v = v + 2 ^ width t"
proof -
  show "value_of_type t v \<Longrightarrow> cast t v = v" by (rule tested_cast_id [OF t])
  have "cast t v = cast t (v - 2 ^ width t)" "cast t v = cast t (v + 2 ^ width t)" by (rule cast_equal; simp)+
  then show "value_of_type t (v - 2 ^ width t) \<Longrightarrow> cast t v = v - 2 ^ width t"
    "value_of_type t (v + 2 ^ width t) \<Longrightarrow> cast t v = v + 2 ^ width t"
    using tested_cast_id [OF t] by auto
qed

text \<open>A sum or difference of two signed values, wrapped, and the tests for its overflow.\<close>

lemma wrapped_signed:
  assumes t: "t \<in> set tested_types" "signed_type t" and v: "2 * type_min t \<le> v" "v \<le> 2 * type_max t + 1"
  shows "cast t v = (if v > type_max t then v - 2 ^ width t else if v < type_min t then v + 2 ^ width t else v)"
proof -
  have "(2 :: int) ^ width t = 2 * 2 ^ (width t - 1)"
    using tested_width [OF t(1)] by (simp flip: power_Suc)
  then show ?thesis
    using wrapped [OF t(1), of v] v t(2) by (auto simp: value_of_type_def type_min_def type_max_def)
qed

lemma int_types [simp]: "unsigned_version kInt = kUInt" "unsigned_version kLong = kULong"
  by (simp_all add: unsigned_version_def)

lemma in_tested [simp]:
  "kChar \<in> set tested_types" "kUChar \<in> set tested_types" "kShort \<in> set tested_types" "kUShort \<in> set tested_types"
  "kInt \<in> set tested_types" "kUInt \<in> set tested_types" "kLong \<in> set tested_types" "kULong \<in> set tested_types"
  by (simp_all add: tested_types_def)

lemma type_limits:
  "type_min kChar = - 128" "type_max kChar = 127" "type_min kUChar = 0" "type_max kUChar = 255"
  "type_min kShort = - 32768" "type_max kShort = 32767" "type_min kUShort = 0" "type_max kUShort = 65535"
  "type_min kInt = - 0x80000000" "type_max kInt = 0x7fffffff" "type_min kUInt = 0" "type_max kUInt = 0xffffffff"
  "type_min kLong = CL_LONG_MIN" "type_max kLong = CL_LONG_MAX" "type_min kULong = 0" "type_max kULong = CL_ULONG_MAX"
  by (simp_all add: type_min_def type_max_def signed_type_def CL_LONG_MIN_def CL_LONG_MAX_def CL_ULONG_MAX_def)

lemma addsat_signed:
  assumes t: "t \<in> set tested_types" "signed_type t" and v: "value_of_type t a" "value_of_type t b"
  shows "(let r = cast t (a + b) in if b > 0 then if r < a then type_max t else r else if r > a then type_min t else r) =
    clamped t (a + b)"
proof -
  have "(2 :: int) ^ width t = type_max t - type_min t + 1" "type_min t = - type_max t - 1"
    using t(2) tested_width [OF t(1)] by (simp_all add: type_min_def type_max_def flip: power_Suc)
  then show ?thesis
    using v wrapped_signed [OF t, of "a + b"] by (auto simp: value_of_type_def clamped_def Let_def)
qed

lemma subsat_signed:
  assumes t: "t \<in> set tested_types" "signed_type t" and v: "value_of_type t a" "value_of_type t b"
  shows "(let r = cast t (a - b) in if b < 0 then if r < a then type_max t else r else if r > a then type_min t else r) =
    clamped t (a - b)"
proof -
  have "(2 :: int) ^ width t = type_max t - type_min t + 1" "type_min t = - type_max t - 1"
    using t(2) tested_width [OF t(1)] by (simp_all add: type_min_def type_max_def flip: power_Suc)
  then show ?thesis
    using v wrapped_signed [OF t, of "a - b"] by (auto simp: value_of_type_def clamped_def Let_def)
qed

lemma addsat_unsigned:
  assumes t: "t \<in> set tested_types" "\<not> signed_type t" and v: "value_of_type t a" "value_of_type t b"
  shows "(let r = cast t (a + b) in if r < a then type_max t else r) = clamped t (a + b)"
proof -
  have "(2 :: int) ^ width t = type_max t + 1" "type_min t = 0"
    using t(2) by (simp_all add: type_min_def type_max_def)
  then show ?thesis
    using v wrapped(1,2) [OF t(1), of "a + b"] by (auto simp: value_of_type_def clamped_def Let_def min_def max_def)
qed

lemma subsat_unsigned:
  assumes t: "t \<in> set tested_types" "\<not> signed_type t" and v: "value_of_type t a" "value_of_type t b"
  shows "(let r = cast t (a - b) in if a < b then 0 else r) = clamped t (a - b)"
proof -
  have "type_min t = 0" using t(2) by (simp add: type_min_def)
  then show ?thesis
    using v wrapped(1) [OF t(1), of "a - b"] by (auto simp: value_of_type_def clamped_def Let_def min_def max_def)
qed

lemma addsat_correct:
  assumes t: "t \<in> set tested_types" and v: "value_of_type t a" "value_of_type t b"
  shows "addsat_verify t a b = clamped t (a + b)"
  using t
proof (cases rule: tested_cases)
  case 5
  then show ?thesis
    using addsat_signed [of kInt a b, unfolded type_limits] v cast_through_unsigned [of kInt]
    by (simp add: addsat_verify_def addsat_int_def signed_type_def Let_def)
next
  case 7
  then show ?thesis
    using addsat_signed [of kLong a b, unfolded type_limits] v cast_through_unsigned [of kLong]
    by (simp add: addsat_verify_def addsat_long_def signed_type_def Let_def)
next
  case 6
  then show ?thesis
    using addsat_unsigned [of kUInt a b, unfolded type_limits] v
    by (simp add: addsat_verify_def addsat_uint_def signed_type_def Let_def)
next
  case 8
  then show ?thesis
    using addsat_unsigned [of kULong a b, unfolded type_limits] v
    by (simp add: addsat_verify_def addsat_ulong_def signed_type_def Let_def)
qed (auto simp: addsat_verify_def addsat_char_def addsat_uchar_def addsat_short_def addsat_ushort_def clamped_def
  type_limits std_min_def std_max_def Let_def)

lemma subsat_correct:
  assumes t: "t \<in> set tested_types" and v: "value_of_type t a" "value_of_type t b"
  shows "subsat_verify t a b = clamped t (a - b)"
  using t
proof (cases rule: tested_cases)
  case 5
  then show ?thesis
    using subsat_signed [of kInt a b, unfolded type_limits] v cast_through_unsigned [of kInt]
    by (simp add: subsat_verify_def subsat_int_def signed_type_def Let_def)
next
  case 7
  then show ?thesis
    using subsat_signed [of kLong a b, unfolded type_limits] v cast_through_unsigned [of kLong]
    by (simp add: subsat_verify_def subsat_long_def signed_type_def Let_def)
next
  case 6
  then show ?thesis
    using subsat_unsigned [of kUInt a b, unfolded type_limits] v
    by (simp add: subsat_verify_def subsat_uint_def signed_type_def Let_def)
next
  case 8
  then show ?thesis
    using subsat_unsigned [of kULong a b, unfolded type_limits] v
    by (simp add: subsat_verify_def subsat_ulong_def signed_type_def Let_def)
qed (auto simp: subsat_verify_def subsat_char_def subsat_uchar_def subsat_short_def subsat_ushort_def clamped_def
  type_limits std_min_def std_max_def Let_def)

text \<open>An absolute value fits the unsigned type.\<close>

lemma unsigned_value_in_type:
  assumes t: "t \<in> set tested_types" and v: "0 \<le> v" "v < 2 ^ width t"
  shows "cast (unsigned_version t) v = v"
  using unsigned_version [OF t] v by (simp add: cast_unsigned)

lemma magnitude_in_type:
  assumes t: "t \<in> set tested_types" and v: "value_of_type t a" "value_of_type t b"
  shows "\<bar>a\<bar> < 2 ^ width t" "\<bar>a - b\<bar> < 2 ^ width t"
proof -
  obtain p :: int where p: "2 ^ (width t - 1) = p" "0 < p" "2 ^ width t = 2 * p"
    using tested_width [OF t] by (simp flip: power_Suc)
  show "\<bar>a\<bar> < 2 ^ width t" "\<bar>a - b\<bar> < 2 ^ width t"
    using v p by (auto simp: tested_range [OF t] abs_less_iff split: if_splits)
qed

lemma abs_correct:
  assumes t: "t \<in> set tested_types" and v: "value_of_type t a"
  shows "abs_verify t a = \<bar>a\<bar>"
proof (cases "t \<in> {kChar, kShort, kInt, kLong}")
  case True
  note u = unsigned_value_in_type [OF t] magnitude_in_type(1) [OF t v v]
  have neg: "cast (unsigned_version t) (if t = kLong then to_Long (- a) else cast kInt (- a)) = cast (unsigned_version t) (- a)"
  proof -
    have w: "width t \<le> 32" if "t \<noteq> kLong" using that True by auto
    have "(if t = kLong then to_Long (- a) else cast kInt (- a)) mod 2 ^ width t = (- a) mod 2 ^ width t"
    proof (cases "t = kLong")
      case True
      then show ?thesis using to_Long_congruent [of "- a"] by simp
    next
      case False
      have d: "(2 :: int) ^ width t dvd 2 ^ 32" by (rule le_imp_power_dvd [OF w [OF False]])
      show ?thesis
        using False mod_mod_cancel [OF d, of "- a"] mod_mod_cancel [OF d, of "cast kInt (- a)"]
          cast_congruent [of kInt "- a"] by simp
    qed
    then show ?thesis using unsigned_version [OF t] by (simp add: cast_unsigned)
  qed
  show ?thesis
    using True u neg by (auto simp: abs_verify_def abs_signed_def Let_def abs_if)
next
  case False
  then have "\<not> signed_type t" using t by (auto simp: signed_type_def)
  then have "0 \<le> a" using v by (simp add: tested_range [OF t])
  then show ?thesis using False by (simp add: abs_verify_def abs_unsigned_def)
qed

lemma abs_diff_correct:
  assumes t: "t \<in> set tested_types" and v: "value_of_type t a" "value_of_type t b"
  shows "abs_diff t a b = \<bar>a - b\<bar>"
proof -
  note u = unsigned_value_in_type [OF t] magnitude_in_type(2) [OF t v]
  have "cast (unsigned_version t) (- cast (unsigned_version t) (a - b)) = cast (unsigned_version t) (b - a)"
    using unsigned_version [OF t] mod_minus_eq [of "a - b" "2 ^ width t"] by (simp add: cast_unsigned)
  then show ?thesis using u cast_through_unsigned(3) [OF t, of a b] by (auto simp: abs_diff_def Let_def)
qed

lemma popcnt_loop_counts:
  assumes t: "t \<in> set tested_types"
  shows "value_of_type t y \<Longrightarrow> 0 \<le> r \<Longrightarrow> r + int k \<le> 64 \<Longrightarrow> popcnt_loop t k y r = r + (\<Sum>i < k. of_bool (bit y i))"
proof (induction k arbitrary: y r)
  case (Suc k)
  have "value_of_type t (y div 2)" by (rule value_between(1) [OF t Suc.prems(1) zero_in_type [OF t]]) (auto simp: min_def max_def)
  then have half: "value_of_type t (y div 2)" "cast t (y div 2) = y div 2" using tested_cast_id [OF t] by blast+
  have "value_of_type t (r + 1)"
    using t Suc.prems(2,3) by (elim tested_cases) (simp_all add: value_of_type_def type_limits CL_LONG_MIN_def CL_LONG_MAX_def CL_ULONG_MAX_def)
  then have one: "cast t (r + 1) = r + 1" by (rule tested_cast_id [OF t])
  have step: "popcnt_loop t (Suc k) y r = popcnt_loop t k (y div 2) (r + of_bool (odd y))"
    by (simp add: drop_bit_1 half one and_one_eq mod_2_eq_odd)
  also have "\<dots> = r + of_bool (odd y) + (\<Sum>i < k. of_bool (bit (y div 2) i))"
    using Suc.prems(2,3) by (intro Suc.IH half) auto
  also have "\<dots> = r + (\<Sum>i < Suc k. of_bool (bit y i))"
    by (subst sum.lessThan_Suc_shift) (simp add: bit_0 bit_Suc)
  finally show ?case .
qed simp

lemma popcnt_correct:
  assumes t: "t \<in> set tested_types" and v: "value_of_type t a"
  shows "popcnt t a = (\<Sum>i < width t. of_bool (bit a i))"
  using popcnt_loop_counts [OF t v, of 0 "width t"] tested_width [OF t] by (simp add: popcnt_def)

section \<open>What the driver's verdict says\<close>

lemma verify_unary_verdict:
  assumes "n \<le> length A" "n \<le> length out"
  shows "verify_unary ref A out n k = Some (if \<forall>j. k \<le> j \<and> j < n \<longrightarrow> ref (A ! j) = out ! j then 0 else - 1)"
proof (induction "n - k" arbitrary: k)
  case 0
  then show ?case by (subst verify_unary.simps) simp
next
  case (Suc m)
  from Suc.hyps(2) have k: "k < n" by simp
  have all: "(\<forall>j. k \<le> j \<and> j < n \<longrightarrow> ref (A ! j) = out ! j) \<longleftrightarrow>
      ref (A ! k) = out ! k \<and> (\<forall>j. k + 1 \<le> j \<and> j < n \<longrightarrow> ref (A ! j) = out ! j)"
    using k by (auto simp: Suc_le_eq) (metis le_neq_implies_less)
  have "verify_unary ref A out n (k + 1) = Some (if \<forall>j. k + 1 \<le> j \<and> j < n \<longrightarrow> ref (A ! j) = out ! j then 0 else - 1)"
    using Suc.hyps(2) by (intro Suc.hyps(1)) simp
  then show ?case unfolding all using k assms by (subst verify_unary.simps) auto
qed

lemma verify_binary_verdict:
  assumes "n \<le> length A" "n \<le> length B" "n \<le> length out"
  shows "verify_binary ref A B out n k = Some (if \<forall>j. k \<le> j \<and> j < n \<longrightarrow> ref (A ! j) (B ! j) = out ! j then 0 else - 1)"
proof (induction "n - k" arbitrary: k)
  case 0
  then show ?case by (subst verify_binary.simps) simp
next
  case (Suc m)
  from Suc.hyps(2) have k: "k < n" by simp
  have all: "(\<forall>j. k \<le> j \<and> j < n \<longrightarrow> ref (A ! j) (B ! j) = out ! j) \<longleftrightarrow>
      ref (A ! k) (B ! k) = out ! k \<and> (\<forall>j. k + 1 \<le> j \<and> j < n \<longrightarrow> ref (A ! j) (B ! j) = out ! j)"
    using k by (auto simp: Suc_le_eq) (metis le_neq_implies_less)
  have "verify_binary ref A B out n (k + 1) = Some (if \<forall>j. k + 1 \<le> j \<and> j < n \<longrightarrow> ref (A ! j) (B ! j) = out ! j then 0 else - 1)"
    using Suc.hyps(2) by (intro Suc.hyps(1)) simp
  then show ?case unfolding all using k assms by (subst verify_binary.simps) auto
qed

definition values_of :: "ExplicitType \<Rightarrow> nat \<Rightarrow> int list \<Rightarrow> bool" where
  "values_of t n A \<longleftrightarrow> length A = n \<and> (\<forall>x \<in> set A. value_of_type t x)"

lemma elements_values: "t \<in> set tested_types \<Longrightarrow> values_of t (4 * length ws div get_explicit_type_size t) (elements t ws)"
proof -
  assume t: "t \<in> set tested_types"
  have "length (concat (map word_bytes ws)) = 4 * length ws"
    by (induction ws) (simp_all add: word_bytes_def)
  then show ?thesis using tested_in_type [OF t] by (auto simp: values_of_def elements_def Let_def)
qed

text \<open>The results for one kernel are right in all its vectors.\<close>

definition all_right :: "(ExplicitType \<Rightarrow> int list \<Rightarrow> int \<Rightarrow> bool) \<Rightarrow> ExplicitType \<Rightarrow> int list list \<Rightarrow> int list \<Rightarrow> nat \<Rightarrow> bool" where
  "all_right right t ins out n \<longleftrightarrow> (\<forall>i < n. right t (map (\<lambda>A. A ! i) ins) (out ! i))"

text \<open>An implementation that answers for a type, with as many results as there are elements.\<close>

definition answers_type :: "elementwise_test \<Rightarrow> opencl \<Rightarrow> ExplicitType \<Rightarrow> nat \<Rightarrow> bool" where
  "answers_type T cl t n \<longleftrightarrow> (\<forall>i \<le> arity T. create_buffer cl (get_explicit_type_name t) i) \<and>
     (\<forall>v \<in> set vecSizes. create_kernel cl (kernel_text T t v) = 0 \<and>
       (\<forall>ins. length ins = arity T \<and> (\<forall>A \<in> set ins. values_of t n A) \<longrightarrow>
         (\<exists>out. execute cl (kernel_text T t v) ins = Inr out \<and> n \<le> length out)))"

definition type_passed :: "elementwise_test \<Rightarrow> (ExplicitType \<Rightarrow> int list \<Rightarrow> int \<Rightarrow> bool) \<Rightarrow> opencl \<Rightarrow> ExplicitType \<Rightarrow> nat \<Rightarrow> nat list \<Rightarrow> int list list \<Rightarrow> bool" where
  "type_passed T right cl t n sizes ins \<longleftrightarrow>
     (\<forall>v \<in> set sizes. all_right right t ins (results cl (kernel_text T t v) ins) (n div v * v))"

text \<open>
  What the driver relies on in a test: the types are integer types, and the check of a vector
  returns 0 exactly when every result is right for the arguments at its place.
\<close>

locale elementwise =
  fixes T :: elementwise_test and right :: "ExplicitType \<Rightarrow> int list \<Rightarrow> int \<Rightarrow> bool"
  assumes tested: "set (op_types T) \<subseteq> set tested_types"
    and check_right: "\<lbrakk>t \<in> set (op_types T); length ins = arity T; n \<le> length out;
      \<forall>A \<in> set ins. n \<le> length A \<and> (\<forall>x \<in> set A. value_of_type t x)\<rbrakk> \<Longrightarrow>
      \<exists>r. check T t ins out n = Some r \<and> (r = 0 \<longleftrightarrow> (\<forall>i < n. right t (map (\<lambda>A. A ! i) ins) (out ! i)))"
begin

lemma check_vectors_verdict:
  assumes t: "t \<in> set (op_types T)" "length ins = arity T" "\<forall>A \<in> set ins. values_of t n A"
    and n: "vectors * vecSize \<le> n" "n \<le> length out"
  shows "e \<le> vectors \<Longrightarrow> \<exists>failed. check_vectors (check T t) ins out vecSize vectors e = Some failed \<and>
    (failed \<longleftrightarrow> \<not> (\<forall>i. e * vecSize \<le> i \<and> i < vectors * vecSize \<longrightarrow> right t (map (\<lambda>A. A ! i) ins) (out ! i)))"
proof (induction "vectors - e" arbitrary: e)
  case 0
  then show ?case by (subst check_vectors.simps) simp
next
  case (Suc m)
  let ?P = "\<lambda>i. right t (map (\<lambda>A. A ! i) ins) (out ! i)"
  from Suc.hyps(2) have e: "e < vectors" by simp
  then have le: "e * vecSize + vecSize \<le> vectors * vecSize"
    by (metis Suc_leI mult_le_mono1 mult_Suc add.commute)
  let ?ins = "map (drop (e * vecSize)) ins" and ?out = "drop (e * vecSize) out"
  have "\<exists>r. check T t ?ins ?out vecSize = Some r \<and> (r = 0 \<longleftrightarrow> (\<forall>i < vecSize. right t (map (\<lambda>A. A ! i) ?ins) (?out ! i)))"
    by (rule check_right [OF t(1)]) (use t le n in \<open>auto simp: values_of_def dest: in_set_dropD\<close>)
  then obtain r where r: "check T t ?ins ?out vecSize = Some r"
      "r = 0 \<longleftrightarrow> (\<forall>i < vecSize. right t (map (\<lambda>A. A ! i) ?ins) (?out ! i))" by blast
  have same: "right t (map (\<lambda>A. A ! i) ?ins) (?out ! i) = ?P (e * vecSize + i)" if "i < vecSize" for i
  proof -
    have "map (\<lambda>A. A ! i) ?ins = map (\<lambda>A. A ! (e * vecSize + i)) ins"
      using that t(3) le n by (simp add: values_of_def)
    moreover have "?out ! i = out ! (e * vecSize + i)" using that le n by simp
    ultimately show ?thesis by (simp only:)
  qed
  have here: "r = 0 \<longleftrightarrow> (\<forall>i. e * vecSize \<le> i \<and> i < e * vecSize + vecSize \<longrightarrow> ?P i)"
    unfolding r(2) using same by (metis add_less_cancel_left le_Suc_ex le_add1)
  have "\<exists>failed. check_vectors (check T t) ins out vecSize vectors (e + 1) = Some failed \<and>
      (failed \<longleftrightarrow> \<not> (\<forall>i. (e + 1) * vecSize \<le> i \<and> i < vectors * vecSize \<longrightarrow> ?P i))"
    using Suc.hyps(2) e by (intro Suc.hyps(1)) simp_all
  then obtain failed where later: "check_vectors (check T t) ins out vecSize vectors (e + 1) = Some failed"
      "failed \<longleftrightarrow> \<not> (\<forall>i. (e + 1) * vecSize \<le> i \<and> i < vectors * vecSize \<longrightarrow> ?P i)" by blast
  have split: "(\<forall>i. e * vecSize \<le> i \<and> i < vectors * vecSize \<longrightarrow> ?P i) \<longleftrightarrow>
      (\<forall>i. e * vecSize \<le> i \<and> i < e * vecSize + vecSize \<longrightarrow> ?P i) \<and>
      (\<forall>i. (e + 1) * vecSize \<le> i \<and> i < vectors * vecSize \<longrightarrow> ?P i)"
    using le by (auto simp: algebra_simps) (metis not_less)
  have "check_vectors (check T t) ins out vecSize vectors e = Some (r \<noteq> 0 \<or> failed)"
    using e r(1) later(1) by (subst check_vectors.simps) simp
  then show ?case unfolding split using here later(2) by blast
qed

lemma size_loop_verdict:
  assumes t: "t \<in> set (op_types T)" "length ins = arity T" "\<forall>A \<in> set ins. values_of t n A" and cl: "answers_type T cl t n"
  shows "set sizes \<subseteq> set vecSizes \<Longrightarrow> \<exists>fails. size_loop cl T t ins n sizes fail_count = Some (Inr fails) \<and>
    (fails = 0 \<longleftrightarrow> fail_count = 0 \<and> type_passed T right cl t n sizes ins)"
proof (induction sizes arbitrary: fail_count)
  case (Cons v sizes)
  have v: "create_kernel cl (kernel_text T t v) = 0" using cl Cons.prems by (simp add: answers_type_def)
  obtain out where out: "execute cl (kernel_text T t v) ins = Inr out" "n \<le> length out"
    using cl Cons.prems t(2,3) unfolding answers_type_def by (metis list.set_intros(1) subsetD)
  have results: "results cl (kernel_text T t v) ins = out" using out(1) by (simp add: results_def)
  obtain failed where f: "check_vectors (check T t) ins out v (n div v) 0 = Some failed"
      "failed \<longleftrightarrow> \<not> all_right right t ins out (n div v * v)"
    using check_vectors_verdict [OF t, of "n div v" v out 0] out(2) by (auto simp: all_right_def div_times_less_eq_dividend)
  show ?case
    using Cons.IH [of "if failed then fail_count + 1 else fail_count"] Cons.prems v out(1) f results
    by (auto simp: type_passed_def Let_def)
qed (simp add: type_passed_def)

lemma type_loop_verdict:
  assumes ins: "length ins = arity T" "\<forall>ws \<in> set ins. 4 * length ws = bytes"
  shows "set ts \<subseteq> set (op_types T) \<Longrightarrow>
    \<forall>t \<in> set ts. skipped_type gHasLong t \<or> answers_type T cl t (bytes div get_explicit_type_size t) \<Longrightarrow>
    \<exists>fails. type_loop cl gHasLong T ins bytes ts fail_count = Some (Inr fails) \<and>
      (fails = 0 \<longleftrightarrow> fail_count = 0 \<and> (\<forall>t \<in> set ts. skipped_type gHasLong t \<or>
        type_passed T right cl t (bytes div get_explicit_type_size t) vecSizes (map (elements t) ins)))"
proof (induction ts arbitrary: fail_count)
  case (Cons t ts)
  let ?n = "bytes div get_explicit_type_size t"
  have t: "t \<in> set (op_types T)" "t \<in> set tested_types" using Cons.prems(1) tested by auto
  show ?case
  proof (cases "skipped_type gHasLong t")
    case True
    then show ?thesis using Cons by simp
  next
    case False
    then have cl: "answers_type T cl t ?n" using Cons.prems(2) by simp
    have "\<exists>fails. size_loop cl T t (map (elements t) ins) ?n vecSizes fail_count = Some (Inr fails) \<and>
        (fails = 0 \<longleftrightarrow> fail_count = 0 \<and> type_passed T right cl t ?n vecSizes (map (elements t) ins))"
      by (rule size_loop_verdict [OF t(1) _ _ cl]) (use ins elements_values [OF t(2)] in auto)
    then obtain f where f: "size_loop cl T t (map (elements t) ins) ?n vecSizes fail_count = Some (Inr f)"
        "f = 0 \<longleftrightarrow> fail_count = 0 \<and> type_passed T right cl t ?n vecSizes (map (elements t) ins)" by blast
    have "\<forall>i \<le> arity T. create_buffer cl (get_explicit_type_name t) i" using cl by (simp add: answers_type_def)
    then show ?thesis using Cons.IH [of f] Cons.prems f False by auto
  qed
qed simp

lemma run_verdict:
  assumes draw: "draw_words gen (arity T) (words T * n_elems) d = Some (ins, d')" "length ins = arity T"
      "\<forall>ws \<in> set ins. length ws = words T * n_elems"
    and cl: "\<forall>t \<in> set (op_types T). skipped_type gHasLong t \<or> answers_type T cl t (4 * words T * n_elems div get_explicit_type_size t)"
  shows "\<exists>r. run_elementwise gen cl gHasLong T n_elems d = Some r \<and>
    (r = 0 \<longleftrightarrow> (\<forall>t \<in> set (op_types T). skipped_type gHasLong t \<or>
      type_passed T right cl t (4 * words T * n_elems div get_explicit_type_size t) vecSizes (map (elements t) ins)))"
proof -
  obtain fails where "type_loop cl gHasLong T ins (4 * words T * n_elems) (op_types T) 0 = Some (Inr fails)"
      "fails = 0 \<longleftrightarrow> 0 = (0 :: nat) \<and> (\<forall>t \<in> set (op_types T). skipped_type gHasLong t \<or>
        type_passed T right cl t (4 * words T * n_elems div get_explicit_type_size t) vecSizes (map (elements t) ins))"
    using type_loop_verdict [of ins "4 * words T * n_elems" "op_types T" gHasLong cl 0] draw(2,3) cl by (auto simp: mult.assoc)
  then show ?thesis using draw(1) by (simp add: run_elementwise_def)
qed

end

section \<open>The five tests are right\<close>

datatype elementwise_fn = AddSat | SubSat | Abs | AbsDiff | Popcount

definition elementwise_tests :: "elementwise_fn \<Rightarrow> elementwise_test" where
  "elementwise_tests fn = (case fn of AddSat \<Rightarrow> add_sat_test | SubSat \<Rightarrow> sub_sat_test
     | Abs \<Rightarrow> abs_test | AbsDiff \<Rightarrow> abs_diff_test | Popcount \<Rightarrow> popcount_test)"

definition elementwise_driver ::
    "('s \<Rightarrow> (u32 \<times> 's) option) \<Rightarrow> opencl \<Rightarrow> bool \<Rightarrow> elementwise_fn \<Rightarrow> nat \<Rightarrow> 's \<Rightarrow> int option" where
  "elementwise_driver gen cl gHasLong fn = (case fn of AddSat \<Rightarrow> test_integer_add_sat gen cl gHasLong
     | SubSat \<Rightarrow> test_integer_sub_sat gen cl gHasLong | Abs \<Rightarrow> test_integer_abs gen cl gHasLong
     | AbsDiff \<Rightarrow> test_integer_abs_diff gen cl gHasLong | Popcount \<Rightarrow> test_popcount gen cl gHasLong)"

lemma elementwise_driver: "elementwise_driver gen cl gHasLong fn n_elems d = run_elementwise gen cl gHasLong (elementwise_tests fn) n_elems d"
  by (cases fn) (simp_all add: elementwise_driver_def elementwise_tests_def test_integer_add_sat_def test_integer_sub_sat_def
    test_integer_abs_def test_integer_abs_diff_def test_popcount_def)

text \<open>What each function is to return: over the integers, then brought into the range of the type.\<close>

definition elementwise_right :: "elementwise_fn \<Rightarrow> ExplicitType \<Rightarrow> int list \<Rightarrow> int \<Rightarrow> bool" where
  "elementwise_right fn t args r \<longleftrightarrow> r = (case fn of
       AddSat \<Rightarrow> clamped t (args ! 0 + args ! 1)
     | SubSat \<Rightarrow> clamped t (args ! 0 - args ! 1)
     | Abs \<Rightarrow> \<bar>args ! 0\<bar>
     | AbsDiff \<Rightarrow> \<bar>args ! 0 - args ! 1\<bar>
     | Popcount \<Rightarrow> (\<Sum>i < width t. of_bool (bit (args ! 0) i)))"

lemmas test_records = add_sat_test_def sub_sat_test_def abs_test_def
  abs_diff_test_def popcount_test_def

lemma tests_tested: "set (op_types (elementwise_tests fn)) = set tested_types"
  by (cases fn) (auto simp: elementwise_tests_def test_records tested_types_def)

lemma check_unary_verdict:
  assumes "length ins = 1" "n \<le> length out" "\<forall>A \<in> set ins. n \<le> length A \<and> (\<forall>x \<in> set A. value_of_type t x)"
    and ref: "\<And>a. value_of_type t a \<Longrightarrow> right t [a] (ref t a)" "\<And>a r. right t [a] r \<Longrightarrow> right t [a] (ref t a) \<Longrightarrow> r = ref t a"
  shows "\<exists>r. check_unary ref t ins out n = Some r \<and> (r = 0 \<longleftrightarrow> (\<forall>i < n. right t (map (\<lambda>A. A ! i) ins) (out ! i)))"
proof -
  obtain A where A: "ins = [A]" using assms(1) by (auto simp: length_Suc_conv)
  have n: "n \<le> length A" and v: "value_of_type t (A ! i)" if "i < n" for i using assms(3) that A by auto
  have "right t [A ! i] (out ! i) \<longleftrightarrow> ref t (A ! i) = out ! i" if "i < n" for i
    using ref v [OF that] by metis
  then show ?thesis
    using verify_unary_verdict [of n A out "ref t" 0] assms(2,3) A by (auto simp: check_unary_def)
qed

lemma check_binary_verdict:
  assumes "length ins = 2" "n \<le> length out" "\<forall>A \<in> set ins. n \<le> length A \<and> (\<forall>x \<in> set A. value_of_type t x)"
    and ref: "\<And>a b. value_of_type t a \<Longrightarrow> value_of_type t b \<Longrightarrow> right t [a, b] (ref t a b)"
      "\<And>a b r. right t [a, b] r \<Longrightarrow> right t [a, b] (ref t a b) \<Longrightarrow> r = ref t a b"
  shows "\<exists>r. check_binary ref t ins out n = Some r \<and> (r = 0 \<longleftrightarrow> (\<forall>i < n. right t (map (\<lambda>A. A ! i) ins) (out ! i)))"
proof -
  obtain A B where A: "ins = [A, B]" using assms(1) by (auto simp: length_Suc_conv numeral_2_eq_2)
  have v: "value_of_type t (A ! i)" "value_of_type t (B ! i)" if "i < n" for i using assms(3) that A by auto
  have "right t [A ! i, B ! i] (out ! i) \<longleftrightarrow> ref t (A ! i) (B ! i) = out ! i" if "i < n" for i
    using ref v [OF that] by metis
  then show ?thesis
    using verify_binary_verdict [of n A B out "ref t" 0] assms(2,3) A by (auto simp: check_binary_def)
qed

interpretation elementwise_tests: elementwise "elementwise_tests fn" "elementwise_right fn" for fn
proof
  show "set (op_types (elementwise_tests fn)) \<subseteq> set tested_types" by (simp add: tests_tested)
  fix t :: ExplicitType and ins :: "int list list" and n :: nat and out :: "int list"
  assume "t \<in> set (op_types (elementwise_tests fn))" and ins: "length ins = arity (elementwise_tests fn)" "n \<le> length out"
    "\<forall>A \<in> set ins. n \<le> length A \<and> (\<forall>x \<in> set A. value_of_type t x)"
  then have t: "t \<in> set tested_types" by (simp add: tests_tested)
  show "\<exists>r. check (elementwise_tests fn) t ins out n = Some r \<and>
      (r = 0 \<longleftrightarrow> (\<forall>i < n. elementwise_right fn t (map (\<lambda>A. A ! i) ins) (out ! i)))"
  proof (cases fn)
    case AddSat
    have "\<exists>r. check_binary addsat_verify t ins out n = Some r \<and>
        (r = 0 \<longleftrightarrow> (\<forall>i < n. elementwise_right fn t (map (\<lambda>A. A ! i) ins) (out ! i)))"
      by (rule check_binary_verdict) (use AddSat ins addsat_correct [OF t] in \<open>simp_all add: elementwise_right_def elementwise_tests_def test_records\<close>)
    then show ?thesis using AddSat by (simp add: elementwise_tests_def test_records)
  next
    case SubSat
    have "\<exists>r. check_binary subsat_verify t ins out n = Some r \<and>
        (r = 0 \<longleftrightarrow> (\<forall>i < n. elementwise_right fn t (map (\<lambda>A. A ! i) ins) (out ! i)))"
      by (rule check_binary_verdict) (use SubSat ins subsat_correct [OF t] in \<open>simp_all add: elementwise_right_def elementwise_tests_def test_records\<close>)
    then show ?thesis using SubSat by (simp add: elementwise_tests_def test_records)
  next
    case Abs
    have "\<exists>r. check_unary abs_verify t ins out n = Some r \<and>
        (r = 0 \<longleftrightarrow> (\<forall>i < n. elementwise_right fn t (map (\<lambda>A. A ! i) ins) (out ! i)))"
      by (rule check_unary_verdict) (use Abs ins abs_correct [OF t] in \<open>simp_all add: elementwise_right_def elementwise_tests_def test_records\<close>)
    then show ?thesis using Abs by (simp add: elementwise_tests_def test_records)
  next
    case AbsDiff
    have "\<exists>r. check_binary abs_diff t ins out n = Some r \<and>
        (r = 0 \<longleftrightarrow> (\<forall>i < n. elementwise_right fn t (map (\<lambda>A. A ! i) ins) (out ! i)))"
      by (rule check_binary_verdict) (use AbsDiff ins abs_diff_correct [OF t] in \<open>simp_all add: elementwise_right_def elementwise_tests_def test_records\<close>)
    then show ?thesis using AbsDiff by (simp add: elementwise_tests_def test_records)
  next
    case Popcount
    have "\<exists>r. check_unary popcnt t ins out n = Some r \<and>
        (r = 0 \<longleftrightarrow> (\<forall>i < n. elementwise_right fn t (map (\<lambda>A. A ! i) ins) (out ! i)))"
      by (rule check_unary_verdict) (use Popcount ins popcnt_correct [OF t] in \<open>simp_all add: elementwise_right_def elementwise_tests_def test_records\<close>)
    then show ?thesis using Popcount by (simp add: elementwise_tests_def test_records)
  qed
qed

text \<open>All the results of a run are right: for every type that is not skipped, in every vector size.\<close>

definition elementwise_passed :: "opencl \<Rightarrow> bool \<Rightarrow> elementwise_fn \<Rightarrow> nat \<Rightarrow> u32 list list \<Rightarrow> bool" where
  "elementwise_passed cl gHasLong fn n_elems ins \<longleftrightarrow> (\<forall>t \<in> set tested_types. skipped_type gHasLong t \<or>
     type_passed (elementwise_tests fn) (elementwise_right fn) cl t
       (4 * words (elementwise_tests fn) * n_elems div get_explicit_type_size t) vecSizes (map (elements t) ins))"

definition elementwise_answers :: "opencl \<Rightarrow> bool \<Rightarrow> elementwise_fn \<Rightarrow> nat \<Rightarrow> bool" where
  "elementwise_answers cl gHasLong fn n_elems \<longleftrightarrow> (\<forall>t \<in> set tested_types. skipped_type gHasLong t \<or>
     answers_type (elementwise_tests fn) cl t (4 * words (elementwise_tests fn) * n_elems div get_explicit_type_size t))"

context random_source
begin

lemma draw_words_total:
  "inv s \<Longrightarrow> \<exists>wss s'. draw_words gen m n s = Some (wss, s') \<and> length wss = m \<and> (\<forall>ws \<in> set wss. length ws = n) \<and> inv s'"
proof (induction m arbitrary: s)
  case (Suc m)
  obtain ws s1 where "draws gen n s = Some (ws, s1)" "length ws = n" "inv s1"
    using draws_total [OF Suc.prems] by blast
  then show ?case using Suc.IH [of s1] by fastforce
qed simp

lemma elementwise_fn_verdict:
  assumes "inv d" "elementwise_answers cl gHasLong fn n_elems"
  shows "\<exists>ins d' r. draw_words gen (arity (elementwise_tests fn)) (words (elementwise_tests fn) * n_elems) d = Some (ins, d') \<and>
    elementwise_driver gen cl gHasLong fn n_elems d = Some r \<and>
    (r = 0 \<longleftrightarrow> elementwise_passed cl gHasLong fn n_elems ins)"
proof -
  obtain ins d' where ins: "draw_words gen (arity (elementwise_tests fn)) (words (elementwise_tests fn) * n_elems) d = Some (ins, d')"
      "length ins = arity (elementwise_tests fn)" "\<forall>ws \<in> set ins. length ws = words (elementwise_tests fn) * n_elems"
    using draw_words_total [OF assms(1)] by blast
  show ?thesis
    using elementwise_tests.run_verdict [OF ins, of gHasLong cl] assms(2) ins(1)
    by (auto simp: elementwise_answers_def elementwise_passed_def tests_tested elementwise_driver)
qed

end

end
