(* ===== verification/Integer24.thy ===== *)
theory Integer24
  imports IntegerElementwise
begin

text \<open>
  The tests of \<^verbatim>\<open>integer_ops/test_intmul24.cpp\<close> and \<^verbatim>\<open>test_intmad24.cpp\<close>: products of
  24-bit integers, and products with a third value added. Both first run the six signed kernels,
  then mask the factors and run the six unsigned ones. What is shown is which of the results the
  value returned says anything about. The OpenCL implementation is a parameter as in
  \<open>IntegerHarness\<close>; \<open>buffer_err\<close> is the code of a \<^verbatim>\<open>clCreateBuffer\<close> that failed.
\<close>

unbundle bit_operations_syntax

section \<open>The checks\<close>

text \<open>
  The factors of the signed check are sign-extended from 24 bits by two shifts; products and sums
  that leave the range of \<^verbatim>\<open>int\<close>, which C leaves undefined, wrap here.
\<close>

definition sign_extend_24 :: "int \<Rightarrow> int" where
  "sign_extend_24 v = drop_bit 8 (cast kInt (push_bit 8 v))"

definition verify_int_mul24 :: "int list \<Rightarrow> int list \<Rightarrow> int list \<Rightarrow> nat \<Rightarrow> int option" where
  "verify_int_mul24 inptrA inptrB outptr n =
     verify_binary (\<lambda>a b. cast kInt (sign_extend_24 a * sign_extend_24 b)) inptrA inptrB outptr n 0"

definition verify_uint_mul24 :: "int list \<Rightarrow> int list \<Rightarrow> int list \<Rightarrow> nat \<Rightarrow> int option" where
  "verify_uint_mul24 inptrA inptrB outptr n =
     verify_binary (\<lambda>a b. cast kUInt ((a AND 0xffffff) * (b AND 0xffffff))) inptrA inptrB outptr n 0"

function verify_ternary :: "(int \<Rightarrow> int \<Rightarrow> int \<Rightarrow> int) \<Rightarrow> int list \<Rightarrow> int list \<Rightarrow> int list \<Rightarrow> int list \<Rightarrow> nat \<Rightarrow> nat \<Rightarrow> int option" where
  "verify_ternary ref inA inB inC outptr n i =
     (if i < n then do {
        a \<leftarrow> rd inA i; b \<leftarrow> rd inB i; c \<leftarrow> rd inC i; out \<leftarrow> rd outptr i;
        if ref a b c \<noteq> out then Some (- 1) else verify_ternary ref inA inB inC outptr n (i + 1)
      } else Some 0)"
  by pat_completeness auto
termination
  by (relation "measure (\<lambda>(_, _, _, _, _, n, i). n - i)") auto

declare verify_ternary.simps [simp del]

definition verify_int_mad24 :: "int list \<Rightarrow> int list \<Rightarrow> int list \<Rightarrow> int list \<Rightarrow> nat \<Rightarrow> int option" where
  "verify_int_mad24 inptrA inptrB inptrC outptr n =
     verify_ternary (\<lambda>a b c. cast kInt (cast kInt (a * b) + c)) inptrA inptrB inptrC outptr n 0"

definition verify_uint_mad24 :: "int list \<Rightarrow> int list \<Rightarrow> int list \<Rightarrow> int list \<Rightarrow> nat \<Rightarrow> int option" where
  "verify_uint_mad24 inptrA inptrB inptrC outptr n =
     verify_ternary (\<lambda>a b c. cast kUInt (cast kUInt ((a AND 0xffffff) * (b AND 0xffffff)) + c)) inptrA inptrB inptrC outptr n 0"

section \<open>Inputs and kernels\<close>

definition random_int24 :: "('s \<Rightarrow> (u32 \<times> 's) option) \<Rightarrow> 's \<Rightarrow> (int \<times> 's) option" where
  "random_int24 gen d = do { (w, d) \<leftarrow> gen d; Some (sign_extend_24 (cast kInt (uint w)), d) }"

definition random_int32 :: "('s \<Rightarrow> (u32 \<times> 's) option) \<Rightarrow> 's \<Rightarrow> (int \<times> 's) option" where
  "random_int32 gen d = do { (w, d) \<leftarrow> gen d; Some (cast kInt (uint w), d) }"

fun fill_inputs :: "('s \<Rightarrow> (int \<times> 's) option) \<Rightarrow> nat \<Rightarrow> 's \<Rightarrow> (int list \<times> 's) option" where
  "fill_inputs draw 0 d = Some ([], d)"
| "fill_inputs draw (Suc n) d = do {
     (x, d) \<leftarrow> draw d; (xs, d) \<leftarrow> fill_inputs draw n d; Some (x # xs, d) }"

text \<open>The kernels of the two files, which are written out in each.\<close>

fun commas :: "string list \<Rightarrow> string" where
  "commas [] = ''''" | "commas [a] = a" | "commas (a # as) = a @ '', '' @ commas as"

definition kernel_24 :: "string \<Rightarrow> string list \<Rightarrow> string \<Rightarrow> string \<Rightarrow> nat \<Rightarrow> string" where
  "kernel_24 f srcs kernel_name t v = text_lines (
     [concat ([''__kernel void test_'', kernel_name, size_name v, ''_'', f, ''(''] @
        map (\<lambda>s. concat [''__global '', t, param_size_name v, '' *'', s, '', '']) srcs @
        [''__global '', t, param_size_name v, '' *dst)'']),
      ''{'',
      ''    int  tid = get_global_id(0);''] @
     (if v = 3 then
        [concat [''    '', t, ''3 tmp = '', f, ''('', commas (map (\<lambda>s. concat [''vload3(tid, '', s, '')'']) srcs), '');''],
         ''    vstore3(tmp, tid, dst);'']
      else ['''', concat [''    dst[tid] = '', f, ''('', commas (map (\<lambda>s. s @ ''[tid]'') srcs), '');'']]) @
     [''}''])"

text \<open>The unsigned kernels of \<^verbatim>\<open>test_intmul24.cpp\<close> are named like the signed ones.\<close>

datatype fn_24 = Mul24 | Mad24

definition signed_kernel :: "fn_24 \<Rightarrow> nat \<Rightarrow> string" where
  "signed_kernel fn v = (case fn of
     Mul24 \<Rightarrow> kernel_24 ''mul24'' [''srcA'', ''srcB''] ''int'' ''int'' v
   | Mad24 \<Rightarrow> kernel_24 ''mad24'' [''srcA'', ''srcB'', ''srcC''] ''int'' ''int'' v)"

definition unsigned_kernel :: "fn_24 \<Rightarrow> nat \<Rightarrow> string" where
  "unsigned_kernel fn v = (case fn of
     Mul24 \<Rightarrow> kernel_24 ''mul24'' [''srcA'', ''srcB''] ''int'' ''uint'' v
   | Mad24 \<Rightarrow> kernel_24 ''mad24'' [''srcA'', ''srcB'', ''srcC''] ''uint'' ''uint'' v)"

section \<open>The drivers\<close>

text \<open>
  One part of a driver: the loop over its six kernels, with the number of elements that are
  checked. \<open>Inl\<close> is the code of an OpenCL call that failed, \<open>Inr\<close> the value of
  \<^verbatim>\<open>err\<close> after the loop.
\<close>

fun part_loop :: "opencl \<Rightarrow> (nat \<Rightarrow> string) \<Rightarrow> (int list \<Rightarrow> nat \<Rightarrow> int option) \<Rightarrow> int list list \<Rightarrow> nat list \<Rightarrow> int \<Rightarrow> (int + int) option" where
  "part_loop cl source verify ins [] err = Some (Inr err)"
| "part_loop cl source verify ins (v # vs) err =
     (case execute cl (source v) ins of
        Inl e \<Rightarrow> Some (Inl e)
      | Inr out \<Rightarrow> do {
          r \<leftarrow> verify out v;
          if r \<noteq> 0 then Some (Inr (- 1)) else part_loop cl source verify ins vs 0 })"

text \<open>
  A mask of the factors: \<^verbatim>\<open>p[i] &= 0xffffffU\<close>; and the inputs read as \<^verbatim>\<open>cl_uint\<close>.
  The check of the signed products takes the width of the vector for the number of elements.
\<close>

definition mask_24 :: "int list \<Rightarrow> int list" where
  "mask_24 p = map (\<lambda>v. cast kInt (cast kUInt v AND 0xffffff)) p"

definition as_uints :: "int list \<Rightarrow> int list" where "as_uints p = map (cast kUInt) p"

definition test_integer_mul24 :: "('s \<Rightarrow> (u32 \<times> 's) option) \<Rightarrow> opencl \<Rightarrow> nat \<Rightarrow> 's \<Rightarrow> int option" where
  "test_integer_mul24 gen cl n_elems d =
     (if \<not> (\<forall>i < 3. create_buffer cl ''int'' i) then Some (- 1)
      else do {
        (a, d) \<leftarrow> fill_inputs (random_int24 gen) (16 * n_elems) d;
        (b, d) \<leftarrow> fill_inputs (random_int24 gen) (16 * n_elems) d;
        if \<exists>v \<in> set vecSizes. create_kernel cl (signed_kernel Mul24 v) \<noteq> 0 then Some (- 1)
        else if \<exists>v \<in> set vecSizes. create_kernel cl (unsigned_kernel Mul24 v) \<noteq> 0 then Some (- 1)
        else do {
          s \<leftarrow> part_loop cl (signed_kernel Mul24) (\<lambda>out v. verify_int_mul24 a b out v) [a, b] vecSizes 0;
          case s of Inl e \<Rightarrow> Some (- 1) | Inr err \<Rightarrow> do {
            let a = as_uints (mask_24 a); let b = as_uints (mask_24 b);
            u \<leftarrow> part_loop cl (unsigned_kernel Mul24) (\<lambda>out v. verify_uint_mul24 a b out (n_elems * v)) [a, b] vecSizes 0;
            case u of Inl e \<Rightarrow> Some (- 1) | Inr err \<Rightarrow> Some err } } })"

definition test_integer_mad24 :: "('s \<Rightarrow> (u32 \<times> 's) option) \<Rightarrow> opencl \<Rightarrow> int \<Rightarrow> nat \<Rightarrow> 's \<Rightarrow> int option" where
  "test_integer_mad24 gen cl buffer_err n_elems d =
     (if \<not> (\<forall>i < 4. create_buffer cl ''int'' i) then Some buffer_err
      else do {
        (a, d) \<leftarrow> fill_inputs (random_int24 gen) (16 * n_elems) d;
        (b, d) \<leftarrow> fill_inputs (random_int24 gen) (16 * n_elems) d;
        (c, d) \<leftarrow> fill_inputs (random_int32 gen) (16 * n_elems) d;
        if \<exists>v \<in> set vecSizes. create_kernel cl (signed_kernel Mad24 v) \<noteq> 0 then Some (- 1)
        else if \<exists>v \<in> set vecSizes. create_kernel cl (unsigned_kernel Mad24 v) \<noteq> 0 then Some (- 1)
        else do {
          s \<leftarrow> part_loop cl (signed_kernel Mad24) (\<lambda>out v. verify_int_mad24 a b c out (n_elems * v)) [a, b, c] vecSizes 0;
          case s of Inl e \<Rightarrow> Some e | Inr err \<Rightarrow> do {
            let a = as_uints (mask_24 a); let b = as_uints (mask_24 b); let c = as_uints c;
            u \<leftarrow> part_loop cl (unsigned_kernel Mad24) (\<lambda>out v. verify_uint_mad24 a b c out (n_elems * v)) [a, b, c] vecSizes 0;
            case u of Inl e \<Rightarrow> Some e | Inr err \<Rightarrow> Some err } } })"

section \<open>What the verdict says\<close>

text \<open>The two shifts extend the sign of 24 bits, and the mask keeps the low ones.\<close>

lemma sign_extend_24: "sign_extend_24 v = (v + 2 ^ 23) mod 2 ^ 24 - 2 ^ 23"
proof -
  have "cast kInt (push_bit 8 v) = ((v + 2 ^ 23) mod 2 ^ 24) * 2 ^ 8 - 2 ^ 31"
    using mult_mod_left [of "v + 2 ^ 23" "2 ^ 24" "2 ^ 8"]
    by (simp add: cast_def signed_type_def push_bit_eq_mult algebra_simps)
  also have "\<dots> = ((v + 2 ^ 23) mod 2 ^ 24 - 2 ^ 23) * 2 ^ 8" by simp
  finally show ?thesis by (simp add: sign_extend_24_def drop_bit_eq_div)
qed

lemma low_24: "v AND 0xffffff = v mod (2 :: int) ^ 24"
  using take_bit_eq_mask [of 24 v] by (simp add: take_bit_eq_mod mask_eq_exp_minus_1)

lemma masked_uints: "as_uints (mask_24 p) = map (\<lambda>v. v mod 2 ^ 24) p"
proof -
  have "cast kUInt (cast kInt (cast kUInt v AND 0xffffff)) = v mod 2 ^ 24" for v
  proof -
    have "cast kUInt v AND 0xffffff = v mod 2 ^ 24"
      by (simp add: low_24 cast_def signed_type_def mod_mod_cancel)
    moreover have "0 \<le> v mod 2 ^ 24" "v mod 2 ^ 24 < 2 ^ 24" by simp_all
    ultimately show ?thesis by (simp add: cast_def signed_type_def)
  qed
  then show ?thesis by (simp add: as_uints_def mask_24_def)
qed

lemma verify_ternary_verdict:
  assumes "n \<le> length A" "n \<le> length B" "n \<le> length C" "n \<le> length out"
  shows "verify_ternary ref A B C out n k =
    Some (if \<forall>j. k \<le> j \<and> j < n \<longrightarrow> ref (A ! j) (B ! j) (C ! j) = out ! j then 0 else - 1)"
proof (induction "n - k" arbitrary: k)
  case 0
  then show ?case by (subst verify_ternary.simps) simp
next
  case (Suc m)
  from Suc.hyps(2) have k: "k < n" by simp
  have all: "(\<forall>j. k \<le> j \<and> j < n \<longrightarrow> ref (A ! j) (B ! j) (C ! j) = out ! j) \<longleftrightarrow>
      ref (A ! k) (B ! k) (C ! k) = out ! k \<and> (\<forall>j. k + 1 \<le> j \<and> j < n \<longrightarrow> ref (A ! j) (B ! j) (C ! j) = out ! j)"
    using k by (auto simp: Suc_le_eq) (metis le_neq_implies_less)
  have "verify_ternary ref A B C out n (k + 1) =
      Some (if \<forall>j. k + 1 \<le> j \<and> j < n \<longrightarrow> ref (A ! j) (B ! j) (C ! j) = out ! j then 0 else - 1)"
    using Suc.hyps(2) by (intro Suc.hyps(1)) simp
  then show ?case unfolding all using k assms by (subst verify_ternary.simps) auto
qed

lemma part_loop_verdict:
  assumes run: "\<And>v. v \<in> set vs \<Longrightarrow> \<exists>out. execute cl (source v) ins = Inr out \<and> n \<le> length out"
    and ver: "\<And>v out. v \<in> set vs \<Longrightarrow> n \<le> length out \<Longrightarrow> \<exists>r. verify out v = Some r \<and> (r = 0 \<longleftrightarrow> ok v out)"
  shows "\<exists>r. part_loop cl source verify ins vs 0 = Some (Inr r) \<and>
    (r = 0 \<longleftrightarrow> (\<forall>v \<in> set vs. ok v (results cl (source v) ins)))"
  using assms
proof (induction vs)
  case (Cons v vs)
  obtain out where out: "execute cl (source v) ins = Inr out" "n \<le> length out" using Cons.prems(1) [of v] by auto
  obtain r where r: "verify out v = Some r" "r = 0 \<longleftrightarrow> ok v out" using Cons.prems(2) [OF _ out(2), of v] by auto
  obtain r' where "part_loop cl source verify ins vs 0 = Some (Inr r')"
      "r' = 0 \<longleftrightarrow> (\<forall>v \<in> set vs. ok v (results cl (source v) ins))"
    using Cons.IH Cons.prems by auto
  then show ?case using out r by (auto simp: results_def)
qed simp

lemma part_loop_ends:
  assumes "\<And>v. v \<in> set vs \<Longrightarrow> \<exists>out. execute cl (source v) ins = Inr out \<and> n \<le> length out"
    and "\<And>v out. v \<in> set vs \<Longrightarrow> n \<le> length out \<Longrightarrow> verify out v \<noteq> None"
  shows "\<exists>s. part_loop cl source verify ins vs 0 = Some (Inr s)"
  using part_loop_verdict [of vs cl source ins n verify "\<lambda>v out. verify out v = Some 0"] assms by fastforce

text \<open>An implementation that answers, with as many results as there are elements.\<close>

definition answers_24 :: "opencl \<Rightarrow> fn_24 \<Rightarrow> nat \<Rightarrow> bool" where
  "answers_24 cl fn n_elems \<longleftrightarrow> (\<forall>i < 4. create_buffer cl ''int'' i) \<and>
     (\<forall>v \<in> set vecSizes. \<forall>source \<in> {signed_kernel fn v, unsigned_kernel fn v}. create_kernel cl source = 0 \<and>
       (\<forall>ins. ins \<noteq> [] \<and> (\<forall>A \<in> set ins. length A = 16 * n_elems) \<longrightarrow>
         (\<exists>out. execute cl source ins = Inr out \<and> 16 * n_elems \<le> length out)))"

definition draw_24 :: "('s \<Rightarrow> (u32 \<times> 's) option) \<Rightarrow> fn_24 \<Rightarrow> nat \<Rightarrow> 's \<Rightarrow> (int list list \<times> 's) option" where
  "draw_24 gen fn n d = do {
     (a, d) \<leftarrow> fill_inputs (random_int24 gen) n d;
     (b, d) \<leftarrow> fill_inputs (random_int24 gen) n d;
     case fn of Mul24 \<Rightarrow> Some ([a, b], d)
     | Mad24 \<Rightarrow> do { (c, d) \<leftarrow> fill_inputs (random_int32 gen) n d; Some ([a, b, c], d) } }"

definition test_24 :: "('s \<Rightarrow> (u32 \<times> 's) option) \<Rightarrow> opencl \<Rightarrow> int \<Rightarrow> fn_24 \<Rightarrow> nat \<Rightarrow> 's \<Rightarrow> int option" where
  "test_24 gen cl buffer_err fn n_elems d = (case fn of
     Mul24 \<Rightarrow> test_integer_mul24 gen cl n_elems d | Mad24 \<Rightarrow> test_integer_mad24 gen cl buffer_err n_elems d)"

text \<open>The results of the unsigned kernels are right, and those of the signed kernels.\<close>

definition unsigned_passed :: "opencl \<Rightarrow> fn_24 \<Rightarrow> nat \<Rightarrow> int list list \<Rightarrow> bool" where
  "unsigned_passed cl fn n_elems ins \<longleftrightarrow>
     (let ins = map (map (\<lambda>v. v mod 2 ^ 24)) (take 2 ins) @ map (map (\<lambda>v. v mod 2 ^ 32)) (drop 2 ins)
      in \<forall>v \<in> set vecSizes. \<forall>i < n_elems * v. results cl (unsigned_kernel fn v) ins ! i =
        (ins ! 0 ! i * ins ! 1 ! i + (if fn = Mad24 then ins ! 2 ! i else 0)) mod 2 ^ 32)"

text \<open>The factors of the unsigned part are below \<^verbatim>\<open>2^24\<close>, so the masks of its check keep them.\<close>

lemma reference_24:
  "cast kUInt ((a mod 2 ^ 24 AND 0xffffff) * (b mod 2 ^ 24 AND 0xffffff)) = (a mod 2 ^ 24 * (b mod 2 ^ 24)) mod 2 ^ 32"
  "cast kUInt (cast kUInt ((a mod 2 ^ 24 AND 0xffffff) * (b mod 2 ^ 24 AND 0xffffff)) + c) = (a mod 2 ^ 24 * (b mod 2 ^ 24) + c) mod 2 ^ 32"
  by (simp_all add: low_24 cast_def signed_type_def mod_simps)

lemma vecSizes_bounds: "v \<in> set vecSizes \<Longrightarrow> n * v \<le> 16 * n" "v \<in> set vecSizes \<Longrightarrow> 0 < n \<Longrightarrow> v \<le> 16 * n" for n :: nat
  by (auto simp: vecSizes_def)

text \<open>The two loops always end with a value, and that of the unsigned one says which results are right.\<close>

lemma mul24_parts:
  assumes cl: "answers_24 cl Mul24 n_elems" and n: "0 < n_elems" "length a = 16 * n_elems" "length b = 16 * n_elems"
  shows "\<exists>s. part_loop cl (signed_kernel Mul24) (\<lambda>out v. verify_int_mul24 a b out v) [a, b] vecSizes 0 = Some (Inr s)"
    "\<exists>r. part_loop cl (unsigned_kernel Mul24) (\<lambda>out v. verify_uint_mul24 (as_uints (mask_24 a)) (as_uints (mask_24 b)) out (n_elems * v))
        [as_uints (mask_24 a), as_uints (mask_24 b)] vecSizes 0 = Some (Inr r) \<and> (r = 0 \<longleftrightarrow> unsigned_passed cl Mul24 n_elems [a, b])"
proof -
  show "\<exists>s. part_loop cl (signed_kernel Mul24) (\<lambda>out v. verify_int_mul24 a b out v) [a, b] vecSizes 0 = Some (Inr s)"
  proof (rule part_loop_ends)
    show "\<exists>out. execute cl (signed_kernel Mul24 v) [a, b] = Inr out \<and> 16 * n_elems \<le> length out" if "v \<in> set vecSizes" for v
      using cl that n by (simp add: answers_24_def)
    show "verify_int_mul24 a b out v \<noteq> None" if "v \<in> set vecSizes" "16 * n_elems \<le> length out" for v out
      unfolding verify_int_mul24_def
      by (subst verify_binary_verdict) (use that n order_trans [OF vecSizes_bounds(2) [OF that(1) n(1)]] in simp_all)
  qed
  let ?a = "map (\<lambda>v. v mod 2 ^ 24) a" and ?b = "map (\<lambda>v. v mod 2 ^ 24) b"
  have check: "\<exists>r. verify_uint_mul24 ?a ?b out (n_elems * v) = Some r \<and>
      (r = 0 \<longleftrightarrow> (\<forall>i < n_elems * v. out ! i = (?a ! i * ?b ! i) mod 2 ^ 32))"
    if v: "v \<in> set vecSizes" and out: "16 * n_elems \<le> length out" for v out
  proof -
    have len: "n_elems * v \<le> 16 * n_elems" by (rule vecSizes_bounds(1) [OF v])
    have "cast kUInt ((?a ! i AND 0xffffff) * (?b ! i AND 0xffffff)) = (?a ! i * ?b ! i) mod 2 ^ 32" if "i < n_elems * v" for i
      using order_less_le_trans [OF that len] n(2,3) by (simp only: nth_map reference_24(1))
    then show ?thesis
      unfolding verify_uint_mul24_def
      by (subst verify_binary_verdict) (use order_trans [OF len] out n(2,3) in \<open>auto\<close>)
  qed
  have "\<exists>r. part_loop cl (unsigned_kernel Mul24) (\<lambda>out v. verify_uint_mul24 ?a ?b out (n_elems * v)) [?a, ?b] vecSizes 0 = Some (Inr r) \<and>
      (r = 0 \<longleftrightarrow> (\<forall>v \<in> set vecSizes. \<forall>i < n_elems * v.
        results cl (unsigned_kernel Mul24 v) [?a, ?b] ! i = (?a ! i * ?b ! i) mod 2 ^ 32))"
    by (rule part_loop_verdict [OF _ check]) (use cl n in \<open>auto simp: answers_24_def\<close>)
  then show "\<exists>r. part_loop cl (unsigned_kernel Mul24) (\<lambda>out v. verify_uint_mul24 (as_uints (mask_24 a)) (as_uints (mask_24 b)) out (n_elems * v))
        [as_uints (mask_24 a), as_uints (mask_24 b)] vecSizes 0 = Some (Inr r) \<and> (r = 0 \<longleftrightarrow> unsigned_passed cl Mul24 n_elems [a, b])"
    by (simp add: masked_uints unsigned_passed_def Let_def)
qed

lemma mad24_parts:
  assumes cl: "answers_24 cl Mad24 n_elems" and n: "length a = 16 * n_elems" "length b = 16 * n_elems" "length c = 16 * n_elems"
  shows "\<exists>s. part_loop cl (signed_kernel Mad24) (\<lambda>out v. verify_int_mad24 a b c out (n_elems * v)) [a, b, c] vecSizes 0 = Some (Inr s)"
    "\<exists>r. part_loop cl (unsigned_kernel Mad24)
        (\<lambda>out v. verify_uint_mad24 (as_uints (mask_24 a)) (as_uints (mask_24 b)) (as_uints c) out (n_elems * v))
        [as_uints (mask_24 a), as_uints (mask_24 b), as_uints c] vecSizes 0 = Some (Inr r) \<and>
      (r = 0 \<longleftrightarrow> unsigned_passed cl Mad24 n_elems [a, b, c])"
proof -
  show "\<exists>s. part_loop cl (signed_kernel Mad24) (\<lambda>out v. verify_int_mad24 a b c out (n_elems * v)) [a, b, c] vecSizes 0 = Some (Inr s)"
  proof (rule part_loop_ends)
    show "\<exists>out. execute cl (signed_kernel Mad24 v) [a, b, c] = Inr out \<and> 16 * n_elems \<le> length out" if "v \<in> set vecSizes" for v
      using cl that n by (simp add: answers_24_def)
    show "verify_int_mad24 a b c out (n_elems * v) \<noteq> None" if "v \<in> set vecSizes" "16 * n_elems \<le> length out" for v out
      unfolding verify_int_mad24_def
      by (subst verify_ternary_verdict) (use that n order_trans [OF vecSizes_bounds(1) [OF that(1), of n_elems]] in simp_all)
  qed
  let ?a = "map (\<lambda>v. v mod 2 ^ 24) a" and ?b = "map (\<lambda>v. v mod 2 ^ 24) b" and ?c = "map (\<lambda>v. v mod 2 ^ 32) c"
  have uints: "as_uints c = ?c" by (simp add: as_uints_def cast_def signed_type_def)
  have check: "\<exists>r. verify_uint_mad24 ?a ?b ?c out (n_elems * v) = Some r \<and>
      (r = 0 \<longleftrightarrow> (\<forall>i < n_elems * v. out ! i = (?a ! i * ?b ! i + ?c ! i) mod 2 ^ 32))"
    if v: "v \<in> set vecSizes" and out: "16 * n_elems \<le> length out" for v out
  proof -
    have len: "n_elems * v \<le> 16 * n_elems" by (rule vecSizes_bounds(1) [OF v])
    have "cast kUInt (cast kUInt ((?a ! i AND 0xffffff) * (?b ! i AND 0xffffff)) + ?c ! i) = (?a ! i * ?b ! i + ?c ! i) mod 2 ^ 32"
      if "i < n_elems * v" for i
      using order_less_le_trans [OF that len] n by (simp only: nth_map reference_24(2))
    then show ?thesis
      unfolding verify_uint_mad24_def
      by (subst verify_ternary_verdict) (use order_trans [OF len] out n in \<open>auto\<close>)
  qed
  have "\<exists>r. part_loop cl (unsigned_kernel Mad24) (\<lambda>out v. verify_uint_mad24 ?a ?b ?c out (n_elems * v)) [?a, ?b, ?c] vecSizes 0 = Some (Inr r) \<and>
      (r = 0 \<longleftrightarrow> (\<forall>v \<in> set vecSizes. \<forall>i < n_elems * v.
        results cl (unsigned_kernel Mad24 v) [?a, ?b, ?c] ! i = (?a ! i * ?b ! i + ?c ! i) mod 2 ^ 32))"
    by (rule part_loop_verdict [OF _ check]) (use cl n in \<open>auto simp: answers_24_def\<close>)
  then show "\<exists>r. part_loop cl (unsigned_kernel Mad24)
        (\<lambda>out v. verify_uint_mad24 (as_uints (mask_24 a)) (as_uints (mask_24 b)) (as_uints c) out (n_elems * v))
        [as_uints (mask_24 a), as_uints (mask_24 b), as_uints c] vecSizes 0 = Some (Inr r) \<and>
      (r = 0 \<longleftrightarrow> unsigned_passed cl Mad24 n_elems [a, b, c])"
    by (simp add: masked_uints uints unsigned_passed_def Let_def numeral_2_eq_2)
qed

context random_source
begin

lemma fill_inputs_total:
  assumes "\<And>s. inv s \<Longrightarrow> \<exists>x s'. draw s = Some (x, s') \<and> inv s'"
  shows "inv s \<Longrightarrow> \<exists>xs s'. fill_inputs draw n s = Some (xs, s') \<and> length xs = n \<and> inv s'"
proof (induction n arbitrary: s)
  case (Suc n)
  obtain x s1 where "draw s = Some (x, s1)" "inv s1" using assms [OF Suc.prems] by blast
  then show ?case using Suc.IH [of s1] by fastforce
qed simp

lemma random_int24_total: "inv s \<Longrightarrow> \<exists>x s'. random_int24 gen s = Some (x, s') \<and> inv s'"
  using gen_total by (fastforce simp: random_int24_def)

lemma random_int32_total: "inv s \<Longrightarrow> \<exists>x s'. random_int32 gen s = Some (x, s') \<and> inv s'"
  using gen_total by (fastforce simp: random_int32_def)

lemma fill_24: "inv s \<Longrightarrow> \<exists>xs s'. fill_inputs (random_int24 gen) n s = Some (xs, s') \<and> length xs = n \<and> inv s'"
  by (rule fill_inputs_total [OF random_int24_total])

lemma fill_32: "inv s \<Longrightarrow> \<exists>xs s'. fill_inputs (random_int32 gen) n s = Some (xs, s') \<and> length xs = n \<and> inv s'"
  by (rule fill_inputs_total [OF random_int32_total])

lemma test_24_verdict:
  assumes "inv d" and n: "0 < n_elems" and cl: "answers_24 cl fn n_elems"
  shows "\<exists>ins d' r. draw_24 gen fn (16 * n_elems) d = Some (ins, d') \<and>
    test_24 gen cl buffer_err fn n_elems d = Some r \<and> (r = 0 \<longleftrightarrow> unsigned_passed cl fn n_elems ins)"
proof -
  obtain a d1 where a: "fill_inputs (random_int24 gen) (16 * n_elems) d = Some (a, d1)" "length a = 16 * n_elems" "inv d1"
    using fill_24 [OF assms(1)] by blast
  obtain b d2 where b: "fill_inputs (random_int24 gen) (16 * n_elems) d1 = Some (b, d2)" "length b = 16 * n_elems" "inv d2"
    using fill_24 [OF a(3)] by blast
  obtain c d3 where c: "fill_inputs (random_int32 gen) (16 * n_elems) d2 = Some (c, d3)" "length c = 16 * n_elems"
    using fill_32 [OF b(3)] by blast
  have here: "\<forall>i < 4. create_buffer cl ''int'' i" "\<forall>v \<in> set vecSizes. create_kernel cl (signed_kernel fn v) = 0 \<and> create_kernel cl (unsigned_kernel fn v) = 0"
    using cl by (auto simp: answers_24_def)
  show ?thesis
  proof (cases fn)
    case Mul24
    obtain s r where "part_loop cl (signed_kernel Mul24) (\<lambda>out v. verify_int_mul24 a b out v) [a, b] vecSizes 0 = Some (Inr s)"
        "part_loop cl (unsigned_kernel Mul24) (\<lambda>out v. verify_uint_mul24 (as_uints (mask_24 a)) (as_uints (mask_24 b)) out (n_elems * v))
          [as_uints (mask_24 a), as_uints (mask_24 b)] vecSizes 0 = Some (Inr r)"
        "r = 0 \<longleftrightarrow> unsigned_passed cl Mul24 n_elems [a, b]"
      using mul24_parts [OF _ n a(2) b(2)] cl Mul24 by blast
    then show ?thesis
      using here a(1) b(1) Mul24 by (simp add: draw_24_def test_24_def test_integer_mul24_def Let_def)
  next
    case Mad24
    obtain s r where "part_loop cl (signed_kernel Mad24) (\<lambda>out v. verify_int_mad24 a b c out (n_elems * v)) [a, b, c] vecSizes 0 = Some (Inr s)"
        "part_loop cl (unsigned_kernel Mad24)
          (\<lambda>out v. verify_uint_mad24 (as_uints (mask_24 a)) (as_uints (mask_24 b)) (as_uints c) out (n_elems * v))
          [as_uints (mask_24 a), as_uints (mask_24 b), as_uints c] vecSizes 0 = Some (Inr r)"
        "r = 0 \<longleftrightarrow> unsigned_passed cl Mad24 n_elems [a, b, c]"
      using mad24_parts [OF _ a(2) b(2) c(2)] cl Mad24 by blast
    then show ?thesis
      using here a(1) b(1) c(1) Mad24 by (simp add: draw_24_def test_24_def test_integer_mad24_def Let_def)
  qed
qed

end

end
