(* ===== verification/IntegerBitOps.thy ===== *)
theory IntegerBitOps
  imports IntegerElementwise
begin

text \<open>
  The tests of \<^verbatim>\<open>cl_khr_extended_bit_ops\<close>: \<^verbatim>\<open>test_extended_bit_ops_extract.cpp\<close>,
  \<^verbatim>\<open>_insert.cpp\<close> and \<^verbatim>\<open>_reverse.cpp\<close> of \<^verbatim>\<open>integer_ops\<close>. The references are shown
  to be right bit by bit, and the value a test returns to be 0 exactly when all results are right.
  An OpenCL implementation is as in \<open>IntegerHarness\<close>, with a second array of results for the
  kernel that stores two; the build options are put before the source. \<open>buffer_err\<close> is the code
  of a \<^verbatim>\<open>clCreateBuffer\<close> that failed.
\<close>

unbundle bit_operations_syntax

record opencl2 = opencl +
  execute2 :: "string \<Rightarrow> int list list \<Rightarrow> int + int list"

section \<open>The references\<close>

text \<open>
  \<^verbatim>\<open>None\<close> is a failed assertion. Values of a type narrower than \<^verbatim>\<open>int\<close> are promoted for
  the shifts and then stored in the unsigned type.
\<close>

definition arithmetic_shift_right :: "ExplicitType \<Rightarrow> int \<Rightarrow> nat \<Rightarrow> int" where
  "arithmetic_shift_right t tx count =
     (let u = unsigned_version t; x = cast u tx; s = cast u (- drop_bit (width t - 1) x)
      in cast u (drop_bit count (s XOR x) XOR s))"

definition bit_ranges :: "ExplicitType \<Rightarrow> nat \<Rightarrow> nat \<Rightarrow> bool" where
  "bit_ranges t offset count \<longleftrightarrow> offset \<le> width t \<and> count \<le> width t \<and> offset + count \<le> width t"

definition cpu_bit_extract_signed :: "ExplicitType \<Rightarrow> int \<Rightarrow> nat \<Rightarrow> nat \<Rightarrow> int option" where
  "cpu_bit_extract_signed t tbase offset count =
     (if \<not> bit_ranges t offset count then None
      else if count = 0 then Some 0
      else let base = cast (unsigned_version t) tbase;
               result = cast (unsigned_version t) (push_bit (width t - offset - count) base)
           in Some (arithmetic_shift_right (unsigned_version t) result (width t - count)))"

definition cpu_bit_extract_unsigned :: "ExplicitType \<Rightarrow> int \<Rightarrow> nat \<Rightarrow> nat \<Rightarrow> int option" where
  "cpu_bit_extract_unsigned t tbase offset count =
     (if \<not> bit_ranges t offset count then None
      else if count = 0 then Some 0
      else let base = cast (unsigned_version t) tbase;
               result = cast (unsigned_version t) (push_bit (width t - offset - count) base)
           in Some (drop_bit (width t - count) result))"

text \<open>
  The insertion works in 64 bits. At the offset 64, which is reached for 64-bit types, the shifts are
  not defined in C; \<open>oversized\<close> is what a shift by 64 gives.
\<close>

definition shift_left_64 :: "(int \<Rightarrow> int) \<Rightarrow> int \<Rightarrow> nat \<Rightarrow> int" where
  "shift_left_64 oversized v n = (if n < 64 then to_ULong (push_bit n v) else to_ULong (oversized v))"

definition cpu_bit_insert :: "(int \<Rightarrow> int) \<Rightarrow> ExplicitType \<Rightarrow> int \<Rightarrow> int \<Rightarrow> nat \<Rightarrow> nat \<Rightarrow> int option" where
  "cpu_bit_insert oversized t tbase tinsert offset count =
     (if \<not> bit_ranges t offset count then None
      else let base = to_ULong tbase; ins = to_ULong tinsert;
               mask = (if count < 64 then shift_left_64 oversized (shift_left_64 oversized 1 count - 1) offset
                       else to_ULong (NOT 0));
               result = (shift_left_64 oversized ins offset AND mask) OR (base AND to_ULong (NOT mask))
           in Some (cast (unsigned_version t) result))"

text \<open>The loop of the reversal, with the number of bits that are left.\<close>

definition promoted :: "ExplicitType \<Rightarrow> ExplicitType" where
  "promoted t = (if width t < 32 then kInt else t)"

fun reverse_loop :: "ExplicitType \<Rightarrow> int \<Rightarrow> nat \<Rightarrow> int \<Rightarrow> int" where
  "reverse_loop t base 0 result = result"
| "reverse_loop t base (Suc m) result =
     (let i = width t - Suc m
      in if base AND cast (promoted t) (push_bit i 1) \<noteq> 0
         then reverse_loop t base m (cast t (result OR cast (promoted t) (push_bit (width t - i - 1) 1)))
         else reverse_loop t base m result)"

definition cpu_bit_reverse :: "ExplicitType \<Rightarrow> int \<Rightarrow> int" where
  "cpu_bit_reverse t base = reverse_loop t base (width t) 0"

text \<open>The offset and the number of bits for the element at \<open>i\<close>, in vectors of \<open>N\<close>.\<close>

definition offset_and_count :: "ExplicitType \<Rightarrow> nat \<Rightarrow> nat \<Rightarrow> nat \<times> nat" where
  "offset_and_count t N i =
     (let offset = (i div N) div (width t + 1); count = (i div N) mod (width t + 1)
      in (offset, if offset + count > width t then width t - offset else count))"

definition extract_references :: "(ExplicitType \<Rightarrow> int \<Rightarrow> nat \<Rightarrow> nat \<Rightarrow> int option) \<Rightarrow> ExplicitType \<Rightarrow> nat \<Rightarrow> int list \<Rightarrow> int list option" where
  "extract_references f t N base =
     those (map (\<lambda>i. let (offset, count) = offset_and_count t N i in f t (base ! i) offset count) [0..<length base])"

definition insert_references :: "(int \<Rightarrow> int) \<Rightarrow> ExplicitType \<Rightarrow> nat \<Rightarrow> int list \<Rightarrow> int list \<Rightarrow> int list option" where
  "insert_references oversized t N base ins =
     those (map (\<lambda>i. let (offset, count) = offset_and_count t N i
       in cpu_bit_insert oversized t (base ! i) (ins ! i) offset count) [0..<length base])"

section \<open>The references are right\<close>

text \<open>A value of a type is the cast of any value with the same bits.\<close>

lemma cast_bits: "(\<And>j. j < width t \<Longrightarrow> bit x j = bit y j) \<Longrightarrow> cast t x = cast t y"
  by (rule cast_equal) (auto simp flip: take_bit_eq_mod intro!: bit_eqI simp: bit_take_bit_iff)

lemma single_bit:
  assumes t: "t \<in> set tested_types" and i: "i < width t"
  shows "cast (promoted t) (push_bit i 1) = (if signed_type t \<and> 32 \<le> width t \<and> i = width t - 1 then - (2 ^ i) else 2 ^ i)"
proof -
  have small: "(2 :: int) ^ i < 2 ^ n" if "i < n" for n using that by simp
  have le: "(2 :: int) ^ i \<le> 2 ^ (width t - 1)" using i by (intro power_increasing) auto
  have "i = width t - 1 \<or> i < width t - 1" using i by auto
  then show ?thesis
    using small [of "width t - 1"] small [OF i] le
    by (elim disjE; use t in \<open>elim tested_cases; simp add: promoted_def cast_def signed_type_def push_bit_eq_mult\<close>)
qed

lemma bit_test:
  assumes t: "t \<in> set tested_types" and i: "i < width t" and v: "value_of_type t base"
  shows "base AND cast (promoted t) (push_bit i 1) \<noteq> 0 \<longleftrightarrow> bit base i"
proof (cases "signed_type t \<and> 32 \<le> width t \<and> i = width t - 1")
  case True
  have range: "- (2 ^ i) \<le> base" "base < 2 ^ i" using v True by (simp_all add: value_of_type_def type_min_def type_max_def)
  have "base AND - (2 ^ i) = push_bit i (drop_bit i base)"
    by (rule bit_eqI) (auto simp: minus_exp_eq_not_mask bit_and_iff bit_not_iff bit_mask_iff bit_push_bit_iff bit_drop_bit_eq)
  then have "base AND - (2 ^ i) = 0 \<longleftrightarrow> base div 2 ^ i = 0" by (simp add: drop_bit_eq_div push_bit_eq_mult)
  moreover have "base div 2 ^ i = (if base < 0 then - 1 else 0)"
    using range int_div_pos_eq [of base "2 ^ i" "- 1" "base + 2 ^ i"] by simp
  ultimately show ?thesis using single_bit [OF t i] True by (simp add: bit_iff_odd)
next
  case False
  have "base AND 2 ^ i = of_bool (bit base i) * 2 ^ i"
    by (rule bit_eqI) (auto simp: bit_and_iff bit_exp_iff)
  then show ?thesis unfolding single_bit [OF t i] if_not_P [OF False] by simp
qed

lemma reverse_loop_bits:
  assumes t: "t \<in> set tested_types" and v: "value_of_type t base"
  shows "m \<le> width t \<Longrightarrow> value_of_type t r \<Longrightarrow> value_of_type t (reverse_loop t base m r) \<and>
    (\<forall>j < width t. bit (reverse_loop t base m r) j \<longleftrightarrow> bit r j \<or> (j < m \<and> bit base (width t - 1 - j)))"
proof (induction m arbitrary: r)
  case (Suc m)
  let ?i = "width t - Suc m"
  let ?r = "if bit base ?i then cast t (r OR cast (promoted t) (push_bit m 1)) else r"
  have i: "?i < width t" "width t - ?i - 1 = m" "width t - 1 - m = ?i" using Suc.prems(1) by auto
  have step: "reverse_loop t base (Suc m) r = reverse_loop t base m ?r"
    using bit_test [OF t i(1) v] i(2) by (simp add: Let_def)
  have bits: "bit ?r j \<longleftrightarrow> bit r j \<or> (j = m \<and> bit base ?i)" if "j < width t" for j
  proof -
    have "j < width (promoted t)" using that by (simp add: promoted_def)
    then show ?thesis using that by (auto simp: bit_cast bit_or_iff bit_exp_iff)
  qed
  have "value_of_type t ?r" using Suc.prems(2) cast_in_type [OF tested_integer [OF t]] by simp
  then have "value_of_type t (reverse_loop t base m ?r)"
      "\<forall>j < width t. bit (reverse_loop t base m ?r) j \<longleftrightarrow> bit ?r j \<or> (j < m \<and> bit base (width t - 1 - j))"
    using Suc.IH [of ?r] Suc.prems(1) by simp_all
  then show ?case unfolding step using bits i(3) by (auto simp: less_Suc_eq)
qed simp

text \<open>The reversal of a value has its bits in the opposite order.\<close>

definition reversed :: "ExplicitType \<Rightarrow> int \<Rightarrow> int \<Rightarrow> bool" where
  "reversed t a r \<longleftrightarrow> value_of_type t r \<and> (\<forall>j < width t. bit r j \<longleftrightarrow> bit a (width t - 1 - j))"

lemma value_of_bits:
  assumes "t \<in> set tested_types" "value_of_type t x" "value_of_type t y" "\<And>j. j < width t \<Longrightarrow> bit x j \<longleftrightarrow> bit y j"
  shows "x = y"
  using cast_bits [of t x y] assms(2-4) tested_cast_id [OF assms(1)] by metis

lemma reverse_correct:
  assumes t: "t \<in> set tested_types" and v: "value_of_type t a"
  shows "reversed t a r \<longleftrightarrow> r = cpu_bit_reverse t a"
proof -
  have "reversed t a (cpu_bit_reverse t a)"
    using reverse_loop_bits [OF t v, of "width t" 0] zero_in_type [OF t] by (simp add: reversed_def cpu_bit_reverse_def)
  then show ?thesis using value_of_bits [OF t] by (auto simp: reversed_def)
qed

text \<open>The bits of a field, as an unsigned value, and with its sign extended.\<close>

definition field :: "int \<Rightarrow> nat \<Rightarrow> nat \<Rightarrow> int" where
  "field a offset count = (a div 2 ^ offset) mod 2 ^ count"

definition signed_field :: "int \<Rightarrow> nat \<Rightarrow> nat \<Rightarrow> int" where
  "signed_field a offset count =
     (if count = 0 then 0 else (field a offset count + 2 ^ (count - 1)) mod 2 ^ count - 2 ^ (count - 1))"

lemma bit_field: "bit (field a offset count) j \<longleftrightarrow> j < count \<and> bit a (offset + j)"
  by (simp add: field_def bit_take_bit_iff bit_drop_bit_eq flip: take_bit_eq_mod drop_bit_eq_div)

lemma shifted_field:
  assumes t: "t \<in> set tested_types" and c: "offset + count \<le> width t"
  shows "bit (cast (unsigned_version t) (push_bit (width t - offset - count) (cast (unsigned_version t) a))) (width t - count + j) \<longleftrightarrow>
    bit (field a offset count) j"
proof (cases "j < count")
  case True
  then have "width t - count + j < width t" "width t - offset - count \<le> width t - count + j"
      "width t - count + j - (width t - offset - count) = offset + j" using c by auto
  then show ?thesis using True t c by (simp add: bit_cast bit_push_bit_iff bit_field add.commute)
next
  case False
  then have "\<not> width t - count + j < width t" using c by simp
  then show ?thesis using t False by (simp add: cast_unsigned bit_take_bit_iff bit_field flip: take_bit_eq_mod)
qed

lemma extract_unsigned_correct:
  assumes t: "t \<in> set tested_types" and c: "offset + count \<le> width t"
  shows "cpu_bit_extract_unsigned t a offset count = Some (field a offset count)"
proof -
  have "drop_bit (width t - count) (cast (unsigned_version t) (push_bit (width t - offset - count) (cast (unsigned_version t) a))) =
      field a offset count"
    by (rule bit_eqI) (simp only: bit_drop_bit_eq o_apply shifted_field [OF assms])
  then show ?thesis using c by (auto simp: cpu_bit_extract_unsigned_def bit_ranges_def field_def Let_def)
qed

lemma arithmetic_shift_right_bits:
  assumes t: "t \<in> set tested_types" and x: "cast (unsigned_version t) x = x" and n: "n < width t" and j: "j < width t"
  shows "bit (arithmetic_shift_right t x n) j \<longleftrightarrow> bit x (min (j + n) (width t - 1))"
proof -
  let ?u = "unsigned_version t" and ?w = "width t"
  have w: "0 < ?w" using n by simp
  have range: "bit x k \<Longrightarrow> k < ?w" for k
    using x unsigned_version [OF t] by (metis bit_take_bit_iff cast_unsigned take_bit_eq_mod)
  have high: "drop_bit (?w - 1) x = of_bool (bit x (?w - 1))"
  proof (rule bit_eqI)
    fix k
    have "bit x (?w - 1 + k) \<Longrightarrow> k = 0" using range [of "?w - 1 + k"] w by simp
    then show "bit (drop_bit (?w - 1) x) k \<longleftrightarrow> bit (of_bool (bit x (?w - 1)) :: int) k"
      by (cases "k = 0") (auto simp: bit_drop_bit_eq bit_of_bool_iff)
  qed
  define S where "S = cast ?u (- drop_bit (?w - 1) x)"
  have s: "bit S k \<longleftrightarrow> bit x (?w - 1) \<and> k < ?w" for k
    unfolding S_def high using unsigned_version [OF t] by (auto simp: cast_unsigned bit_take_bit_iff simp flip: take_bit_eq_mod)
  show ?thesis
    using j n range [of "j + n"] t unfolding arithmetic_shift_right_def Let_def x S_def [symmetric]
    by (auto simp: bit_cast bit_xor_iff bit_drop_bit_eq s min_def add.commute)
qed

lemma bit_signed_field: "0 < count \<Longrightarrow> bit (signed_field a offset count) j \<longleftrightarrow> bit (field a offset count) (min j (count - 1))"
proof -
  assume c: "0 < count"
  have "signed_field a offset count = signed_take_bit (count - 1) (field a offset count)"
    using c by (simp add: signed_field_def signed_take_bit_eq_take_bit_shift take_bit_eq_mod)
  then show ?thesis by (simp add: bit_signed_take_bit_iff min.commute)
qed

lemma extract_signed_correct:
  assumes t: "t \<in> set tested_types" and c: "offset + count \<le> width t"
  shows "cpu_bit_extract_signed t a offset count = Some (cast (unsigned_version t) (signed_field a offset count))"
proof (cases "count = 0")
  case True
  then show ?thesis using c t by (simp add: cpu_bit_extract_signed_def bit_ranges_def signed_field_def cast_unsigned)
next
  case False
  let ?u = "unsigned_version t"
  let ?x = "cast ?u (push_bit (width t - offset - count) (cast ?u a))"
  have u: "?u \<in> set tested_types" "unsigned_version ?u = ?u" "width ?u = width t" "cast ?u ?x = ?x"
    using t by (elim tested_cases; simp add: unsigned_version_def cast_unsigned signed_type_def)+
  have n: "width ?u - count < width ?u" using c False u(3) by simp
  have "bit (arithmetic_shift_right ?u ?x (width t - count)) j \<longleftrightarrow> bit (signed_field a offset count) j" if "j < width t" for j
  proof -
    have "min (j + (width t - count)) (width t - 1) = width t - count + min j (count - 1)" using c False by auto
    then show ?thesis
      using arithmetic_shift_right_bits [OF u(1) _ n, of ?x j] that u False shifted_field [OF t c, of a "min j (count - 1)"]
      by (simp add: bit_signed_field)
  qed
  then have "cast ?u (arithmetic_shift_right ?u ?x (width t - count)) = cast ?u (signed_field a offset count)"
    using u(3) by (intro cast_bits) simp
  moreover have "cast ?u (arithmetic_shift_right ?u ?x (width t - count)) = arithmetic_shift_right ?u ?x (width t - count)"
    unfolding arithmetic_shift_right_def Let_def u(2) by (rule tested_cast_id [OF u(1) cast_in_type [OF tested_integer [OF u(1)]]])
  ultimately show ?thesis using c False by (simp add: cpu_bit_extract_signed_def bit_ranges_def Let_def)
qed

text \<open>The insertion replaces the bits of a field.\<close>

definition inserted :: "ExplicitType \<Rightarrow> int \<Rightarrow> int \<Rightarrow> nat \<Rightarrow> nat \<Rightarrow> int \<Rightarrow> bool" where
  "inserted t a b offset count r \<longleftrightarrow> 0 \<le> r \<and> r < 2 ^ width t \<and>
     (\<forall>j < width t. bit r j \<longleftrightarrow> (if offset \<le> j \<and> j < offset + count then bit b (j - offset) else bit a j))"

lemma bit_to_ULong: "bit (to_ULong v) j \<longleftrightarrow> j < 64 \<and> bit v j"
  by (simp add: to_ULong_take_bit bit_take_bit_iff)

lemma insert_mask:
  assumes c: "offset + count \<le> 64" and over: "oversized 0 = 0" and j: "j < 64"
  shows "bit (if count < 64 then shift_left_64 oversized (shift_left_64 oversized 1 count - 1) offset else to_ULong (NOT 0)) j \<longleftrightarrow>
    offset \<le> j \<and> j < offset + count"
proof (cases "count < 64")
  case True
  have "(2 :: int) ^ count < 2 ^ 64" using True by (intro power_strict_increasing) auto
  then have ones: "shift_left_64 oversized 1 count - 1 = mask count"
    using True by (simp add: shift_left_64_def to_ULong_def mask_eq_exp_minus_1)
  show ?thesis
  proof (cases "offset < 64")
    case True
    then show ?thesis unfolding ones if_P [OF \<open>count < 64\<close>]
      using j by (auto simp: shift_left_64_def bit_to_ULong bit_push_bit_iff bit_mask_iff)
  next
    case False
    then have "count = 0" using c by simp
    then show ?thesis unfolding ones if_P [OF \<open>count < 64\<close>]
      using False j by (simp add: shift_left_64_def over to_ULong_def)
  qed
next
  case False
  then show ?thesis using c j by (simp add: bit_to_ULong bit_not_iff)
qed

lemma insert_correct:
  assumes t: "t \<in> set tested_types" and c: "offset + count \<le> width t" and over: "oversized 0 = 0"
  shows "\<exists>x. cpu_bit_insert oversized t a b offset count = Some x \<and> (\<forall>r. inserted t a b offset count r \<longleftrightarrow> r = x)"
proof -
  let ?mask = "if count < 64 then shift_left_64 oversized (shift_left_64 oversized 1 count - 1) offset else to_ULong (NOT 0)"
  let ?r = "(shift_left_64 oversized (to_ULong b) offset AND ?mask) OR (to_ULong a AND to_ULong (NOT ?mask))"
  let ?u = "unsigned_version t"
  have u: "width ?u = width t" "cast ?u v = v mod 2 ^ width t" for v using t by (simp_all add: cast_unsigned)
  have w: "width t \<le> 64" using tested_width [OF t] by simp
  have mask: "bit ?mask j \<longleftrightarrow> offset \<le> j \<and> j < offset + count" if "j < 64" for j
    by (rule insert_mask [where oversized = oversized, OF _ over that]) (use c w in simp)
  have bits: "bit (cast ?u ?r) j \<longleftrightarrow> (if offset \<le> j \<and> j < offset + count then bit b (j - offset) else bit a j)" if j: "j < width t" for j
  proof -
    have j64: "j < 64" using j w by simp
    have shifted: "bit (shift_left_64 oversized (to_ULong b) offset) j \<longleftrightarrow> bit b (j - offset)" if "offset \<le> j"
      using that j64 less_imp_diff_less [OF j64, of offset] by (simp add: shift_left_64_def bit_to_ULong bit_push_bit_iff)
    have "bit (cast ?u ?r) j = bit ?r j" using j u(1) by (simp add: bit_cast)
    also have "\<dots> \<longleftrightarrow> (if offset \<le> j \<and> j < offset + count then bit b (j - offset) else bit a j)"
      unfolding bit_or_iff bit_and_iff bit_to_ULong bit_not_iff mask [OF j64] using shifted j64 by auto
    finally show ?thesis .
  qed
  have "cpu_bit_insert oversized t a b offset count = Some (cast ?u ?r)"
    using c by (simp only: cpu_bit_insert_def Let_def bit_ranges_def) simp
  moreover have "inserted t a b offset count r \<longleftrightarrow> r = cast ?u ?r" for r
  proof
    assume "inserted t a b offset count r"
    then have r: "r mod 2 ^ width t = r" "\<And>j. j < width t \<Longrightarrow> bit r j \<longleftrightarrow> bit (cast ?u ?r) j"
      using bits by (auto simp: inserted_def)
    have "cast ?u r = cast ?u (cast ?u ?r)" by (rule cast_bits) (use r(2) u(1) in simp)
    then show "r = cast ?u ?r" using r(1) u(2) by simp
  next
    assume "r = cast ?u ?r"
    then show "inserted t a b offset count r" using bits u(2) by (simp add: inserted_def)
  qed
  ultimately show ?thesis by blast
qed

lemma offset_and_count_range:
  assumes "i < (width t + 1) * (width t + 1) * N" "offset_and_count t N i = (offset, count)"
  shows "offset + count \<le> width t"
proof -
  have "i div N < (width t + 1) * (width t + 1)"
    using assms(1) by (metis less_mult_imp_div_less)
  then have "(i div N) div (width t + 1) < width t + 1" by (rule less_mult_imp_div_less)
  then show ?thesis using assms(2) by (auto simp: offset_and_count_def Let_def split: if_splits)
qed

section \<open>The drivers\<close>

text \<open>
  The harness's codes are 0 for a pass, 1 for a failure and -100 for a test that skipped itself. An
  OpenCL call that fails ends the run of a vector size with its error code.
\<close>

definition signed_version :: "ExplicitType \<Rightarrow> ExplicitType" where
  "signed_version t = (case t of kUChar \<Rightarrow> kChar | kUShort \<Rightarrow> kShort | kUInt \<Rightarrow> kInt | kULong \<Rightarrow> kLong | _ \<Rightarrow> t)"

definition vector_suffix :: "nat \<Rightarrow> string" where
  "vector_suffix N = (if N > 1 then decimal N else '''')"

definition bit_op_options :: "ExplicitType \<Rightarrow> nat \<Rightarrow> string" where
  "bit_op_options t N = concat [''-DTYPE='', get_explicit_type_name t, vector_suffix N, '' -DBASETYPE='', get_explicit_type_name t]"

definition extract_options :: "ExplicitType \<Rightarrow> nat \<Rightarrow> string" where
  "extract_options t N =
     (let tn = get_explicit_type_name t; sn = get_explicit_type_name (signed_version t);
          un = get_explicit_type_name (unsigned_version t); v = vector_suffix N
      in concat ['' -DTYPE='', tn, v, '' -DSIGNED_TYPE='', sn, v, '' -DUNSIGNED_TYPE='', un, v,
        '' -DBASETYPE='', tn, '' -DSIGNED_BASETYPE='', sn, '' -DUNSIGNED_BASETYPE='', un])"

definition range_lines :: "string list" where
  "range_lines =
    [''    int index = get_global_id(0);'',
     ''    uint offset = index / (sizeof(BASETYPE) * 8 + 1);'',
     ''    uint count = index % (sizeof(BASETYPE) * 8 + 1);'',
     ''    if (offset + count > sizeof(BASETYPE) * 8) {'',
     ''        count = (sizeof(BASETYPE) * 8) - offset;'',
     ''    }'']"

definition extract_kernel :: "nat \<Rightarrow> string" where
  "extract_kernel N = text_lines (if N = 3 then
     ['''', ''__kernel void test_bitfield_extract(__global SIGNED_BASETYPE* sdst, __global UNSIGNED_BASETYPE* udst, __global BASETYPE* base)'',
      ''{''] @ range_lines @
     [''    TYPE b = vload3(index, base);'',
      ''    SIGNED_TYPE s = bitfield_extract_signed(b, offset, count);'',
      ''    UNSIGNED_TYPE u = bitfield_extract_unsigned(b, offset, count);'',
      ''    vstore3(s, index, sdst);'',
      ''    vstore3(u, index, udst);'', ''}'']
   else
     ['''', ''__kernel void test_bitfield_extract(__global SIGNED_TYPE* sdst, __global UNSIGNED_TYPE* udst, __global TYPE* base)'',
      ''{''] @ range_lines @
     [''    sdst[index] = bitfield_extract_signed(base[index], offset, count);'',
      ''    udst[index] = bitfield_extract_unsigned(base[index], offset, count);'', ''}''])"

definition insert_kernel :: "nat \<Rightarrow> string" where
  "insert_kernel N = text_lines (if N = 3 then
     ['''', ''__kernel void test_bitfield_insert(__global BASETYPE* dst, __global BASETYPE* base, __global BASETYPE* insert)'',
      ''{''] @ range_lines @
     [''    TYPE b = vload3(index, base);'', ''    TYPE i = vload3(index, insert);'',
      ''    TYPE d = bitfield_insert(b, i, offset, count);'', ''    vstore3(d, index, dst);'', ''}'']
   else
     ['''', ''__kernel void test_bitfield_insert(__global TYPE* dst, __global TYPE* base, __global TYPE* insert)'',
      ''{''] @ range_lines @
     [''    dst[index] = bitfield_insert(base[index], insert[index], offset, count);'', ''}''])"

definition reverse_kernel :: "nat \<Rightarrow> string" where
  "reverse_kernel N = text_lines (if N = 3 then
     ['''', ''__kernel void test_bit_reverse(__global BASETYPE* dst, __global BASETYPE* base)'', ''{'',
      ''    int index = get_global_id(0);'', ''    TYPE s = vload3(index, base);'',
      ''    TYPE d = bit_reverse(s);'', ''    vstore3(d, index, dst);'', ''}'']
   else
     ['''', ''__kernel void test_bit_reverse(__global TYPE* dst, __global TYPE* base)'', ''{'',
      ''    int index = get_global_id(0);'', ''    dst[index] = bit_reverse(base[index]);'', ''}''])"

text \<open>\<^verbatim>\<open>fill_vector_with_random_data\<close> starts a generator of its own, in the state \<open>d\<close>.\<close>

definition fill_vector_with_random_data :: "('s \<Rightarrow> (u32 \<times> 's) option) \<Rightarrow> 's \<Rightarrow> ExplicitType \<Rightarrow> nat \<Rightarrow> int list option" where
  "fill_vector_with_random_data gen d t n = do { (v, _) \<leftarrow> generate_random_data gen t n d; Some v }"

text \<open>Building and running the kernel, with the error codes returned, and the comparison of an array.\<close>

definition run_bit_kernel :: "opencl2 \<Rightarrow> int \<Rightarrow> nat \<Rightarrow> string \<Rightarrow> int list list \<Rightarrow> int + int list" where
  "run_bit_kernel cl buffer_err buffers source ins =
     (let error = create_kernel cl source
      in if error \<noteq> 0 then Inl error
         else if \<not> (\<forall>i < buffers. create_buffer cl source i) then Inl buffer_err
         else execute cl source ins)"

definition compare_results :: "int list \<Rightarrow> int list \<Rightarrow> int" where
  "compare_results out reference = (if out \<noteq> reference then 1 else 0)"

definition extract_vectype :: "('s \<Rightarrow> (u32 \<times> 's) option) \<Rightarrow> 's \<Rightarrow> opencl2 \<Rightarrow> int \<Rightarrow> ExplicitType \<Rightarrow> nat \<Rightarrow> int option" where
  "extract_vectype gen d cl buffer_err t N = do {
     base \<leftarrow> fill_vector_with_random_data gen d t ((width t + 1) * (width t + 1) * N);
     sreference \<leftarrow> extract_references cpu_bit_extract_signed t N base;
     ureference \<leftarrow> extract_references cpu_bit_extract_unsigned t N base;
     let source = extract_options t N @ extract_kernel N;
     case run_bit_kernel cl buffer_err 3 source [base] of
       Inl e \<Rightarrow> Some e
     | Inr sresults \<Rightarrow>
         if compare_results sresults sreference \<noteq> 0 then Some 1
         else case execute2 cl source [base] of Inl e \<Rightarrow> Some e | Inr uresults \<Rightarrow> Some (compare_results uresults ureference) }"

definition insert_vectype :: "('s \<Rightarrow> (u32 \<times> 's) option) \<Rightarrow> 's \<Rightarrow> opencl2 \<Rightarrow> int \<Rightarrow> (int \<Rightarrow> int) \<Rightarrow> ExplicitType \<Rightarrow> nat \<Rightarrow> int option" where
  "insert_vectype gen d cl buffer_err oversized t N = do {
     let base = replicate ((width t + 1) * (width t + 1) * N) (cast t 0xA5A5A5A5A5A5A5A5);
     ins \<leftarrow> fill_vector_with_random_data gen d t ((width t + 1) * (width t + 1) * N);
     reference \<leftarrow> insert_references oversized t N base ins;
     case run_bit_kernel cl buffer_err 3 (bit_op_options t N @ insert_kernel N) [base, ins] of
       Inl e \<Rightarrow> Some e | Inr out \<Rightarrow> Some (compare_results out reference) }"

definition reverse_vectype :: "('s \<Rightarrow> (u32 \<times> 's) option) \<Rightarrow> 's \<Rightarrow> opencl2 \<Rightarrow> int \<Rightarrow> ExplicitType \<Rightarrow> nat \<Rightarrow> int option" where
  "reverse_vectype gen d cl buffer_err t N = do {
     base \<leftarrow> fill_vector_with_random_data gen d t (65536 * N);
     case run_bit_kernel cl buffer_err 2 (bit_op_options t N @ reverse_kernel N) [base] of
       Inl e \<Rightarrow> Some e | Inr out \<Rightarrow> Some (compare_results out (map (cpu_bit_reverse t) base)) }"

text \<open>The three files have the same loops over vector sizes and types, which \<^verbatim>\<open>or\<close> the codes together.\<close>

definition or_codes :: "int option list \<Rightarrow> int option" where
  "or_codes rs = map_option (\<lambda>rs. foldl (OR) 0 rs) (those rs)"

definition bit_types :: "bool \<Rightarrow> ExplicitType list" where
  "bit_types gHasLong = [kChar, kUChar, kShort, kUShort, kInt, kUInt] @ (if gHasLong then [kLong, kULong] else [])"

definition test_extended_bit_ops :: "(ExplicitType \<Rightarrow> nat \<Rightarrow> int option) \<Rightarrow> bool \<Rightarrow> bool \<Rightarrow> int option" where
  "test_extended_bit_ops vectype available gHasLong =
     (if available then or_codes (map (\<lambda>t. or_codes (map (vectype t) vecSizes)) (bit_types gHasLong)) else Some (- 100))"

datatype bit_op = BitExtract | BitInsert | BitReverse

definition bit_op_vectype ::
    "('s \<Rightarrow> (u32 \<times> 's) option) \<Rightarrow> 's \<Rightarrow> opencl2 \<Rightarrow> int \<Rightarrow> (int \<Rightarrow> int) \<Rightarrow> bit_op \<Rightarrow> ExplicitType \<Rightarrow> nat \<Rightarrow> int option" where
  "bit_op_vectype gen d cl buffer_err oversized op = (case op of
     BitExtract \<Rightarrow> extract_vectype gen d cl buffer_err
   | BitInsert \<Rightarrow> insert_vectype gen d cl buffer_err oversized
   | BitReverse \<Rightarrow> reverse_vectype gen d cl buffer_err)"

section \<open>What the verdicts say\<close>

definition bit_op_elements :: "bit_op \<Rightarrow> ExplicitType \<Rightarrow> nat \<Rightarrow> nat" where
  "bit_op_elements op t N = (case op of BitReverse \<Rightarrow> 65536 * N | _ \<Rightarrow> (width t + 1) * (width t + 1) * N)"

definition bit_op_source :: "bit_op \<Rightarrow> ExplicitType \<Rightarrow> nat \<Rightarrow> string" where
  "bit_op_source op t N = (case op of
     BitExtract \<Rightarrow> extract_options t N @ extract_kernel N
   | BitInsert \<Rightarrow> bit_op_options t N @ insert_kernel N
   | BitReverse \<Rightarrow> bit_op_options t N @ reverse_kernel N)"

definition bit_op_inputs :: "bit_op \<Rightarrow> ExplicitType \<Rightarrow> nat \<Rightarrow> int list \<Rightarrow> int list list" where
  "bit_op_inputs op t N A = (case op of BitInsert \<Rightarrow> [replicate (length A) (cast t 0xA5A5A5A5A5A5A5A5), A] | _ \<Rightarrow> [A])"

text \<open>
  What the results are to be: those of the extraction are the fields of the inputs, with the sign
  extended, and without; those of the insertion are the inputs with the fields replaced; those of
  the reversal have the bits in the opposite order.
\<close>

definition bit_results_right :: "bit_op \<Rightarrow> ExplicitType \<Rightarrow> nat \<Rightarrow> int list \<Rightarrow> int list \<Rightarrow> int list \<Rightarrow> bool" where
  "bit_results_right op t N A out out2 \<longleftrightarrow> length out = length A \<and> (case op of
     BitExtract \<Rightarrow> length out2 = length A \<and> (\<forall>i < length A. case offset_and_count t N i of (offset, count) \<Rightarrow>
       out ! i = cast (unsigned_version t) (signed_field (A ! i) offset count) \<and> out2 ! i = field (A ! i) offset count)
   | BitInsert \<Rightarrow> (\<forall>i < length A. case offset_and_count t N i of (offset, count) \<Rightarrow>
       inserted t (cast t 0xA5A5A5A5A5A5A5A5) (A ! i) offset count (out ! i))
   | BitReverse \<Rightarrow> (\<forall>i < length A. reversed t (A ! i) (out ! i)))"

definition results2 :: "opencl2 \<Rightarrow> string \<Rightarrow> int list list \<Rightarrow> int list" where
  "results2 cl source ins = (case execute2 cl source ins of Inl e \<Rightarrow> [] | Inr out \<Rightarrow> out)"

definition bit_op_passed :: "opencl2 \<Rightarrow> bit_op \<Rightarrow> ExplicitType \<Rightarrow> nat \<Rightarrow> int list \<Rightarrow> bool" where
  "bit_op_passed cl op t N A \<longleftrightarrow>
     (let source = bit_op_source op t N; ins = bit_op_inputs op t N A
      in bit_results_right op t N A (case execute cl source ins of Inl e \<Rightarrow> [] | Inr out \<Rightarrow> out) (results2 cl source ins))"

text \<open>An implementation on which all calls succeed.\<close>

definition answers2 :: "opencl2 \<Rightarrow> string \<Rightarrow> bool" where
  "answers2 cl source \<longleftrightarrow> create_kernel cl source = 0 \<and> (\<forall>i < 3. create_buffer cl source i) \<and>
     (\<forall>ins. (\<exists>out. execute cl source ins = Inr out) \<and> (\<exists>out. execute2 cl source ins = Inr out))"

lemma those_map_Some: "(\<And>x. x \<in> set xs \<Longrightarrow> f x = Some (g x)) \<Longrightarrow> those (map f xs) = Some (map g xs)"
  by (induction xs) auto

lemma list_pointwise: "xs = map f [0..<n] \<longleftrightarrow> length xs = n \<and> (\<forall>i < n. xs ! i = f i)"
proof
  assume "length xs = n \<and> (\<forall>i < n. xs ! i = f i)"
  then show "xs = map f [0..<n]" by (intro nth_equalityI) simp_all
qed simp

lemma foldl_or_zero: "foldl (OR) r rs = 0 \<longleftrightarrow> r = (0 :: int) \<and> (\<forall>x \<in> set rs. x = 0)"
  by (induction rs arbitrary: r) (simp_all add: or_eq_0_iff conj_assoc)

lemma or_codes_zero:
  assumes "\<And>x. x \<in> set xs \<Longrightarrow> \<exists>r. f x = Some r \<and> (r = 0 \<longleftrightarrow> ok x)"
  shows "\<exists>r. or_codes (map f xs) = Some r \<and> (r = 0 \<longleftrightarrow> (\<forall>x \<in> set xs. ok x))"
proof -
  obtain g where g: "\<forall>x \<in> set xs. f x = Some (g x) \<and> (g x = 0 \<longleftrightarrow> ok x)" using assms by metis
  then have "those (map f xs) = Some (map g xs)" by (intro those_map_Some) simp
  then show ?thesis using g by (simp add: or_codes_def foldl_or_zero)
qed

lemma extract_references_total:
  assumes t: "t \<in> set tested_types" and A: "length A = (width t + 1) * (width t + 1) * N"
  shows "extract_references cpu_bit_extract_signed t N A =
      Some (map (\<lambda>i. case offset_and_count t N i of (offset, count) \<Rightarrow> cast (unsigned_version t) (signed_field (A ! i) offset count)) [0..<length A])"
    "extract_references cpu_bit_extract_unsigned t N A =
      Some (map (\<lambda>i. case offset_and_count t N i of (offset, count) \<Rightarrow> field (A ! i) offset count) [0..<length A])"
proof -
  have range: "offset + count \<le> width t" if "i \<in> set [0..<length A]" "offset_and_count t N i = (offset, count)" for i offset count
    by (rule offset_and_count_range [OF _ that(2)]) (use that(1) A in simp)
  show "extract_references cpu_bit_extract_signed t N A =
      Some (map (\<lambda>i. case offset_and_count t N i of (offset, count) \<Rightarrow> cast (unsigned_version t) (signed_field (A ! i) offset count)) [0..<length A])"
    unfolding extract_references_def Let_def
    by (rule those_map_Some) (auto simp del: set_upt split: prod.split intro: extract_signed_correct [OF t range])
  show "extract_references cpu_bit_extract_unsigned t N A =
      Some (map (\<lambda>i. case offset_and_count t N i of (offset, count) \<Rightarrow> field (A ! i) offset count) [0..<length A])"
    unfolding extract_references_def Let_def
    by (rule those_map_Some) (auto simp del: set_upt split: prod.split intro: extract_unsigned_correct [OF t range])
qed

lemma insert_references_total:
  assumes t: "t \<in> set tested_types" and A: "length A = (width t + 1) * (width t + 1) * N" and over: "oversized 0 = 0"
  shows "\<exists>reference. insert_references oversized t N (replicate (length A) a) A = Some reference \<and>
    (\<forall>out. out = reference \<longleftrightarrow> length out = length A \<and> (\<forall>i < length A. case offset_and_count t N i of (offset, count) \<Rightarrow>
       inserted t a (A ! i) offset count (out ! i)))"
proof -
  let ?f = "\<lambda>i. case offset_and_count t N i of (offset, count) \<Rightarrow> cpu_bit_insert oversized t a (A ! i) offset count"
  let ?P = "\<lambda>i r. case offset_and_count t N i of (offset, count) \<Rightarrow> inserted t a (A ! i) offset count r"
  have "\<exists>x. ?f i = Some x \<and> (\<forall>r. ?P i r \<longleftrightarrow> r = x)" if "i < length A" for i
  proof -
    obtain offset count where k: "offset_and_count t N i = (offset, count)" by fastforce
    have "offset + count \<le> width t" by (rule offset_and_count_range [OF _ k]) (use that A in simp)
    then obtain x where "cpu_bit_insert oversized t a (A ! i) offset count = Some x"
        "\<forall>r. inserted t a (A ! i) offset count r \<longleftrightarrow> r = x"
      using insert_correct [where oversized = oversized and t = t, OF t _ over] by metis
    then show ?thesis using k by simp
  qed
  then obtain g where g: "\<forall>i < length A. ?f i = Some (g i) \<and> (\<forall>r. ?P i r \<longleftrightarrow> r = g i)" by metis
  have "insert_references oversized t N (replicate (length A) a) A = those (map ?f [0..<length A])"
    unfolding insert_references_def Let_def length_replicate
    by (rule arg_cong [of _ _ those], rule map_cong) (simp_all split: prod.split)
  also have "\<dots> = Some (map g [0..<length A])" by (rule those_map_Some) (use g in simp)
  finally show ?thesis using g by (auto simp: list_pointwise)
qed

text \<open>The elements of a run are drawn once, and all its comparisons are with right results.\<close>

definition bit_op_run_passed :: "('s \<Rightarrow> (u32 \<times> 's) option) \<Rightarrow> 's \<Rightarrow> opencl2 \<Rightarrow> bit_op \<Rightarrow> ExplicitType \<Rightarrow> nat \<Rightarrow> bool" where
  "bit_op_run_passed gen d cl op t N \<longleftrightarrow>
     (case fill_vector_with_random_data gen d t (bit_op_elements op t N) of
        None \<Rightarrow> False | Some A \<Rightarrow> bit_op_passed cl op t N A)"

lemma answers2_run:
  assumes "answers2 cl source" "buffers \<le> 3"
  obtains out out2 where "run_bit_kernel cl buffer_err buffers source ins = Inr out" "execute cl source ins = Inr out"
    "execute2 cl source ins = Inr out2"
  using assms by (fastforce simp: answers2_def run_bit_kernel_def Let_def)

lemma extract_results:
  assumes "length A = n"
  shows "bit_results_right BitExtract t N A out out2 \<longleftrightarrow>
    out = map (\<lambda>i. case offset_and_count t N i of (offset, count) \<Rightarrow> cast (unsigned_version t) (signed_field (A ! i) offset count)) [0..<n] \<and>
    out2 = map (\<lambda>i. case offset_and_count t N i of (offset, count) \<Rightarrow> field (A ! i) offset count) [0..<n]"
  using assms unfolding bit_results_right_def list_pointwise by (auto split: prod.splits)

lemma reverse_results:
  assumes t: "t \<in> set tested_types" and A: "\<forall>x \<in> set A. value_of_type t x"
  shows "bit_results_right BitReverse t N A out out2 \<longleftrightarrow> out = map (cpu_bit_reverse t) A"
proof -
  have "reversed t (A ! i) r \<longleftrightarrow> r = cpu_bit_reverse t (A ! i)" if "i < length A" for i r
    using reverse_correct [OF t] A that by simp
  then show ?thesis by (auto simp: bit_results_right_def list_eq_iff_nth_eq)
qed

context random_source
begin

lemma fill_vector_total:
  assumes "inv d" "t \<in> set tested_types"
  obtains A where "fill_vector_with_random_data gen d t n = Some A" "length A = n" "\<forall>x \<in> set A. value_of_type t x"
  using generate_random_data_values [OF assms(1) tested_integer [OF assms(2)], of n]
  by (auto simp: fill_vector_with_random_data_def)

lemma bit_op_vectype_verdict:
  assumes d: "inv d" and t: "t \<in> set tested_types" and cl: "answers2 cl (bit_op_source op t N)" and over: "oversized 0 = 0"
  shows "\<exists>r. bit_op_vectype gen d cl buffer_err oversized op t N = Some r \<and> (r = 0 \<longleftrightarrow> bit_op_run_passed gen d cl op t N)"
proof -
  obtain A where A: "fill_vector_with_random_data gen d t (bit_op_elements op t N) = Some A" "length A = bit_op_elements op t N"
      "\<forall>x \<in> set A. value_of_type t x" using fill_vector_total [OF d t] by blast
  let ?source = "bit_op_source op t N" and ?ins = "bit_op_inputs op t N A"
  obtain out out2 where run: "run_bit_kernel cl buffer_err 3 ?source ?ins = Inr out" "execute cl ?source ?ins = Inr out"
      "execute2 cl ?source ?ins = Inr out2" using answers2_run [OF cl order_refl] by blast
  have run2: "run_bit_kernel cl buffer_err 2 ?source ?ins = Inr out"
    using run(1,2) by (auto simp: run_bit_kernel_def Let_def split: if_splits)
  have passed: "bit_op_run_passed gen d cl op t N \<longleftrightarrow> bit_results_right op t N A out out2"
    using A(1) run(2,3) by (simp add: bit_op_run_passed_def bit_op_passed_def results2_def Let_def)
  show ?thesis
  proof (cases op)
    case BitExtract
    have len: "length A = (width t + 1) * (width t + 1) * N" using A(2) BitExtract by (simp add: bit_op_elements_def)
    show ?thesis
      unfolding passed unfolding BitExtract extract_results [OF refl] using A(1) run(1,3) BitExtract extract_references_total [OF t len]
      by (simp add: bit_op_vectype_def extract_vectype_def bit_op_elements_def bit_op_source_def bit_op_inputs_def
        compare_results_def Let_def del: upt_Suc)
  next
    case BitInsert
    have len: "length A = (width t + 1) * (width t + 1) * N" using A(2) BitInsert by (simp add: bit_op_elements_def)
    obtain reference where "insert_references oversized t N (replicate (length A) (cast t 0xA5A5A5A5A5A5A5A5)) A = Some reference"
        "\<forall>out. out = reference \<longleftrightarrow> bit_results_right BitInsert t N A out out2"
      using insert_references_total [where oversized = oversized and a = "cast t 0xA5A5A5A5A5A5A5A5", OF t len over]
      unfolding bit_results_right_def bit_op.case by blast
    then show ?thesis
      unfolding passed unfolding BitInsert using A(1) run(1) len BitInsert
      by (simp add: bit_op_vectype_def insert_vectype_def bit_op_elements_def bit_op_source_def bit_op_inputs_def
        compare_results_def Let_def)
  next
    case BitReverse
    show ?thesis
      unfolding passed unfolding BitReverse reverse_results [OF t A(3)] using A(1) run2 BitReverse
      by (simp add: bit_op_vectype_def reverse_vectype_def bit_op_elements_def bit_op_source_def bit_op_inputs_def
        compare_results_def)
  qed
qed

lemma bit_types_tested: "t \<in> set (bit_types gHasLong) \<Longrightarrow> t \<in> set tested_types"
  by (auto simp: bit_types_def split: if_splits)

lemma bit_ops_verdict:
  assumes d: "inv d" and over: "oversized 0 = 0"
    and cl: "\<forall>t \<in> set (bit_types gHasLong). \<forall>N \<in> set vecSizes. answers2 cl (bit_op_source op t N)"
  shows "\<exists>r. test_extended_bit_ops (bit_op_vectype gen d cl buffer_err oversized op) True gHasLong = Some r \<and>
    (r = 0 \<longleftrightarrow> (\<forall>t \<in> set (bit_types gHasLong). \<forall>N \<in> set vecSizes. bit_op_run_passed gen d cl op t N))"
proof -
  have "\<exists>r. or_codes (map (bit_op_vectype gen d cl buffer_err oversized op t) vecSizes) = Some r \<and>
      (r = 0 \<longleftrightarrow> (\<forall>N \<in> set vecSizes. bit_op_run_passed gen d cl op t N))" if "t \<in> set (bit_types gHasLong)" for t
    by (rule or_codes_zero, rule bit_op_vectype_verdict [where oversized = oversized, OF d bit_types_tested [OF that] _ over]) (use cl that in blast)
  then have "\<exists>r. or_codes (map (\<lambda>t. or_codes (map (bit_op_vectype gen d cl buffer_err oversized op t) vecSizes)) (bit_types gHasLong)) = Some r \<and>
      (r = 0 \<longleftrightarrow> (\<forall>t \<in> set (bit_types gHasLong). \<forall>N \<in> set vecSizes. bit_op_run_passed gen d cl op t N))"
    by (rule or_codes_zero)
  then show ?thesis by (simp add: test_extended_bit_ops_def)
qed

end

end
