(* ===== verification/IntegerDot.thy ===== *)
theory IntegerDot
  imports IntegerBitOps
begin

text \<open>
  The test of \<^verbatim>\<open>cl_khr_integer_dot_product\<close>, \<^verbatim>\<open>integer_ops/test_integer_dot_product.cpp\<close>:
  its inputs, its reference, the cases it goes through and the queries before them. The OpenCL
  implementation is a parameter as in \<open>IntegerBitOps\<close>, the answers to the queries are in a record.
\<close>

section \<open>The reference\<close>

text \<open>Products of narrow values are taken in \<^verbatim>\<open>int\<close>, and the sum in \<^verbatim>\<open>cl_long\<close>.\<close>

fun dot_sum :: "int list \<Rightarrow> int list \<Rightarrow> nat \<Rightarrow> nat \<Rightarrow> nat \<Rightarrow> int \<Rightarrow> int" where
  "dot_sum a b N r 0 result = result"
| "dot_sum a b N r (Suc m) result =
     (let c = N - Suc m in dot_sum a b N r m (to_Long (result + cast kInt (a ! (r * N + c) * b ! (r * N + c)))))"

definition dot_element :: "ExplicitType \<Rightarrow> nat \<Rightarrow> int list \<Rightarrow> int list \<Rightarrow> bool \<Rightarrow> int list \<Rightarrow> nat \<Rightarrow> int" where
  "dot_element t N a b AccSat acc r =
     (let result = dot_sum a b N r N (if AccSat then acc ! r else 0);
          result = (if AccSat \<and> result > type_max t then type_max t else result)
      in cast t result)"

text \<open>\<^verbatim>\<open>calculate_reference\<close>; \<open>None\<close> is a failed assertion.\<close>

definition dot_references :: "ExplicitType \<Rightarrow> nat \<Rightarrow> int list \<Rightarrow> int list \<Rightarrow> bool \<Rightarrow> int list \<Rightarrow> int list option" where
  "dot_references t N a b AccSat acc =
     (if length a \<noteq> length b \<or> (AccSat \<and> length acc \<noteq> length a div N) then None
      else Some (map (dot_element t N a b AccSat acc) [0..<length a div N]))"

section \<open>Inputs\<close>

definition special_values :: "ExplicitType \<Rightarrow> int list" where
  "special_values t = map (cast t)
     [type_min t, type_min t + 1, - (- type_min t div 2), 0, type_max t div 2, type_max t - 1, type_max t]"

text \<open>
  All pairs of special values, then random ones; \<open>None\<close> if the arrays are too short for the pairs.
\<close>

definition generate_inputs_with_special_values ::
    "('s \<Rightarrow> (u32 \<times> 's) option) \<Rightarrow> 's \<Rightarrow> ExplicitType \<Rightarrow> ExplicitType \<Rightarrow> nat \<Rightarrow> (int list \<times> int list) option" where
  "generate_inputs_with_special_values gen d ta tb n =
     (let pairs = concat (map (\<lambda>x. map (Pair x) (special_values tb)) (special_values ta)); count = length pairs
      in if n < count then None
         else do {
           (a, d) \<leftarrow> generate_random_data gen ta (n - count) d;
           (b, d) \<leftarrow> generate_random_data gen tb (n - count) d;
           Some (map fst pairs @ a, map snd pairs @ b) })"

text \<open>Every other element is subtracted from the largest value; a result out of range wraps.\<close>

definition generate_acc_sat_inputs :: "('s \<Rightarrow> (u32 \<times> 's) option) \<Rightarrow> 's \<Rightarrow> ExplicitType \<Rightarrow> nat \<Rightarrow> int list option" where
  "generate_acc_sat_inputs gen d t n = do {
     acc \<leftarrow> fill_vector_with_random_data gen d t n;
     Some (map (\<lambda>i. if even i then cast t (type_max t - acc ! i) else acc ! i) [0..<n]) }"

section \<open>The cases\<close>

record dot_case =
  dst :: ExplicitType
  srcA :: ExplicitType
  srcB :: ExplicitType
  packed :: bool
  sat :: bool

definition packed_name :: "ExplicitType \<Rightarrow> string" where
  "packed_name t = (case t of kChar \<Rightarrow> ''int'' | kUChar \<Rightarrow> ''uint'' | _ \<Rightarrow> ''UNSUPPORTED'')"

definition src_name :: "bool \<Rightarrow> nat \<Rightarrow> ExplicitType \<Rightarrow> string" where
  "src_name p N t = (if p then packed_name t else get_explicit_type_name t @ decimal N)"

definition dot_options :: "nat \<Rightarrow> dot_case \<Rightarrow> string" where
  "dot_options N k =
     (let sign = (\<lambda>t. if signed_type t then ''s'' else ''u'');
          suffix = concat [sign (srcA k), sign (srcB k), if signed_type (dst k) then ''_int'' else ''_uint'']
      in concat ['' -DDSTTYPE='', get_explicit_type_name (dst k),
        '' -DSRCTYPEA='', src_name (packed k) N (srcA k), '' -DSRCTYPEB='', src_name (packed k) N (srcB k),
        if sat k then (if packed k then '' -DDOT_ACC_SAT=dot_acc_sat_4x8packed_'' @ suffix else '' -DDOT_ACC_SAT=dot_acc_sat'')
        else (if packed k then '' -DDOT=dot_4x8packed_'' @ suffix else '' -DDOT=dot'')])"

definition dot_kernel :: "bool \<Rightarrow> string" where
  "dot_kernel s = text_lines (if s then
     ['''', ''__kernel void test_dot_acc_sat('', ''    __global DSTTYPE* dst,'',
      ''    __global SRCTYPEA* a, __global SRCTYPEB* b, __global DSTTYPE* acc)'', ''{'',
      ''    int index = get_global_id(0);'', ''    dst[index] = DOT_ACC_SAT(a[index], b[index], acc[index]);'', ''}'']
   else
     ['''', ''__kernel void test_dot(__global DSTTYPE* dst, __global SRCTYPEA* a, __global SRCTYPEB* b)'', ''{'',
      ''    int index = get_global_id(0);'', ''    dst[index] = DOT(a[index], b[index]);'', ''}''])"

definition dot_source :: "nat \<Rightarrow> dot_case \<Rightarrow> string" where
  "dot_source N k = dot_options N k @ dot_kernel (sat k)"

definition dot_inputs :: "('s \<Rightarrow> (u32 \<times> 's) option) \<Rightarrow> 's \<Rightarrow> nat \<Rightarrow> nat \<Rightarrow> dot_case \<Rightarrow> (int list \<times> int list \<times> int list) option" where
  "dot_inputs gen d N num_elements k = do {
     (a, b) \<leftarrow> generate_inputs_with_special_values gen d (srcA k) (srcB k) (N * num_elements);
     acc \<leftarrow> (if sat k then generate_acc_sat_inputs gen d (dst k) num_elements else Some []);
     Some (a, b, acc) }"

definition test_case_dot :: "('s \<Rightarrow> (u32 \<times> 's) option) \<Rightarrow> 's \<Rightarrow> opencl2 \<Rightarrow> int \<Rightarrow> nat \<Rightarrow> nat \<Rightarrow> dot_case \<Rightarrow> int option" where
  "test_case_dot gen d cl buffer_err N num_elements k = do {
     (a, b, acc) \<leftarrow> dot_inputs gen d N num_elements k;
     reference \<leftarrow> dot_references (dst k) N a b (sat k) acc;
     case run_bit_kernel cl buffer_err (if sat k then 4 else 3) (dot_source N k) (if sat k then [a, b, acc] else [a, b]) of
       Inl e \<Rightarrow> Some e | Inr out \<Rightarrow> Some (compare_results out reference) }"

text \<open>\<^verbatim>\<open>test_vectype\<close> and \<^verbatim>\<open>test_vectype_packed\<close>.\<close>

definition dot_types :: "(ExplicitType \<times> ExplicitType \<times> ExplicitType) list" where
  "dot_types = [(kUInt, kUChar, kUChar), (kInt, kChar, kChar), (kInt, kUChar, kChar), (kInt, kChar, kUChar)]"

definition dot_cases :: "bool \<Rightarrow> dot_case list" where
  "dot_cases p = concat (map (\<lambda>s. map (\<lambda>(t, ta, tb). \<lparr>dst = t, srcA = ta, srcB = tb, packed = p, sat = s\<rparr>)
     dot_types) [False, True])"

definition test_vectype_dot :: "('s \<Rightarrow> (u32 \<times> 's) option) \<Rightarrow> 's \<Rightarrow> opencl2 \<Rightarrow> int \<Rightarrow> nat \<Rightarrow> bool \<Rightarrow> int option" where
  "test_vectype_dot gen d cl buffer_err num_elements p =
     or_codes (map (test_case_dot gen d cl buffer_err 4 num_elements) (dot_cases p))"

section \<open>The queries\<close>

datatype dot_capability = Input4x8BitPacked | Input4x8Bit | OtherCapability nat

text \<open>
  What the device answers: whether it has the extension, whether the version of the extension can be
  queried and what it is, the capabilities or the error of their query, and the codes of the four
  queries of the acceleration properties, in order.
\<close>

record dot_device =
  available :: bool
  version_queried :: bool
  extension_version :: nat
  capabilities :: "int + dot_capability list"
  property_queries :: "int list"

definition CL_MAKE_VERSION :: "nat \<Rightarrow> nat \<Rightarrow> nat \<Rightarrow> nat" where
  "CL_MAKE_VERSION major minor patch = major * 2 ^ 22 + minor * 2 ^ 12 + patch"

definition test_integer_dot_product ::
    "('s \<Rightarrow> (u32 \<times> 's) option) \<Rightarrow> 's \<Rightarrow> opencl2 \<Rightarrow> int \<Rightarrow> nat \<Rightarrow> dot_device \<Rightarrow> int option" where
  "test_integer_dot_product gen d cl buffer_err num_elements dev =
     (if \<not> available dev then Some (- 100)
      else let version = (if version_queried dev then extension_version dev else CL_MAKE_VERSION 1 0 0);
               version_2 = (CL_MAKE_VERSION 2 0 0 \<le> version)
      in case capabilities dev of
        Inl error \<Rightarrow> Some error
      | Inr dotCaps \<Rightarrow>
          if Input4x8BitPacked \<notin> set dotCaps then Some 1
          else if version_2 \<and> Input4x8Bit \<notin> set dotCaps then Some 1
          else case (if version_2 then find (\<lambda>e. e \<noteq> 0) (property_queries dev) else None) of
            Some error \<Rightarrow> Some error
          | None \<Rightarrow> or_codes
              ((if Input4x8Bit \<in> set dotCaps then [test_vectype_dot gen d cl buffer_err num_elements False] else []) @
               (if Input4x8BitPacked \<in> set dotCaps then [test_vectype_dot gen d cl buffer_err num_elements True] else [])))"

section \<open>What the reference demands\<close>

text \<open>The value of the dot product over the integers, with the accumulator.\<close>

definition dot_exact :: "nat \<Rightarrow> int list \<Rightarrow> int list \<Rightarrow> bool \<Rightarrow> int list \<Rightarrow> nat \<Rightarrow> int" where
  "dot_exact N a b AccSat acc r = (if AccSat then acc ! r else 0) + (\<Sum>c < N. a ! (r * N + c) * b ! (r * N + c))"

text \<open>
  The result demanded for a value: it is brought into the range of the type from above, but a value
  below the range wraps, where the extension asks for the smallest value of the type.
\<close>

definition dot_demanded :: "ExplicitType \<Rightarrow> int \<Rightarrow> int" where
  "dot_demanded t e = (if type_min t \<le> e then clamped t e else cast t e)"

definition narrow_values :: "int list \<Rightarrow> bool" where
  "narrow_values a \<longleftrightarrow> (\<forall>x \<in> set a. \<bar>x\<bar> \<le> 255)"

lemma narrow_product:
  assumes "narrow_values a" "narrow_values b" "i < length a" "i < length b"
  shows "\<bar>a ! i * b ! i\<bar> \<le> 65025" "cast kInt (a ! i * b ! i) = a ! i * b ! i"
proof -
  have "\<bar>a ! i\<bar> \<le> 255" "\<bar>b ! i\<bar> \<le> 255" using assms by (auto simp: narrow_values_def)
  then have "\<bar>a ! i\<bar> * \<bar>b ! i\<bar> \<le> 255 * 255" by (intro mult_mono) auto
  then show bound: "\<bar>a ! i * b ! i\<bar> \<le> 65025" by (simp add: abs_mult)
  show "cast kInt (a ! i * b ! i) = a ! i * b ! i"
    by (rule tested_cast_id) (use bound in \<open>auto simp: value_of_type_def type_limits abs_le_iff\<close>)
qed

lemma dot_sum_exact:
  assumes v: "narrow_values a" "narrow_values b" and n: "(r + 1) * N \<le> length a" "length b = length a"
  shows "m \<le> N \<Longrightarrow> \<bar>result\<bar> + 65025 * int m < 2 ^ 62 \<Longrightarrow>
    dot_sum a b N r m result = result + (\<Sum>c = N - m..<N. a ! (r * N + c) * b ! (r * N + c))"
proof (induction m arbitrary: result)
  case (Suc m)
  let ?p = "\<lambda>c. a ! (r * N + c) * b ! (r * N + c)" and ?c = "N - Suc m"
  have c: "?c < N" "Suc ?c = N - m" using Suc.prems(1) by auto
  have i: "r * N + ?c < length a" using n(1) c(1) by (simp add: algebra_simps)
  note p = narrow_product [OF v i, unfolded n(2), OF i]
  have "\<bar>result + ?p ?c\<bar> + 65025 * int m < 2 ^ 62" using p(1) Suc.prems(2) by (simp add: algebra_simps)
  moreover from this have "to_Long (result + ?p ?c) = result + ?p ?c" by (intro to_Long_id; simp)
  ultimately have "dot_sum a b N r (Suc m) result = result + ?p ?c + (\<Sum>c = N - m..<N. ?p c)"
    using Suc.IH [of "result + ?p ?c"] Suc.prems(1) p(2) by (simp add: Let_def)
  also have "\<dots> = result + (\<Sum>c = ?c..<N. ?p c)"
    using sum.atLeast_Suc_lessThan [OF c(1), of ?p] c(2) by simp
  finally show ?case .
qed simp

lemma dot_element_demanded:
  assumes t: "t \<in> set tested_types" and v: "narrow_values a" "narrow_values b" "length b = length a"
    and r: "(r + 1) * N \<le> length a" "N \<le> 2 ^ 16"
    and acc: "AccSat \<Longrightarrow> \<bar>acc ! r\<bar> \<le> 2 ^ 33" and range: "\<not> AccSat \<Longrightarrow> value_of_type t (dot_exact N a b False acc r)"
  shows "dot_element t N a b AccSat acc r = dot_demanded t (dot_exact N a b AccSat acc r)"
proof -
  let ?acc = "if AccSat then acc ! r else 0"
  have "\<bar>?acc\<bar> \<le> 2 ^ 33" using acc by simp
  then have "dot_sum a b N r N ?acc = dot_exact N a b AccSat acc r"
    using dot_sum_exact [OF v(1,2) r(1) v(3), of N ?acc] r(2) by (simp add: dot_exact_def atLeast0LessThan)
  then have element: "dot_element t N a b AccSat acc r = cast t (if AccSat \<and> e > type_max t then type_max t else e)"
    if "e = dot_exact N a b AccSat acc r" for e
    using that by (cases AccSat) (simp_all add: dot_element_def Let_def)
  define e where "e = dot_exact N a b AccSat acc r"
  have max: "cast t (type_max t) = type_max t" "type_min t \<le> type_max t"
    using tested_cast_id [OF t] limits_in_type [OF tested_integer [OF t]] by (auto simp: value_of_type_def)
  have inside: "cast t e = e" if "type_min t \<le> e" "e \<le> type_max t"
    by (rule tested_cast_id [OF t]) (use that in \<open>simp add: value_of_type_def\<close>)
  have "AccSat \<or> e \<le> type_max t \<and> type_min t \<le> e"
    using range by (cases AccSat) (simp_all add: e_def value_of_type_def)
  then have "cast t (if AccSat \<and> e > type_max t then type_max t else e) = dot_demanded t e"
    using max inside by (auto simp: dot_demanded_def clamped_def)
  then show ?thesis using element [OF e_def] by (simp add: e_def)
qed

text \<open>The products of one case stay in the range of the results.\<close>

lemma dot_exact_range:
  assumes v: "\<forall>x \<in> set a. value_of_type ta x" "\<forall>x \<in> set b. value_of_type tb x"
    and k: "(t, ta, tb) \<in> {(kUInt, kUChar, kUChar), (kInt, kChar, kChar), (kInt, kUChar, kChar), (kInt, kChar, kUChar)}"
    and r: "(r + 1) * 4 \<le> length a" "length b = length a"
  shows "value_of_type t (dot_exact 4 a b False acc r)" "narrow_values a" "narrow_values b"
proof -
  show n: "narrow_values a" "narrow_values b"
    using v k by (auto simp: narrow_values_def value_of_type_def type_limits)
  have i: "r * 4 + c < length a" if "c < 4" for c using r(1) that by (simp add: algebra_simps)
  have "\<bar>\<Sum>c < 4. a ! (r * 4 + c) * b ! (r * 4 + c)\<bar> \<le> (\<Sum>c < 4 :: nat. 65025)"
    using narrow_product(1) [OF n] i r(2) by (intro order_trans [OF sum_abs] sum_mono) simp
  then have bound: "\<bar>dot_exact 4 a b False acc r\<bar> \<le> 260100" by (simp add: dot_exact_def)
  have "0 \<le> dot_exact 4 a b False acc r" if "ta = kUChar" "tb = kUChar"
    using v that i r(2) by (auto simp: dot_exact_def value_of_type_def type_limits intro!: sum_nonneg mult_nonneg_nonneg)
  then show "value_of_type t (dot_exact 4 a b False acc r)"
    using bound k by (auto simp: value_of_type_def type_limits abs_le_iff)
qed

section \<open>What the verdict says\<close>

definition dot_passed :: "opencl2 \<Rightarrow> nat \<Rightarrow> dot_case \<Rightarrow> int list \<times> int list \<times> int list \<Rightarrow> bool" where
  "dot_passed cl n k = (\<lambda>(a, b, acc).
     let out = (case execute cl (dot_source 4 k) (if sat k then [a, b, acc] else [a, b]) of Inl e \<Rightarrow> [] | Inr out \<Rightarrow> out)
     in length out = n \<and> (\<forall>r < n. out ! r = dot_demanded (dst k) (dot_exact 4 a b (sat k) acc r)))"

definition dot_run_passed :: "('s \<Rightarrow> (u32 \<times> 's) option) \<Rightarrow> 's \<Rightarrow> opencl2 \<Rightarrow> nat \<Rightarrow> dot_case \<Rightarrow> bool" where
  "dot_run_passed gen d cl n k =
     (case dot_inputs gen d 4 n k of None \<Rightarrow> False | Some inputs \<Rightarrow> dot_passed cl n k inputs)"

definition answers_dot :: "opencl2 \<Rightarrow> string \<Rightarrow> bool" where
  "answers_dot cl source \<longleftrightarrow> create_kernel cl source = 0 \<and> (\<forall>i < 4. create_buffer cl source i) \<and>
     (\<forall>ins. \<exists>out. execute cl source ins = Inr out)"

lemma dot_cases_types:
  assumes "k \<in> set (dot_cases p)"
  shows "(dst k, srcA k, srcB k) \<in> {(kUInt, kUChar, kUChar), (kInt, kChar, kChar), (kInt, kUChar, kChar), (kInt, kChar, kUChar)}"
proof -
  have "(dst k, srcA k, srcB k) \<in> set dot_types" using assms by (auto simp: dot_cases_def)
  then show ?thesis by (simp only: dot_types_def list.set)
qed

lemma dot_tested:
  assumes "k \<in> set (dot_cases p)"
  shows "dst k \<in> set tested_types" "srcA k \<in> set tested_types" "srcB k \<in> set tested_types"
  using dot_cases_types [OF assms] by (elim insertE emptyE; simp)+

lemma special_values_typed: "t \<in> set tested_types \<Longrightarrow> x \<in> set (special_values t) \<Longrightarrow> value_of_type t x"
  using cast_in_type [OF tested_integer] by (auto simp: special_values_def)

text \<open>The reference for inputs of the types of the case has the results demanded.\<close>

lemma dot_references_demanded:
  assumes k: "k \<in> set (dot_cases p)"
    and a: "length a = 4 * n" "\<forall>x \<in> set a. value_of_type (srcA k) x" "length b = 4 * n" "\<forall>x \<in> set b. value_of_type (srcB k) x"
    and acc: "sat k \<Longrightarrow> length acc = n \<and> (\<forall>x \<in> set acc. value_of_type (dst k) x)"
  shows "dot_references (dst k) 4 a b (sat k) acc = Some (map (\<lambda>r. dot_demanded (dst k) (dot_exact 4 a b (sat k) acc r)) [0..<n])"
proof -
  note types = dot_cases_types [OF k]
  have element: "dot_element (dst k) 4 a b (sat k) acc r = dot_demanded (dst k) (dot_exact 4 a b (sat k) acc r)" if r: "r < n" for r
  proof -
    have le: "(r + 1) * 4 \<le> length a" and len: "length b = length a" using r a by simp_all
    note exact = dot_exact_range [OF a(2,4) types le len]
    have "\<bar>acc ! r\<bar> \<le> 2 ^ 33" if "sat k"
    proof -
      have "value_of_type (dst k) (acc ! r)" using acc [OF that] r by simp
      moreover have "dst k = kUInt \<or> dst k = kInt" using types by (elim insertE emptyE; simp)
      ultimately show ?thesis by (elim disjE; simp add: value_of_type_def type_limits abs_le_iff)
    qed
    then show ?thesis
      using dot_element_demanded [OF _ exact(2,3) len le, of "dst k" "sat k" acc] exact(1) dot_tested(1) [OF k] by simp
  qed
  have "length a div 4 = n" using a(1) by simp
  then have "dot_references (dst k) 4 a b (sat k) acc = Some (map (dot_element (dst k) 4 a b (sat k) acc) [0..<n])"
    using acc a(1,3) by (simp add: dot_references_def)
  also have "map (dot_element (dst k) 4 a b (sat k) acc) [0..<n] = map (\<lambda>r. dot_demanded (dst k) (dot_exact 4 a b (sat k) acc r)) [0..<n]"
    by (rule map_cong [OF refl]) (simp add: element)
  finally show ?thesis .
qed

context random_source
begin

lemma special_inputs_total:
  assumes d: "inv d" and t: "ta \<in> set tested_types" "tb \<in> set tested_types" and n: "49 \<le> n"
  shows "\<exists>a b. generate_inputs_with_special_values gen d ta tb n = Some (a, b) \<and>
    length a = n \<and> (\<forall>x \<in> set a. value_of_type ta x) \<and> length b = n \<and> (\<forall>x \<in> set b. value_of_type tb x)"
proof -
  let ?pairs = "concat (map (\<lambda>x. map (Pair x) (special_values tb)) (special_values ta))"
  have len: "length ?pairs = 49" by (simp add: special_values_def)
  have typed: "value_of_type ta x \<and> value_of_type tb y" if "(x, y) \<in> set ?pairs" for x y
    using that special_values_typed [OF t(1)] special_values_typed [OF t(2)] by auto
  obtain a d1 where a: "generate_random_data gen ta (n - 49) d = Some (a, d1)" "length a = n - 49"
      "\<forall>x \<in> set a. value_of_type ta x" "inv d1"
    using generate_random_data_values [OF d tested_integer [OF t(1)]] by blast
  obtain b d2 where b: "generate_random_data gen tb (n - 49) d1 = Some (b, d2)" "length b = n - 49"
      "\<forall>x \<in> set b. value_of_type tb x"
    using generate_random_data_values [OF a(4) tested_integer [OF t(2)]] by blast
  have "generate_inputs_with_special_values gen d ta tb n = Some (map fst ?pairs @ a, map snd ?pairs @ b)"
    using a(1) b(1) n unfolding generate_inputs_with_special_values_def Let_def len by simp
  moreover have "length (map fst ?pairs @ a) = n" "length (map snd ?pairs @ b) = n"
    using a(2) b(2) n len by (simp_all del: length_concat)
  moreover have "\<forall>x \<in> set (map fst ?pairs @ a). value_of_type ta x" "\<forall>x \<in> set (map snd ?pairs @ b). value_of_type tb x"
    using typed a(3) b(3) by (auto simp del: set_concat)
  ultimately show ?thesis by blast
qed

lemma acc_inputs_total:
  assumes d: "inv d" and t: "t \<in> set tested_types"
  shows "\<exists>acc. generate_acc_sat_inputs gen d t n = Some acc \<and> length acc = n \<and> (\<forall>x \<in> set acc. value_of_type t x)"
proof -
  obtain A where "fill_vector_with_random_data gen d t n = Some A" "length A = n" "\<forall>x \<in> set A. value_of_type t x"
    using fill_vector_total [OF d t] by blast
  then show ?thesis using cast_in_type [OF tested_integer [OF t]] by (auto simp: generate_acc_sat_inputs_def)
qed

lemma test_case_dot_verdict:
  assumes d: "inv d" and k: "k \<in> set (dot_cases p)" and n: "13 \<le> n" and cl: "answers_dot cl (dot_source 4 k)"
  shows "\<exists>r. test_case_dot gen d cl buffer_err 4 n k = Some r \<and> (r = 0 \<longleftrightarrow> dot_run_passed gen d cl n k)"
proof -
  note t = dot_tested [OF k]
  obtain a b where a: "generate_inputs_with_special_values gen d (srcA k) (srcB k) (4 * n) = Some (a, b)"
      "length a = 4 * n" "\<forall>x \<in> set a. value_of_type (srcA k) x" "length b = 4 * n" "\<forall>x \<in> set b. value_of_type (srcB k) x"
    using special_inputs_total [OF d, of "srcA k" "srcB k" "4 * n"] t n by auto
  obtain acc where acc: "(if sat k then generate_acc_sat_inputs gen d (dst k) n else Some []) = Some acc"
      "sat k \<Longrightarrow> length acc = n \<and> (\<forall>x \<in> set acc. value_of_type (dst k) x)"
    using acc_inputs_total [OF d, of "dst k" n] t by (cases "sat k") auto
  have inputs: "dot_inputs gen d 4 n k = Some (a, b, acc)" using a(1) acc(1) by (simp add: dot_inputs_def)
  let ?ins = "if sat k then [a, b, acc] else [a, b]"
  obtain out where out: "execute cl (dot_source 4 k) ?ins = Inr out" using cl unfolding answers_dot_def by blast
  then have "run_bit_kernel cl buffer_err (if sat k then 4 else 3) (dot_source 4 k) ?ins = Inr out"
    using cl by (simp add: run_bit_kernel_def answers_dot_def)
  then have "test_case_dot gen d cl buffer_err 4 n k =
      Some (compare_results out (map (\<lambda>r. dot_demanded (dst k) (dot_exact 4 a b (sat k) acc r)) [0..<n]))"
    using inputs dot_references_demanded [OF k a(2-5) acc(2)] by (simp add: test_case_dot_def)
  moreover have "dot_run_passed gen d cl n k \<longleftrightarrow> out = map (\<lambda>r. dot_demanded (dst k) (dot_exact 4 a b (sat k) acc r)) [0..<n]"
    unfolding list_pointwise dot_run_passed_def inputs option.case dot_passed_def prod.case out Let_def sum.case ..
  ultimately show ?thesis by (simp add: compare_results_def)
qed

lemma vectype_dot_verdict:
  assumes d: "inv d" and n: "13 \<le> n" and cl: "\<forall>k \<in> set (dot_cases p). answers_dot cl (dot_source 4 k)"
  shows "\<exists>r. test_vectype_dot gen d cl buffer_err n p = Some r \<and> (r = 0 \<longleftrightarrow> (\<forall>k \<in> set (dot_cases p). dot_run_passed gen d cl n k))"
  unfolding test_vectype_dot_def by (rule or_codes_zero, rule test_case_dot_verdict [OF d _ n]) (use cl in auto)

lemma dot_product_test_verdict:
  assumes d: "inv d" and n: "13 \<le> n" and cl: "\<forall>p. \<forall>k \<in> set (dot_cases p). answers_dot cl (dot_source 4 k)"
    and dev: "available dev" "capabilities dev = Inr caps" "Input4x8BitPacked \<in> set caps" "Input4x8Bit \<in> set caps"
      "\<forall>e \<in> set (property_queries dev). e = 0"
  shows "\<exists>r. test_integer_dot_product gen d cl buffer_err n dev = Some r \<and>
    (r = 0 \<longleftrightarrow> (\<forall>p. \<forall>k \<in> set (dot_cases p). dot_run_passed gen d cl n k))"
proof -
  have "find (\<lambda>e. e \<noteq> 0) (property_queries dev) = None" using dev(5) by (auto simp: find_None_iff)
  then have "test_integer_dot_product gen d cl buffer_err n dev = or_codes (map (test_vectype_dot gen d cl buffer_err n) [False, True])"
    using dev(1-4) by (simp add: test_integer_dot_product_def Let_def)
  moreover have "\<exists>r. or_codes (map (test_vectype_dot gen d cl buffer_err n) [False, True]) = Some r \<and>
      (r = 0 \<longleftrightarrow> (\<forall>p \<in> set [False, True]. \<forall>k \<in> set (dot_cases p). dot_run_passed gen d cl n k))"
    by (rule or_codes_zero, rule vectype_dot_verdict [OF d n]) (use cl in blast)
  ultimately show ?thesis by (simp add: all_bool_eq conj_commute)
qed

end

end
