(* ===== verification/IntegerUpsample.thy ===== *)
theory IntegerUpsample
  imports IntegerElementwise
begin

text \<open>
  The test of \<^verbatim>\<open>upsample\<close>, \<^verbatim>\<open>integer_ops/test_upsample.cpp\<close>, and the loop over types
  and vector sizes that it shares with \<^verbatim>\<open>test_unary_ops.cpp\<close>: one source of random values feeds
  all the runs, and any run that fails makes the result -1.
\<close>

unbundle bit_operations_syntax

section \<open>A series of runs\<close>

fun run_series :: "('k \<Rightarrow> 's \<Rightarrow> (int \<times> 's) option) \<Rightarrow> 'k list \<Rightarrow> 's \<Rightarrow> int \<Rightarrow> (int \<times> 's) option" where
  "run_series run [] d err = Some (err, d)"
| "run_series run (k # ks) d err = do {
     (r, d) \<leftarrow> run k d;
     run_series run ks d (if r \<noteq> 0 then - 1 else err) }"

text \<open>The inputs of all the runs, in the order in which they are drawn.\<close>

fun draw_series :: "('k \<Rightarrow> 's \<Rightarrow> ('x \<times> 's) option) \<Rightarrow> 'k list \<Rightarrow> 's \<Rightarrow> (('k \<times> 'x) list \<times> 's) option" where
  "draw_series draw [] d = Some ([], d)"
| "draw_series draw (k # ks) d = do {
     (x, d) \<leftarrow> draw k d;
     (xs, d) \<leftarrow> draw_series draw ks d;
     Some ((k, x) # xs, d) }"

lemma run_series_verdict:
  assumes "\<And>k d. k \<in> set ks \<Longrightarrow> I d \<Longrightarrow>
    \<exists>x r d'. draw k d = Some (x, d') \<and> run k d = Some (r, d') \<and> I d' \<and> (r = 0 \<longleftrightarrow> ok k x)"
  shows "I d \<Longrightarrow> \<exists>xs r d'. draw_series draw ks d = Some (xs, d') \<and> run_series run ks d err = Some (r, d') \<and> I d' \<and>
    map fst xs = ks \<and> (r = 0 \<longleftrightarrow> err = 0 \<and> (\<forall>(k, x) \<in> set xs. ok k x))"
  using assms
proof (induction ks arbitrary: d err)
  case (Cons k ks)
  obtain x r d1 where k: "draw k d = Some (x, d1)" "run k d = Some (r, d1)" "I d1" "r = 0 \<longleftrightarrow> ok k x"
    using Cons.prems(2) [OF list.set_intros(1) Cons.prems(1)] by blast
  let ?err = "if r \<noteq> 0 then - 1 else err"
  have "\<exists>xs r' d2. draw_series draw ks d1 = Some (xs, d2) \<and> run_series run ks d1 ?err = Some (r', d2) \<and> I d2 \<and>
      map fst xs = ks \<and> (r' = 0 \<longleftrightarrow> ?err = 0 \<and> (\<forall>(k, x) \<in> set xs. ok k x))"
    by (rule Cons.IH [OF k(3)]) (rule Cons.prems(2) [OF list.set_intros(2)])
  then obtain xs r' d2 where ks: "draw_series draw ks d1 = Some (xs, d2)" "run_series run ks d1 ?err = Some (r', d2)" "I d2"
      "map fst xs = ks" "r' = 0 \<longleftrightarrow> ?err = 0 \<and> (\<forall>(k, x) \<in> set xs. ok k x)" by blast
  have "draw_series draw (k # ks) d = Some ((k, x) # xs, d2)" "run_series run (k # ks) d err = Some (r', d2)"
    using k(1,2) ks(1,2) by simp_all
  moreover have "r' = 0 \<longleftrightarrow> err = 0 \<and> (\<forall>(k, x) \<in> set ((k, x) # xs). ok k x)"
    using k(4) ks(5) by (cases "r = 0") simp_all
  ultimately show ?case using ks(3,4) by (metis fst_conv list.simps(9))
qed simp

section \<open>The expected results\<close>

text \<open>
  \<^verbatim>\<open>create_upsample_data\<close>: both sources are read as unsigned values of the size, and put side by
  side in one of twice the size. \<^verbatim>\<open>None\<close> is the null pointer returned for other sizes, or a read
  beyond an array.
\<close>

definition upsample_types :: "nat \<Rightarrow> (ExplicitType \<times> ExplicitType) option" where
  "upsample_types tSize = (if tSize = 1 then Some (kUChar, kUShort) else if tSize = 2 then Some (kUShort, kUInt)
     else if tSize = 4 then Some (kUInt, kULong) else None)"

definition upsample_element :: "ExplicitType \<Rightarrow> ExplicitType \<Rightarrow> int \<Rightarrow> int \<Rightarrow> int" where
  "upsample_element narrow wide a b =
     (let u = cast wide (cast narrow b)
      in cast wide (u OR push_bit (width narrow) (cast wide (cast narrow a))))"

definition create_upsample_data :: "ExplicitType \<Rightarrow> int list \<Rightarrow> int list \<Rightarrow> nat \<Rightarrow> int list option" where
  "create_upsample_data t sourceA sourceB count = do {
     (narrow, wide) \<leftarrow> upsample_types (get_explicit_type_size t);
     if length sourceA < count \<or> length sourceB < count then None
     else Some (map (\<lambda>i. upsample_element narrow wide (sourceA ! i) (sourceB ! i)) [0..<count]) }"

section \<open>One run\<close>

definition permute_2_param_kernel_pattern :: string where
  "permute_2_param_kernel_pattern = text_lines
    [''__kernel void test_upsample(__global %s *sourceA, __global %s *sourceB, __global %s *destValues)'',
     ''{'', ''    int  tid = get_global_id(0);'',
     ''    destValues[tid] = %s( sourceA[tid], sourceB[tid] );'', '''', ''}'']"

definition permute_2_param_kernel_pattern_v3srcdst :: string where
  "permute_2_param_kernel_pattern_v3srcdst = text_lines
    [''__kernel void test_upsample(__global %s *sourceA, __global %s *sourceB, __global %s *destValues)'',
     ''{'', ''    int  tid = get_global_id(0);'',
     ''    vstore3( %s( vload3(tid,sourceA), vload3(tid, sourceB) ), tid, destValues);'', '''', ''}'']"

definition upsample_source :: "string \<Rightarrow> ExplicitType \<Rightarrow> ExplicitType \<Rightarrow> ExplicitType \<Rightarrow> nat \<Rightarrow> nat \<Rightarrow> nat \<Rightarrow> string option" where
  "upsample_source fnName sourceAType sourceBType outType sourceAVecSize sourceBVecSize outVecSize =
     (let sized = (\<lambda>t v. get_explicit_type_name t @ (if v > 1 \<and> v \<noteq> 3 then decimal v else ''''));
          args = [sized sourceAType sourceAVecSize, sized sourceBType sourceBVecSize, sized outType outVecSize, fnName]
      in if sourceAVecSize = 3 \<and> sourceBVecSize = 3 \<and> outVecSize = 3
         then Some (sprintf_s permute_2_param_kernel_pattern_v3srcdst args)
         else if sourceAVecSize \<noteq> 3 \<and> sourceBVecSize \<noteq> 3 \<and> outVecSize \<noteq> 3
         then Some (sprintf_s permute_2_param_kernel_pattern args)
         else None)"

text \<open>
  The bytes of the results are compared, so the values are compared as unsigned. A read beyond the
  results is \<^verbatim>\<open>None\<close>.
\<close>

fun compare_bytes :: "ExplicitType \<Rightarrow> int list \<Rightarrow> int list \<Rightarrow> nat \<Rightarrow> int option" where
  "compare_bytes t out expected n =
     (if length out < n \<or> length expected < n then None
      else Some (if \<forall>i < n. cast (unsigned_version t) (out ! i) = cast (unsigned_version t) (expected ! i) then 0 else - 1))"

definition test_upsample_2_param_fn ::
    "opencl \<Rightarrow> string \<Rightarrow> ExplicitType \<Rightarrow> ExplicitType \<Rightarrow> ExplicitType \<Rightarrow> nat \<Rightarrow> nat \<Rightarrow> nat \<Rightarrow> nat \<Rightarrow> int list \<Rightarrow> int list \<Rightarrow> int list \<Rightarrow> int option" where
  "test_upsample_2_param_fn cl fnName sourceAType sourceBType outType sourceAVecSize sourceBVecSize outVecSize count
     sourceA sourceB expectedResults =
     (case upsample_source fnName sourceAType sourceBType outType sourceAVecSize sourceBVecSize outVecSize of
        None \<Rightarrow> Some (- 1)
      | Some source \<Rightarrow>
          if create_kernel cl source \<noteq> 0 then Some (- 1)
          else if \<not> (\<forall>i < 3. create_buffer cl source i) then Some (- 1)
          else case execute cl source [take (sourceAVecSize * count) sourceA, take (sourceBVecSize * count) sourceB] of
            Inl error \<Rightarrow> Some error
          | Inr out \<Rightarrow> compare_bytes outType out expectedResults (count * outVecSize))"

section \<open>The test\<close>

text \<open>The types of the first argument, of the second, and of the results.\<close>

definition upsample_table :: "(ExplicitType \<times> ExplicitType \<times> ExplicitType) list" where
  "upsample_table = [(kChar, kUChar, kShort), (kUChar, kUChar, kUShort), (kShort, kUShort, kInt),
     (kUShort, kUShort, kUInt), (kInt, kUInt, kLong), (kUInt, kUInt, kULong)]"

definition upsample_runs :: "bool \<Rightarrow> ((ExplicitType \<times> ExplicitType \<times> ExplicitType) \<times> nat) list" where
  "upsample_runs gHasLong = concat (map (\<lambda>ts. map (Pair ts) vecSizes)
     (filter (\<lambda>(ta, tb, t). gHasLong \<or> t \<notin> {kLong, kULong}) upsample_table))"

definition draw_upsample :: "('s \<Rightarrow> (u32 \<times> 's) option) \<Rightarrow> ((ExplicitType \<times> ExplicitType \<times> ExplicitType) \<times> nat) \<Rightarrow> 's \<Rightarrow> ((int list \<times> int list) \<times> 's) option" where
  "draw_upsample gen = (\<lambda>((ta, tb, t), v) d. do {
     (sourceA, d) \<leftarrow> generate_random_data gen ta 256 d;
     (sourceB, d) \<leftarrow> generate_random_data gen tb 256 d;
     Some ((sourceA, sourceB), d) })"

definition run_upsample :: "('s \<Rightarrow> (u32 \<times> 's) option) \<Rightarrow> opencl \<Rightarrow> ((ExplicitType \<times> ExplicitType \<times> ExplicitType) \<times> nat) \<Rightarrow> 's \<Rightarrow> (int \<times> 's) option" where
  "run_upsample gen cl = (\<lambda>((ta, tb, t), v) d. do {
     (sourceA, d) \<leftarrow> generate_random_data gen ta 256 d;
     (sourceB, d) \<leftarrow> generate_random_data gen tb 256 d;
     expected \<leftarrow> create_upsample_data ta sourceA sourceB 256;
     r \<leftarrow> test_upsample_2_param_fn cl ''upsample'' ta tb t v v v (256 div v) sourceA sourceB expected;
     Some (r, d) })"

definition test_integer_upsample :: "('s \<Rightarrow> (u32 \<times> 's) option) \<Rightarrow> opencl \<Rightarrow> bool \<Rightarrow> 's \<Rightarrow> int option" where
  "test_integer_upsample gen cl gHasLong d = do {
     (err, d) \<leftarrow> run_series (run_upsample gen cl) (upsample_runs gHasLong) d 0; Some err }"

section \<open>What the verdict says\<close>

text \<open>The results of one run are right: the first argument times a power of two, plus the second.\<close>

definition upsample_passed :: "opencl \<Rightarrow> ((ExplicitType \<times> ExplicitType \<times> ExplicitType) \<times> nat) \<Rightarrow> int list \<times> int list \<Rightarrow> bool" where
  "upsample_passed cl = (\<lambda>((ta, tb, t), v) (A, B).
     case upsample_source ''upsample'' ta tb t v v v of None \<Rightarrow> False
     | Some source \<Rightarrow>
         (let n = 256 div v * v; out = results cl source [take n A, take n B]
          in \<forall>i < n. out ! i = A ! i * 2 ^ width ta + B ! i))"

definition answers_upsample :: "opencl \<Rightarrow> ((ExplicitType \<times> ExplicitType \<times> ExplicitType) \<times> nat) \<Rightarrow> bool" where
  "answers_upsample cl = (\<lambda>((ta, tb, t), v).
     case upsample_source ''upsample'' ta tb t v v v of None \<Rightarrow> False
     | Some source \<Rightarrow> create_kernel cl source = 0 \<and> (\<forall>i < 3. create_buffer cl source i) \<and>
         (\<forall>ins. ins \<noteq> [] \<longrightarrow> (\<exists>out. execute cl source ins = Inr out \<and> length (hd ins) \<le> length out \<and> (\<forall>x \<in> set out. value_of_type t x))))"

text \<open>Side by side is a sum, in the range of the type of the results.\<close>

lemma upsample_table_cases:
  assumes "(ta, tb, t) \<in> set upsample_table"
  obtains "ta = kChar" "tb = kUChar" "t = kShort" | "ta = kUChar" "tb = kUChar" "t = kUShort"
  | "ta = kShort" "tb = kUShort" "t = kInt" | "ta = kUShort" "tb = kUShort" "t = kUInt"
  | "ta = kInt" "tb = kUInt" "t = kLong" | "ta = kUInt" "tb = kUInt" "t = kULong"
  using assms unfolding upsample_table_def by auto

lemma side_by_side:
  fixes a b :: int
  assumes "0 \<le> b" "b < 2 ^ w"
  shows "b OR push_bit w a = a * 2 ^ w + b"
proof -
  have "b AND push_bit w a = 0"
  proof (rule bit_eqI)
    fix n
    have "b = take_bit w b" using assms by (simp add: take_bit_eq_mod)
    then have "bit b n \<Longrightarrow> n < w" by (metis bit_take_bit_iff)
    then show "bit (b AND push_bit w a) n \<longleftrightarrow> bit 0 n" by (auto simp: bit_and_iff bit_push_bit_iff)
  qed
  then show ?thesis by (simp add: push_bit_eq_mult flip: disjunctive_add_eq_or)
qed

lemma upsample_element_value:
  assumes k: "(ta, tb, t) \<in> set upsample_table" and v: "value_of_type ta a" "value_of_type tb b"
  shows "upsample_element tb (unsigned_version t) a b = cast (unsigned_version t) (a * 2 ^ width ta + b)"
    "value_of_type t (a * 2 ^ width ta + b)"
proof -
  have b: "cast tb b = b" "0 \<le> b" "b < 2 ^ width ta"
    using k v(2) by (elim upsample_table_cases; simp add: value_of_type_def type_limits cast_unsigned signed_type_def)+
  have w: "width (unsigned_version t) = width ta + width ta" "\<not> signed_type (unsigned_version t)"
      "width tb = width ta" "\<not> signed_type tb"
    using k by (elim upsample_table_cases; simp add: unsigned_version_def signed_type_def)+
  have "(0 :: int) < 2 ^ width ta" by simp
  have "b * 1 < 2 ^ width ta * 2 ^ width ta" using b(2,3) by (intro mult_less_le_imp_less) auto
  then have cb: "cast (unsigned_version t) b = b" using b(2) w by (simp add: cast_unsigned power_add)
  have "a mod 2 ^ width ta * 1 < 2 ^ width ta * 2 ^ width ta" by (intro mult_less_le_imp_less) simp_all
  then have ca: "cast (unsigned_version t) (cast tb a) = a mod 2 ^ width ta"
    using w by (simp add: cast_unsigned power_add)
  have "upsample_element tb (unsigned_version t) a b = cast (unsigned_version t) ((a mod 2 ^ width ta) * 2 ^ width ta + b)"
    unfolding upsample_element_def Let_def b(1) cb ca w(3) side_by_side [OF b(2,3)] ..
  also have "\<dots> = cast (unsigned_version t) (a * 2 ^ width ta + b)"
    unfolding cast_unsigned [OF w(2)] w(1) power_add
    by (metis mod_add_left_eq mult_mod_left)
  finally show "upsample_element tb (unsigned_version t) a b = cast (unsigned_version t) (a * 2 ^ width ta + b)" .
  show "value_of_type t (a * 2 ^ width ta + b)"
    using k v by (elim upsample_table_cases; simp add: value_of_type_def type_limits CL_LONG_MIN_def CL_LONG_MAX_def CL_ULONG_MAX_def)
qed

lemma upsample_table_tested: "(ta, tb, t) \<in> set upsample_table \<Longrightarrow> ta \<in> set tested_types \<and> tb \<in> set tested_types \<and> t \<in> set tested_types"
  by (elim upsample_table_cases; simp)

lemma create_upsample_data_values:
  assumes k: "(ta, tb, t) \<in> set upsample_table" and A: "length A = n" "length B = n"
  shows "create_upsample_data ta A B n = Some (map (\<lambda>i. upsample_element tb (unsigned_version t) (A ! i) (B ! i)) [0..<n])"
proof -
  have "upsample_types (get_explicit_type_size ta) = Some (tb, unsigned_version t)"
    using k by (elim upsample_table_cases) (simp_all add: upsample_types_def get_explicit_type_size_def table_at_def ExplicitTypes_def unsigned_version_def)
  then show ?thesis using A by (simp add: create_upsample_data_def)
qed

text \<open>A value of the type has the bytes of the expected result only if it is the sum.\<close>

lemma same_bytes:
  assumes t: "t \<in> set tested_types" and v: "value_of_type t x" "value_of_type t y"
  shows "cast (unsigned_version t) x = cast (unsigned_version t) y \<longleftrightarrow> x = y"
  using cast_through_unsigned(1) [OF t] tested_cast_id [OF t v(1)] tested_cast_id [OF t v(2)] by metis

lemma upsample_run:
  assumes k: "(ta, tb, t) \<in> set upsample_table" and v: "v \<in> set vecSizes" and cl: "answers_upsample cl ((ta, tb, t), v)"
    and A: "length A = 256" "\<forall>x \<in> set A. value_of_type ta x" "length B = 256" "\<forall>x \<in> set B. value_of_type tb x"
  shows "\<exists>expected r. create_upsample_data ta A B 256 = Some expected \<and>
    test_upsample_2_param_fn cl ''upsample'' ta tb t v v v (256 div v) A B expected = Some r \<and>
    (r = 0 \<longleftrightarrow> upsample_passed cl ((ta, tb, t), v) (A, B))"
proof -
  let ?n = "256 div v * v" and ?e = "\<lambda>i. upsample_element tb (unsigned_version t) (A ! i) (B ! i)"
  have n: "?n \<le> 256" "0 < ?n" using v by (auto simp: vecSizes_def)
  obtain source where source: "upsample_source ''upsample'' ta tb t v v v = Some source"
    using v by (auto simp: upsample_source_def vecSizes_def Let_def)
  have cl': "create_kernel cl source = 0" "\<forall>i < 3. create_buffer cl source i"
      "ins \<noteq> [] \<Longrightarrow> \<exists>out. execute cl source ins = Inr out \<and> length (hd ins) \<le> length out \<and> (\<forall>x \<in> set out. value_of_type t x)" for ins
    using cl by (simp_all add: answers_upsample_def source)
  have len: "length (hd [take ?n A, take ?n B]) = ?n" using A(1) n(1) by simp
  obtain out where out: "execute cl source [take ?n A, take ?n B] = Inr out" "?n \<le> length out" "\<forall>x \<in> set out. value_of_type t x"
    using cl'(3) [of "[take ?n A, take ?n B]"] unfolding len by blast
  have t: "t \<in> set tested_types" using upsample_table_tested [OF k] by blast
  have same: "cast (unsigned_version t) (out ! i) = cast (unsigned_version t) (?e i) \<longleftrightarrow> out ! i = A ! i * 2 ^ width ta + B ! i"
    if i: "i < ?n" for i
  proof -
    have "value_of_type ta (A ! i)" "value_of_type tb (B ! i)" "value_of_type t (out ! i)"
      using i order_less_le_trans [OF i n(1)] A out(2,3) by simp_all
    note e = upsample_element_value [OF k this(1,2)] and o = this(3)
    have "cast (unsigned_version t) (?e i) = cast (unsigned_version t) (A ! i * 2 ^ width ta + B ! i)"
      unfolding e(1) using t by (simp add: cast_unsigned)
    then show ?thesis using same_bytes [OF t o e(2)] by simp
  qed
  define E where "E = map ?e [0..<256]"
  have E: "length E = 256" "i < 256 \<Longrightarrow> E ! i = ?e i" for i
    by (simp_all add: E_def del: upt_rec_numeral)
  have "(\<forall>i < ?n. cast (unsigned_version t) (out ! i) = cast (unsigned_version t) (E ! i)) \<longleftrightarrow>
      (\<forall>i < ?n. out ! i = A ! i * 2 ^ width ta + B ! i)"
    using same E(2) order_less_le_trans [OF _ n(1)] by metis
  then have "compare_bytes t out E ?n = Some (if \<forall>i < ?n. out ! i = A ! i * 2 ^ width ta + B ! i then 0 else - 1)"
    using out(2) leD [OF n(1)] E(1) by simp
  then have "test_upsample_2_param_fn cl ''upsample'' ta tb t v v v (256 div v) A B E =
      Some (if \<forall>i < ?n. out ! i = A ! i * 2 ^ width ta + B ! i then 0 else - 1)"
    using source cl'(1,2) out(1)
    by (simp add: test_upsample_2_param_fn_def mult.commute [of v] del: compare_bytes.simps)
  moreover have "create_upsample_data ta A B 256 = Some E"
    unfolding E_def by (rule create_upsample_data_values [OF k A(1,3)])
  moreover have "upsample_passed cl ((ta, tb, t), v) (A, B) \<longleftrightarrow> (\<forall>i < ?n. out ! i = A ! i * 2 ^ width ta + B ! i)"
    by (simp add: upsample_passed_def source results_def out(1) Let_def)
  ultimately show ?thesis by auto
qed

context random_source
begin

lemma run_upsample_verdict:
  assumes k: "k \<in> set (upsample_runs gHasLong)" and cl: "answers_upsample cl k" and d: "inv d"
  shows "\<exists>x r d'. draw_upsample gen k d = Some (x, d') \<and> run_upsample gen cl k d = Some (r, d') \<and> inv d' \<and>
    (r = 0 \<longleftrightarrow> upsample_passed cl k x)"
proof -
  obtain ta tb t v where k': "k = ((ta, tb, t), v)" "(ta, tb, t) \<in> set upsample_table" "v \<in> set vecSizes"
    using k by (auto simp: upsample_runs_def)
  note t = upsample_table_tested [OF k'(2)]
  obtain A d1 where A: "generate_random_data gen ta 256 d = Some (A, d1)" "length A = 256" "\<forall>x \<in> set A. value_of_type ta x" "inv d1"
    using generate_random_data_values [OF d tested_integer] t by blast
  obtain B d2 where B: "generate_random_data gen tb 256 d1 = Some (B, d2)" "length B = 256" "\<forall>x \<in> set B. value_of_type tb x" "inv d2"
    using generate_random_data_values [OF A(4) tested_integer] t by blast
  obtain expected r where "create_upsample_data ta A B 256 = Some expected"
      "test_upsample_2_param_fn cl ''upsample'' ta tb t v v v (256 div v) A B expected = Some r"
      "r = 0 \<longleftrightarrow> upsample_passed cl ((ta, tb, t), v) (A, B)"
    using upsample_run [OF k'(2,3) _ A(2,3) B(2,3), of cl] cl k'(1) by blast
  then show ?thesis using A(1) B(1,4) k'(1) by (simp add: draw_upsample_def run_upsample_def)
qed

lemma upsample_test_verdict:
  assumes d: "inv d" and cl: "\<forall>k \<in> set (upsample_runs gHasLong). answers_upsample cl k"
  shows "\<exists>xs d' r. draw_series (draw_upsample gen) (upsample_runs gHasLong) d = Some (xs, d') \<and>
    test_integer_upsample gen cl gHasLong d = Some r \<and> (r = 0 \<longleftrightarrow> (\<forall>(k, x) \<in> set xs. upsample_passed cl k x))"
proof -
  have "\<exists>xs r d'. draw_series (draw_upsample gen) (upsample_runs gHasLong) d = Some (xs, d') \<and>
      run_series (run_upsample gen cl) (upsample_runs gHasLong) d 0 = Some (r, d') \<and> inv d' \<and>
      map fst xs = upsample_runs gHasLong \<and> (r = 0 \<longleftrightarrow> 0 = (0 :: int) \<and> (\<forall>(k, x) \<in> set xs. upsample_passed cl k x))"
    by (rule run_series_verdict [OF run_upsample_verdict [where gHasLong = gHasLong] d]) (use cl in blast)+
  then show ?thesis by (auto simp: test_integer_upsample_def)
qed

end

end
