(* ===== verification/IntegerUnary.thy ===== *)
theory IntegerUnary
  imports IntegerUpsample
begin

text \<open>
  The tests of the increment and decrement operators, \<^verbatim>\<open>integer_ops/test_unary_ops.cpp\<close>: which
  operator is applied to a vector is decided by random control values. The OpenCL implementation is
  a parameter as in \<open>IntegerHarness\<close>, and \<open>buffer_err\<close> the code of a \<^verbatim>\<open>clCreateBuffer\<close> that failed.
\<close>

unbundle bit_operations_syntax

datatype OpKonstants = kIncrement | kDecrement | kBoth

section \<open>The kernel and its inputs\<close>

definition testKernel :: string where
  "testKernel = text_lines
    [''__kernel void test( __global %s *inOut, __global char * control )'',
     ''{'', ''    size_t tid = get_global_id(0);'', '''',
     ''   %s%s inOutVal = %s;'', '''',
     ''   if( control[tid] == 0 )'', ''        inOutVal++;'',
     ''   else if( control[tid] == 1 )'', ''        ++inOutVal;'',
     ''   else if( control[tid] == 2 )'', ''        inOutVal--;'',
     ''   else // if( control[tid] == 3 )'', ''        --inOutVal;'', '''',
     ''   %s;'', ''}'']"

definition unary_source :: "ExplicitType \<Rightarrow> nat \<Rightarrow> string" where
  "unary_source vecType vecSize =
     (let loadLine = (if vecSize = 1 then ''inOut[tid]'' else concat [''vload'', decimal vecSize, ''( tid, inOut )'']);
          storeLine = (if vecSize = 1 then ''inOut[tid] = inOutVal'' else concat [''vstore'', decimal vecSize, ''( inOutVal, tid, inOut )''])
      in sprintf_s testKernel [get_explicit_type_name vecType, get_explicit_type_name vecType, size_name vecSize, loadLine, storeLine])"

text \<open>Eight control values are taken from each random word, two bits for each.\<close>

definition control_value :: "OpKonstants \<Rightarrow> u32 \<Rightarrow> nat \<Rightarrow> int" where
  "control_value whichOp bits which =
     (let c = uint (drop_bit (2 * which) bits AND 0x03)
      in case whichOp of kDecrement \<Rightarrow> c OR 0x02 | kIncrement \<Rightarrow> c AND NOT 0x02 | kBoth \<Rightarrow> c)"

fun control_loop :: "('s \<Rightarrow> (u32 \<times> 's) option) \<Rightarrow> OpKonstants \<Rightarrow> nat \<Rightarrow> nat \<Rightarrow> u32 \<Rightarrow> 's \<Rightarrow> (int list \<times> 's) option" where
  "control_loop gen whichOp i 0 bits d = Some ([], d)"
| "control_loop gen whichOp i (Suc m) bits d = do {
     (bits, d) \<leftarrow> (if i mod 8 = 0 then gen d else Some (bits, d));
     (cs, d) \<leftarrow> control_loop gen whichOp (i + 1) m bits d;
     Some (control_value whichOp bits (i mod 8) # cs, d) }"

section \<open>The check\<close>

text \<open>
  \<^verbatim>\<open>VerifyFn\<close>: the loops over vectors and their elements walk the values in order, and
  the control value is that of the vector. \<^verbatim>\<open>None\<close> is a read beyond an array.
\<close>

function unary_verify :: "ExplicitType \<Rightarrow> int list \<Rightarrow> int list \<Rightarrow> nat \<Rightarrow> nat \<Rightarrow> int list \<Rightarrow> nat \<Rightarrow> int option" where
  "unary_verify t actualData inputData vecSize numVecs controls index =
     (if index < numVecs * vecSize then do {
        x \<leftarrow> rd inputData index;
        c \<leftarrow> rd controls (index div vecSize);
        a \<leftarrow> rd actualData index;
        let nextVal = cast t (if c AND 0x02 \<noteq> 0 then x - 1 else x + 1);
        if a \<noteq> nextVal then Some (- 1) else unary_verify t actualData inputData vecSize numVecs controls (index + 1)
      } else Some 0)"
  by pat_completeness auto
termination
  by (relation "measure (\<lambda>(_, _, _, vecSize, numVecs, _, index). numVecs * vecSize - index)") auto

declare unary_verify.simps [simp del]

section \<open>The tests\<close>

definition test_unary_op ::
    "('s \<Rightarrow> (u32 \<times> 's) option) \<Rightarrow> opencl \<Rightarrow> int \<Rightarrow> OpKonstants \<Rightarrow> ExplicitType \<times> nat \<Rightarrow> 's \<Rightarrow> (int \<times> 's) option" where
  "test_unary_op gen cl buffer_err whichOp = (\<lambda>(vecType, vecSize) d.
     let source = unary_source vecType vecSize
     in if create_kernel cl source \<noteq> 0 then Some (- 1, d)
        else do {
          (inData, d) \<leftarrow> generate_random_data gen vecType (vecSize * TEST_SIZE) d;
          if \<not> create_buffer cl source 0 then Some (buffer_err, d)
          else do {
            (controlData, d) \<leftarrow> control_loop gen whichOp 0 TEST_SIZE 0 d;
            if \<not> create_buffer cl source 1 then Some (buffer_err, d)
            else case execute cl source [inData, controlData] of
              Inl error \<Rightarrow> Some (error, d)
            | Inr outData \<Rightarrow> do {
                r \<leftarrow> unary_verify vecType outData inData vecSize TEST_SIZE controlData 0;
                Some (r, d) } } })"

definition unary_runs :: "bool \<Rightarrow> (ExplicitType \<times> nat) list" where
  "unary_runs gHasLong = concat (map (\<lambda>t. map (Pair t) vecSizes)
     (filter (\<lambda>t. gHasLong \<or> t \<notin> {kLong, kULong}) tested_types))"

definition test_unary_op_set :: "('s \<Rightarrow> (u32 \<times> 's) option) \<Rightarrow> opencl \<Rightarrow> int \<Rightarrow> bool \<Rightarrow> OpKonstants \<Rightarrow> 's \<Rightarrow> int option" where
  "test_unary_op_set gen cl buffer_err gHasLong whichOp d = do {
     (retVal, d) \<leftarrow> run_series (test_unary_op gen cl buffer_err whichOp) (unary_runs gHasLong) d 0;
     Some retVal }"

definition test_unary_ops_full :: "('s \<Rightarrow> (u32 \<times> 's) option) \<Rightarrow> opencl \<Rightarrow> int \<Rightarrow> bool \<Rightarrow> 's \<Rightarrow> int option" where
  "test_unary_ops_full gen cl buffer_err gHasLong d = test_unary_op_set gen cl buffer_err gHasLong kBoth d"

definition test_unary_ops_increment :: "('s \<Rightarrow> (u32 \<times> 's) option) \<Rightarrow> opencl \<Rightarrow> int \<Rightarrow> bool \<Rightarrow> 's \<Rightarrow> int option" where
  "test_unary_ops_increment gen cl buffer_err gHasLong d = test_unary_op_set gen cl buffer_err gHasLong kIncrement d"

definition test_unary_ops_decrement :: "('s \<Rightarrow> (u32 \<times> 's) option) \<Rightarrow> opencl \<Rightarrow> int \<Rightarrow> bool \<Rightarrow> 's \<Rightarrow> int option" where
  "test_unary_ops_decrement gen cl buffer_err gHasLong d = test_unary_op_set gen cl buffer_err gHasLong kDecrement d"

section \<open>What the verdict says\<close>

text \<open>Inputs of a run, and that its results are one more or one less, as the operators asked for and the controls say.\<close>

definition draw_unary :: "('s \<Rightarrow> (u32 \<times> 's) option) \<Rightarrow> OpKonstants \<Rightarrow> ExplicitType \<times> nat \<Rightarrow> 's \<Rightarrow> ((int list \<times> int list) \<times> 's) option" where
  "draw_unary gen whichOp = (\<lambda>(t, v) d. do {
     (inData, d) \<leftarrow> generate_random_data gen t (v * TEST_SIZE) d;
     (controlData, d) \<leftarrow> control_loop gen whichOp 0 TEST_SIZE 0 d;
     Some ((inData, controlData), d) })"

definition decrements :: "OpKonstants \<Rightarrow> int \<Rightarrow> bool" where
  "decrements whichOp c \<longleftrightarrow> (case whichOp of kIncrement \<Rightarrow> False | kDecrement \<Rightarrow> True | kBoth \<Rightarrow> 2 \<le> c)"

definition unary_passed :: "opencl \<Rightarrow> OpKonstants \<Rightarrow> ExplicitType \<times> nat \<Rightarrow> int list \<times> int list \<Rightarrow> bool" where
  "unary_passed cl whichOp = (\<lambda>(t, v) (A, controls).
     let out = results cl (unary_source t v) [A, controls]
     in \<forall>i < TEST_SIZE * v. out ! i = cast t (if decrements whichOp (controls ! (i div v)) then A ! i - 1 else A ! i + 1))"

definition answers_unary :: "opencl \<Rightarrow> ExplicitType \<times> nat \<Rightarrow> bool" where
  "answers_unary cl = (\<lambda>(t, v).
     create_kernel cl (unary_source t v) = 0 \<and> (\<forall>i < 2. create_buffer cl (unary_source t v) i) \<and>
     (\<forall>ins. ins \<noteq> [] \<longrightarrow> (\<exists>out. execute cl (unary_source t v) ins = Inr out \<and> length (hd ins) \<le> length out)))"

text \<open>A control value has four values, of which the operator that is tested allows two or all.\<close>

lemma control_value_range:
  "0 \<le> control_value whichOp bits k \<and> control_value whichOp bits k < 4 \<and>
   (control_value whichOp bits k AND 2 \<noteq> 0 \<longleftrightarrow> decrements whichOp (control_value whichOp bits k))"
proof -
  let ?c = "uint (drop_bit (2 * k) bits AND 3)"
  have "drop_bit (2 * k) bits AND 3 = take_bit 2 (drop_bit (2 * k) bits)"
    using take_bit_eq_mask [of 2 "drop_bit (2 * k) bits"] by (simp add: mask_eq_exp_minus_1)
  then have "?c = take_bit 2 (uint (drop_bit (2 * k) bits))" by (simp add: unsigned_take_bit_eq)
  then have "0 \<le> ?c" "?c < 4" by (simp_all add: take_bit_eq_mod)
  then consider "?c = 0" | "?c = 1" | "?c = 2" | "?c = 3" by linarith
  then show ?thesis
    by cases (cases whichOp; simp add: control_value_def decrements_def)+
qed

lemma unary_verify_verdict:
  assumes len: "numVecs * vecSize \<le> length A" "numVecs \<le> length controls" "numVecs * vecSize \<le> length out" and v: "0 < vecSize"
  shows "unary_verify t out A vecSize numVecs controls k =
    Some (if \<forall>j. k \<le> j \<and> j < numVecs * vecSize \<longrightarrow>
      out ! j = cast t (if controls ! (j div vecSize) AND 2 \<noteq> 0 then A ! j - 1 else A ! j + 1) then 0 else - 1)"
proof (induction "numVecs * vecSize - k" arbitrary: k)
  case 0
  then show ?case by (subst unary_verify.simps) simp
next
  case (Suc m)
  let ?P = "\<lambda>j. out ! j = cast t (if controls ! (j div vecSize) AND 2 \<noteq> 0 then A ! j - 1 else A ! j + 1)"
  from Suc.hyps(2) have k: "k < numVecs * vecSize" by simp
  then have "k div vecSize < numVecs" by (rule less_mult_imp_div_less)
  then have reads: "rd A k = Some (A ! k)" "rd controls (k div vecSize) = Some (controls ! (k div vecSize))" "rd out k = Some (out ! k)"
    using k len by simp_all
  have all: "(\<forall>j. k \<le> j \<and> j < numVecs * vecSize \<longrightarrow> ?P j) \<longleftrightarrow> ?P k \<and> (\<forall>j. k + 1 \<le> j \<and> j < numVecs * vecSize \<longrightarrow> ?P j)"
    using k by (auto simp: Suc_le_eq) (metis le_neq_implies_less)+
  have next_one: "unary_verify t out A vecSize numVecs controls (k + 1) =
      Some (if \<forall>j. k + 1 \<le> j \<and> j < numVecs * vecSize \<longrightarrow> ?P j then 0 else - 1)"
    using Suc.hyps(2) by (intro Suc.hyps(1)) simp
  show ?case
    unfolding all by (subst unary_verify.simps) (simp only: k reads next_one Let_def if_True bind.bind_lunit split: if_split, simp)
qed

lemma test_unary_op_run:
  assumes v: "0 < v" and cl: "answers_unary cl (t, v)" and A: "length A = v * TEST_SIZE" "length controls = TEST_SIZE"
    and c: "\<forall>c \<in> set controls. c AND 2 \<noteq> 0 \<longleftrightarrow> decrements whichOp c"
    and draw: "generate_random_data gen t (v * TEST_SIZE) d = Some (A, d1)" "control_loop gen whichOp 0 TEST_SIZE 0 d1 = Some (controls, d2)"
  shows "\<exists>r. test_unary_op gen cl buffer_err whichOp (t, v) d = Some (r, d2) \<and> (r = 0 \<longleftrightarrow> unary_passed cl whichOp (t, v) (A, controls))"
proof -
  let ?source = "unary_source t v"
  have cl': "create_kernel cl ?source = 0" "create_buffer cl ?source 0" "create_buffer cl ?source 1"
    using cl by (simp_all add: answers_unary_def)
  have "\<exists>out. execute cl ?source [A, controls] = Inr out \<and> length (hd [A, controls]) \<le> length out"
    using cl unfolding answers_unary_def prod.case by blast
  then obtain out where out: "execute cl ?source [A, controls] = Inr out" "TEST_SIZE * v \<le> length out"
    using A(1) by (auto simp: mult.commute)
  have "controls ! (j div v) AND 2 \<noteq> 0 \<longleftrightarrow> decrements whichOp (controls ! (j div v))" if "j < TEST_SIZE * v" for j
    using c less_mult_imp_div_less [OF that] A(2) by simp
  then have same: "(\<forall>j < TEST_SIZE * v. out ! j = cast t (if controls ! (j div v) AND 2 \<noteq> 0 then A ! j - 1 else A ! j + 1)) \<longleftrightarrow>
      unary_passed cl whichOp (t, v) (A, controls)"
    by (simp add: unary_passed_def results_def out(1) Let_def cong: if_cong)
  have "unary_verify t out A v TEST_SIZE controls 0 = Some (if unary_passed cl whichOp (t, v) (A, controls) then 0 else - 1)"
    using unary_verify_verdict [of TEST_SIZE v A controls out t 0] A out(2) v unfolding same [symmetric]
    by (simp add: mult.commute)
  then show ?thesis
    using cl' out(1) draw by (simp add: test_unary_op_def Let_def)
qed

context random_source
begin

lemma control_loop_total:
  "inv d \<Longrightarrow> \<exists>cs d'. control_loop gen whichOp i m bits d = Some (cs, d') \<and> length cs = m \<and>
    (\<forall>c \<in> set cs. c AND 2 \<noteq> 0 \<longleftrightarrow> decrements whichOp c) \<and> inv d'"
proof (induction m arbitrary: i bits d)
  case (Suc m)
  obtain w d1 where w: "(if i mod 8 = 0 then gen d else Some (bits, d)) = Some (w, d1)" "inv d1"
    using gen_total [OF Suc.prems] Suc.prems by (cases "i mod 8 = 0") auto
  obtain cs d2 where cs: "control_loop gen whichOp (i + 1) m w d1 = Some (cs, d2)" "length cs = m"
      "\<forall>c \<in> set cs. c AND 2 \<noteq> 0 \<longleftrightarrow> decrements whichOp c" "inv d2"
    using Suc.IH [OF w(2)] by blast
  have "control_loop gen whichOp i (Suc m) bits d = Some (control_value whichOp w (i mod 8) # cs, d2)"
    using w(1) cs(1) by simp
  then show ?case using cs(2-4) control_value_range by auto
qed simp

lemma run_unary_verdict:
  assumes k: "k \<in> set (unary_runs gHasLong)" and cl: "answers_unary cl k" and d: "inv d"
  shows "\<exists>x r d'. draw_unary gen whichOp k d = Some (x, d') \<and> test_unary_op gen cl buffer_err whichOp k d = Some (r, d') \<and> inv d' \<and>
    (r = 0 \<longleftrightarrow> unary_passed cl whichOp k x)"
proof -
  obtain t v where k': "k = (t, v)" "t \<in> set tested_types" "v \<in> set vecSizes"
    using k by (auto simp: unary_runs_def)
  obtain A d1 where A: "generate_random_data gen t (v * TEST_SIZE) d = Some (A, d1)" "length A = v * TEST_SIZE" "inv d1"
    using generate_random_data_values [OF d tested_integer [OF k'(2)]] by blast
  obtain cs d2 where cs: "control_loop gen whichOp 0 TEST_SIZE 0 d1 = Some (cs, d2)" "length cs = TEST_SIZE"
      "\<forall>c \<in> set cs. c AND 2 \<noteq> 0 \<longleftrightarrow> decrements whichOp c" "inv d2"
    using control_loop_total [OF A(3)] by blast
  have "0 < v" using k'(3) by (auto simp: vecSizes_def)
  then obtain r where "test_unary_op gen cl buffer_err whichOp (t, v) d = Some (r, d2)" "r = 0 \<longleftrightarrow> unary_passed cl whichOp (t, v) (A, cs)"
    using test_unary_op_run [OF _ _ A(2) cs(2,3) A(1) cs(1), of cl buffer_err] cl k'(1) by blast
  then show ?thesis using A(1) cs(1,4) k'(1) by (simp add: draw_unary_def)
qed

lemma unary_ops_verdict:
  assumes d: "inv d" and cl: "\<forall>k \<in> set (unary_runs gHasLong). answers_unary cl k"
  shows "\<exists>xs d' r. draw_series (draw_unary gen whichOp) (unary_runs gHasLong) d = Some (xs, d') \<and>
    test_unary_op_set gen cl buffer_err gHasLong whichOp d = Some r \<and> (r = 0 \<longleftrightarrow> (\<forall>(k, x) \<in> set xs. unary_passed cl whichOp k x))"
proof -
  have "\<exists>xs r d'. draw_series (draw_unary gen whichOp) (unary_runs gHasLong) d = Some (xs, d') \<and>
      run_series (test_unary_op gen cl buffer_err whichOp) (unary_runs gHasLong) d 0 = Some (r, d') \<and> inv d' \<and>
      map fst xs = unary_runs gHasLong \<and> (r = 0 \<longleftrightarrow> 0 = (0 :: int) \<and> (\<forall>(k, x) \<in> set xs. unary_passed cl whichOp k x))"
    by (rule run_series_verdict [OF run_unary_verdict [where gHasLong = gHasLong] d]) (use cl in blast)+
  then show ?thesis by (auto simp: test_unary_op_set_def)
qed

end

end
