(* ===== verification/RandomData.thy ===== *)
theory RandomData
  imports RandomValues MT19937 ImageFormats
begin

text \<open>
  Random test data: the draws from a range, and the type of the values of \<open>RandomValues\<close>
  (\<^verbatim>\<open>test_common/harness/conversions.cpp\<close>), and the integer pixels of
  \<open>create_random_image_data\<close> (\<^verbatim>\<open>imageHelpers.cpp\<close>), over any random source. What is
  proved uses the interface of \<open>RandomSource\<close>, and is stated for the Mersenne twister.
\<close>

unbundle bit_operations_syntax

section \<open>Values in a range\<close>

text \<open>
  \<open>maxV - minV + 1\<close> is computed in \<^verbatim>\<open>int\<close> and converted to \<^verbatim>\<open>cl_ulong\<close>; an overflow,
  undefined in C++, wraps.
\<close>

definition scale_draw :: "u32 \<Rightarrow> u32 \<Rightarrow> u32 \<Rightarrow> u32" where
  "scale_draw minV maxV x = ucast (drop_bit 32 ((ucast x :: u64) * scast (maxV - minV + 1))) + minV"

definition random_in_range ::
    "('s \<Rightarrow> (u32 \<times> 's) option) \<Rightarrow> u32 \<Rightarrow> u32 \<Rightarrow> 's \<Rightarrow> (u32 \<times> 's) option" where
  "random_in_range gen minV maxV d = do { (x, d) \<leftarrow> gen d; Some (scale_draw minV maxV x, d) }"

text \<open>Two words make a \<^verbatim>\<open>size_t\<close>, the first the low one. \<open>None\<close> also stands for the assertion.\<close>

definition get_random_size_t ::
    "('s \<Rightarrow> (u32 \<times> 's) option) \<Rightarrow> u64 \<Rightarrow> u64 \<Rightarrow> 's \<Rightarrow> (u64 \<times> 's) option" where
  "get_random_size_t gen low high d = do {
     (w0, d) \<leftarrow> gen d;
     (w1, d) \<leftarrow> gen d;
     let size = (ucast w0 :: u64) OR push_bit 32 (ucast w1);
     if \<not> low \<le> high then None
     else let range = high - low in
       Some (if range \<noteq> 0 then low + (size - low) mod range else low, d)
   }"

section \<open>Random integer pixels\<close>

definition int_pixel_range :: "image_format \<Rightarrow> u32 \<times> u32" where
  "int_pixel_range format =
     (let formatMin = get_format_min_int format;
          formatMax = get_format_max_int format;
          formatMax = (if formatMin = 0 \<and> formatMax > 2147483647 then 2147483647 else formatMax);
          formatMax = (if formatMax < 2147483647 then formatMax + 2 else formatMax);
          formatMin = (if sint formatMin > - 2147483648 then formatMin - 2 else formatMin)
      in (formatMin, ucast formatMax))"

definition uint_pixel_range :: "image_format \<Rightarrow> u32 \<times> u32" where
  "uint_pixel_range format =
     (let formatMin = get_format_min_int format;
          formatMax = get_format_max_int format;
          formatMin = (if sint formatMin < 0 then 0 else formatMin);
          formatMax = (if formatMax < 4294967295 then formatMax + 2 else formatMax)
      in (formatMin, ucast formatMax))"

fun range_loop :: "('s \<Rightarrow> (u32 \<times> 's) option) \<Rightarrow> u32 \<Rightarrow> u32 \<Rightarrow> nat \<Rightarrow> 's \<Rightarrow> (u32 list \<times> 's) option" where
  "range_loop gen minV maxV 0 d = Some ([], d)"
| "range_loop gen minV maxV (Suc n) d = do {
     (x, d) \<leftarrow> random_in_range gen minV maxV d;
     (xs, d) \<leftarrow> range_loop gen minV maxV n d;
     Some (x # xs, d) }"

definition random_int_pixels ::
    "('s \<Rightarrow> (u32 \<times> 's) option) \<Rightarrow> bool \<Rightarrow> image_format \<Rightarrow> nat \<Rightarrow> 's \<Rightarrow> (u32 list \<times> 's) option" where
  "random_int_pixels gen is_signed format numPixels d =
     (let (formatMin, formatMax) = (if is_signed then int_pixel_range format else uint_pixel_range format)
      in range_loop gen formatMin formatMax (numPixels * 4) d)"

section \<open>Draws from a range\<close>

lemma scale_draw_value:
  assumes "sint minV \<le> sint maxV" "sint maxV - sint minV + 1 < 2 ^ 31"
  shows "sint (scale_draw minV maxV x) = sint minV + int (unat x) * (sint maxV - sint minV + 1) div 2 ^ 32"
    "int (unat x) * (sint maxV - sint minV + 1) div 2 ^ 32 < sint maxV - sint minV + 1"
    "0 \<le> int (unat x) * (sint maxV - sint minV + 1) div 2 ^ 32"
proof -
  define n where "n = sint maxV - sint minV + 1"
  have n: "1 \<le> n" "n < 2 ^ 31" using assms by (simp_all add: n_def)
  have x: "int (unat x) < 2 ^ 32" using uint_bounded [of x] by simp
  define q where "q = int (unat x) * n div 2 ^ 32"
  have "int (unat x) * n < 2 ^ 32 * n" using x n by simp
  then show q: "int (unat x) * (sint maxV - sint minV + 1) div 2 ^ 32 < sint maxV - sint minV + 1"
    unfolding n_def [symmetric] by (simp add: mult.commute div_less_iff_less_mult)
  have "0 \<le> int (unat x) * n" using n by (intro mult_nonneg_nonneg) simp_all
  then have "0 \<le> q" unfolding q_def by (intro pos_imp_zdiv_nonneg_iff [THEN iffD2]) simp_all
  then have q0: "0 \<le> q" "q < 2 ^ 31" using q n by (simp_all add: q_def n_def)
  show "0 \<le> int (unat x) * (sint maxV - sint minV + 1) div 2 ^ 32" using \<open>0 \<le> q\<close> by (simp only: q_def n_def)
  have "maxV - minV + 1 = (word_of_int n :: u32)" by (simp add: n_def)
  then have "sint (maxV - minV + 1) = n"
    using n by (simp add: signed_of_int signed_take_bit_int_eq_self del: of_int_add of_int_diff)
  then have "(scast (maxV - minV + 1) :: u64) = word_of_int n" by (simp only: scast_eq)
  then have "(ucast x :: u64) * scast (maxV - minV + 1) = word_of_int (int (unat x) * n)"
    by (simp only: ucast_eq uint_nat wi_hom_mult)
  moreover have "uint (word_of_int N :: u64) = N" if "0 \<le> N" "N < 2 ^ 63" for N
    using that by (simp add: uint_word_of_int_eq take_bit_int_eq_self)
  moreover have "int (unat x) * n < 2 ^ 63"
  proof -
    have "int (unat x) * n < 2 ^ 32 * 2 ^ 31" using x n by (intro mult_strict_mono) simp_all
    then show ?thesis by simp
  qed
  ultimately have "uint ((ucast x :: u64) * scast (maxV - minV + 1)) = int (unat x) * n"
    using \<open>0 \<le> int (unat x) * n\<close> by metis
  then have "uint (drop_bit 32 ((ucast x :: u64) * scast (maxV - minV + 1))) = q"
    by (simp only: uint_nat unat_drop zdiv_int q_def of_nat_power of_nat_numeral)
  then have "(ucast (drop_bit 32 ((ucast x :: u64) * scast (maxV - minV + 1))) :: u32) = word_of_int q"
    by (simp only: ucast_eq)
  then have "scale_draw minV maxV x = word_of_int (q + sint minV)"
    by (simp add: scale_draw_def)
  moreover have "- (2 ^ 31) \<le> q + sint minV" "q + sint minV < 2 ^ 31"
    using q0 q sint_ge [of minV] sint_less [of maxV] by (simp_all add: q_def n_def)
  ultimately show "sint (scale_draw minV maxV x) =
      sint minV + int (unat x) * (sint maxV - sint minV + 1) div 2 ^ 32"
    by (simp add: signed_of_int signed_take_bit_int_eq_self q_def n_def del: of_int_add of_int_mult)
qed


text \<open>
  As long as the range has fewer than \<open>2 ^ 31\<close> values, \<open>random_in_range\<close> returns
  a value in it, and returns every value of it for some word drawn.
\<close>

theorem random_in_range_covers:
  assumes "sint minV \<le> sint maxV" "sint maxV - sint minV + 1 < 2 ^ 31"
  shows "(\<forall>x. sint minV \<le> sint (scale_draw minV maxV x) \<and> sint (scale_draw minV maxV x) \<le> sint maxV) \<and>
    (\<forall>v. sint minV \<le> v \<and> v \<le> sint maxV \<longrightarrow> (\<exists>x. sint (scale_draw minV maxV x) = v)) \<and>
    random_in_range gen minV maxV d = map_option (map_prod (scale_draw minV maxV) id) (gen d)"
proof -
  define n where "n = sint maxV - sint minV + 1"
  have n: "1 \<le> n" "n < 2 ^ 31" using assms by (simp_all add: n_def)
  have "\<exists>x. sint (scale_draw minV maxV x) = v" if v: "sint minV \<le> v" "v \<le> sint maxV" for v
  proof -
    define k where "k = v - sint minV"
    have k: "0 \<le> k" "k < n" using v by (simp_all add: k_def n_def)
    define m where "m = (k * 2 ^ 32 + n - 1) div n"
    have lower: "k * 2 ^ 32 \<le> m * n" and upper: "m * n < k * 2 ^ 32 + n"
    proof -
      have "k * 2 ^ 32 + n - 1 = m * n + (k * 2 ^ 32 + n - 1) mod n" by (simp only: m_def div_mult_mod_eq)
      moreover have "0 \<le> (k * 2 ^ 32 + n - 1) mod n" "(k * 2 ^ 32 + n - 1) mod n < n" using n by simp_all
      ultimately show "k * 2 ^ 32 \<le> m * n" "m * n < k * 2 ^ 32 + n" by linarith+
    qed
    have "k * 2 ^ 32 + n \<le> n * 2 ^ 32"
    proof -
      have "(k + 1) * 2 ^ 32 \<le> n * 2 ^ 32" using k by simp
      then show ?thesis using n by (simp add: algebra_simps)
    qed
    then have "m * n < n * 2 ^ 32" using upper by linarith
    moreover have "0 < n" using n by simp
    ultimately have "m < 2 ^ 32" by (metis mult.commute mult_less_cancel_right_pos)
    moreover have "0 \<le> m" using n k by (simp add: m_def pos_imp_zdiv_nonneg_iff)
    ultimately have m: "0 \<le> m" "m < 2 ^ 32" by simp_all
    have "m * n div 2 ^ 32 = k"
    proof (rule int_div_pos_eq)
      show "m * n = 2 ^ 32 * k + (m * n - k * 2 ^ 32)" by simp
      have "n < 2 ^ 32" using n by simp
      then show "0 \<le> m * n - k * 2 ^ 32" "m * n - k * 2 ^ 32 < 2 ^ 32" using lower upper by linarith+
    qed
    moreover have "int (unat (word_of_int m :: u32)) = m" using m by (simp add: uint_word_of_int_eq take_bit_int_eq_self)
    ultimately have "sint (scale_draw minV maxV (word_of_int m)) = sint minV + k"
      using scale_draw_value(1) [OF assms, of "word_of_int m"] by (simp add: n_def)
    then show ?thesis by (auto simp: k_def)
  qed
  moreover have "sint minV \<le> sint (scale_draw minV maxV x) \<and> sint (scale_draw minV maxV x) \<le> sint maxV" for x
    using scale_draw_value [OF assms, of x] by linarith
  moreover have "random_in_range gen minV maxV d = map_option (map_prod (scale_draw minV maxV) id) (gen d)"
    by (cases "gen d") (auto simp: random_in_range_def)
  ultimately show ?thesis by blast
qed

definition sample_source :: mtdata where "sample_source = \<lparr>mt = replicate MT_N 7, cache = [], mti = MT_N\<rparr>"

theorem random_in_range_covers_witness:
  "sint (scale_draw 2 6 0x80000000) \<in> {2..6} \<and> (\<exists>x. sint (scale_draw 2 6 x) = 5)"
  using random_in_range_covers [of 2 6 genrand_int32 sample_source] by simp

text \<open>With the whole range of \<^verbatim>\<open>int\<close> the number of values wraps to 0, and every draw gives the minimum.\<close>

lemma scale_draw_full_range: "maxV - minV + 1 = 0 \<Longrightarrow> scale_draw minV maxV x = minV"
  by (simp add: scale_draw_def)

context random_source
begin

lemma constant_range:
  assumes "maxV - minV + 1 = 0"
  shows "inv d \<Longrightarrow> \<exists>d'. range_loop gen minV maxV n d = Some (replicate n minV, d') \<and> inv d'"
proof (induction n arbitrary: d)
  case (Suc n)
  then obtain x d1 where "gen d = Some (x, d1)" "inv d1" using gen_total by blast
  with Suc.IH [of d1] show ?case
    by (auto simp: random_in_range_def scale_draw_full_range [OF assms])
qed simp

lemma range_in_limits:
  assumes "sint minV \<le> sint maxV" "sint maxV - sint minV + 1 < 2 ^ 31"
  shows "inv d \<Longrightarrow> \<exists>xs d'. range_loop gen minV maxV n d = Some (xs, d') \<and> length xs = n \<and> inv d' \<and>
    (\<forall>x\<in>set xs. sint minV \<le> sint x \<and> sint x \<le> sint maxV)"
proof (induction n arbitrary: d)
  case (Suc n)
  then obtain x d1 where g: "gen d = Some (x, d1)" "inv d1" using gen_total by blast
  obtain xs d' where "range_loop gen minV maxV n d1 = Some (xs, d')" "length xs = n" "inv d'"
    "\<forall>x\<in>set xs. sint minV \<le> sint x \<and> sint x \<le> sint maxV" using Suc.IH [OF g(2)] by blast
  moreover have "sint minV \<le> sint (scale_draw minV maxV x)" "sint (scale_draw minV maxV x) \<le> sint maxV"
    using scale_draw_value [OF assms, of x] by linarith+
  ultimately show ?case using g by (simp add: random_in_range_def)
qed simp

end

definition thirty_two_bits :: "bool \<Rightarrow> image_format \<Rightarrow> bool" where
  "thirty_two_bits is_signed format \<longleftrightarrow>
     image_channel_data_type format = (if is_signed then CL_SIGNED_INT32 else CL_UNSIGNED_INT32)"

text \<open>
  C29. The random pixels for images of 32-bit integers are constant: every channel of every pixel
  is the least \<^verbatim>\<open>int\<close> for signed and 0 for unsigned images, whatever the seed.
\<close>

theorem random_32_bit_pixels_constant:
  assumes "mt_inv d" "thirty_two_bits is_signed format"
  shows "\<exists>d'. random_int_pixels genrand_int32 is_signed format numPixels d =
    Some (replicate (numPixels * 4) (if is_signed then 0x80000000 else 0), d')"
proof -
  have limits: "(if is_signed then int_pixel_range format else uint_pixel_range format) =
      (if is_signed then (0x80000000, 0x7fffffff) else (0, 0xffffffff))"
    using assms(2) by (simp add: thirty_two_bits_def int_pixel_range_def uint_pixel_range_def
      get_format_min_int_def get_format_max_int_def Let_def)
  show ?thesis
    using scalar.constant_range [where maxV = "0x7fffffff" and minV = "0x80000000", OF _ assms(1)]
      scalar.constant_range [where maxV = "0xffffffff" and minV = 0, OF _ assms(1)]
    unfolding random_int_pixels_def limits by (auto simp: Let_def)
qed


theorem random_32_bit_pixels_constant_witness:
  "\<exists>d'. random_int_pixels genrand_int32 True
      \<lparr>image_channel_order = CL_RGBA, image_channel_data_type = CL_SIGNED_INT32\<rparr> 2 sample_source =
    Some (replicate 8 0x80000000, d')"
  using random_32_bit_pixels_constant [of sample_source True
      "\<lparr>image_channel_order = CL_RGBA, image_channel_data_type = CL_SIGNED_INT32\<rparr>" 2]
  by (simp add: sample_source_def mt_inv_def thirty_two_bits_def)

text \<open>For images of narrower integers the pixels lie at most 2 outside the range of the format.\<close>

lemma narrow_pixels_in_range:
  assumes "mt_inv d" "image_channel_data_type format \<in> {CL_SIGNED_INT8, CL_SIGNED_INT16}"
  shows "\<exists>xs d'. random_int_pixels genrand_int32 True format numPixels d = Some (xs, d') \<and>
    length xs = numPixels * 4 \<and>
    (\<forall>x\<in>set xs. sint (get_format_min_int format) - 2 \<le> sint x \<and>
      sint x \<le> int (unat (get_format_max_int format)) + 2)"
proof -
  have "sint (fst (int_pixel_range format)) = sint (get_format_min_int format) - 2"
    "sint (snd (int_pixel_range format)) = int (unat (get_format_max_int format)) + 2"
    "sint (snd (int_pixel_range format)) - sint (fst (int_pixel_range format)) + 1 < 2 ^ 31"
    "sint (fst (int_pixel_range format)) \<le> sint (snd (int_pixel_range format))"
    using assms(2) by (auto simp: int_pixel_range_def get_format_min_int_def get_format_max_int_def Let_def)
  then show ?thesis
    using scalar.range_in_limits [where minV = "fst (int_pixel_range format)" and maxV = "snd (int_pixel_range format)",
        OF _ _ assms(1), of "numPixels * 4"]
    by (auto simp: random_int_pixels_def split_beta)
qed

lemma get_random_size_t_range:
  assumes "get_random_size_t gen low high d = Some (v, d')"
  shows "low = high \<and> v = low \<or> low \<le> v \<and> v < high"
proof -
  obtain size where v: "low \<le> high" "v = (if high - low \<noteq> 0 then low + (size - low) mod (high - low) else low)"
    using assms by (auto simp: get_random_size_t_def Let_def split: bind_splits if_splits prod.splits)
  show ?thesis
  proof (cases "low = high")
    case False
    then have "0 < high - low" using v(1) by (simp add: word_gt_0)
    then have "(size - low) mod (high - low) < high - low" by (rule word_mod_less_divisor)
    then have "unat ((size - low) mod (high - low)) < unat high - unat low"
      using v(1) by (simp add: word_less_nat_alt unat_sub)
    moreover have "unat low \<le> unat high" "unat high < 2 ^ 64"
      using v(1) unat_bound [of high] by (simp_all add: word_le_nat_alt)
    ultimately have "unat (low + (size - low) mod (high - low)) = unat low + unat ((size - low) mod (high - low))"
      "unat low + unat ((size - low) mod (high - low)) < unat high"
      by (simp_all add: unat_word_ariths(1) del: unat_mod_distrib)
    then show ?thesis using v False by (auto simp: word_less_nat_alt word_le_nat_alt simp del: unat_mod_distrib)
  qed (use v in simp)
qed

section \<open>Values of the type\<close>



end
