(* ===== verification/IntegerVerdicts.thy ===== *)
theory IntegerVerdicts
  imports Integer24 IntegerDot IntegerUnary RandomData
begin

text \<open>
  The verdicts of the tests of \<^verbatim>\<open>integer_ops/test_integers.cpp\<close> and of the tests of
  \<open>IntegerElementwise\<close>, \<open>Integer24\<close>, \<open>IntegerBitOps\<close>, \<open>IntegerDot\<close>, \<open>IntegerUpsample\<close>
  and \<open>IntegerUnary\<close> with the Mersenne twister as the source of random values, as the code has it.
\<close>

text \<open>
  C32. With an implementation that answers, a test of \<^verbatim>\<open>clz\<close>, \<^verbatim>\<open>ctz\<close> or an assignment operator
  never reads out of range, and returns 0 exactly when, for every type and vector size and for every
  value that was drawn, the result is right: the number of zero bits, the operation modulo the
  width, or, where it is defined, the truncated quotient or the remainder.
\<close>

theorem single_param_verdict:
  assumes "mt_inv d" "\<forall>k \<in> set (types_and_sizes gHasLong).
      answers cl (single_kernel_source (fst (single_test fn)) (fst k) (snd k) (snd (single_test fn))) k"
  shows "\<exists>runs r d'. draw_inputs genrand_int32 (if snd (single_test fn) then 2 else 1) (types_and_sizes gHasLong) d = Some (runs, d') \<and>
    test_single_param_integer_fn genrand_int32 cl gHasLong e (fst (single_test fn)) fn (snd (single_test fn)) d = Some (r, d') \<and>
    map fst runs = types_and_sizes gHasLong \<and> (r = 0 \<longleftrightarrow> (\<forall>(k, As) \<in> set runs. single_passed cl fn k As))"
  by (rule random_source.single_fn_verdict [OF scalar.random_source_axioms assms])

text \<open>
  C33. The same for the functions of two arguments: \<^verbatim>\<open>hadd\<close>, \<^verbatim>\<open>rhadd\<close>, \<^verbatim>\<open>min\<close>, \<^verbatim>\<open>max\<close>,
  \<^verbatim>\<open>mul_hi\<close> and \<^verbatim>\<open>rotate\<close>.
\<close>

theorem two_param_verdict:
  assumes "mt_inv d" "\<forall>k \<in> set (types_and_sizes gHasLong). answers cl (two_kernel_source (two_test fn) (fst k) (fst k) (snd k)) k"
  shows "\<exists>runs r d'. draw_inputs genrand_int32 2 (types_and_sizes gHasLong) d = Some (runs, d') \<and>
    test_two_param_integer_fn genrand_int32 cl gHasLong (two_test fn) fn d = Some (r, d') \<and>
    map fst runs = types_and_sizes gHasLong \<and> (r = 0 \<longleftrightarrow> (\<forall>(k, As) \<in> set runs. two_passed cl fn k As))"
  by (rule random_source.two_fn_verdict [OF scalar.random_source_axioms assms])

text \<open>
  C34. The same for \<^verbatim>\<open>clamp\<close>, where any result is accepted if the bounds are not in order,
  \<^verbatim>\<open>mad_hi\<close> and \<^verbatim>\<open>mad_sat\<close>, with the exception that the test demands a wrapped result of
  \<^verbatim>\<open>mad_sat\<close> on \<^verbatim>\<open>long\<close> where its reference wraps.
\<close>

theorem three_param_verdict:
  assumes "mt_inv d" "\<forall>k \<in> set (types_and_sizes gHasLong).
      answers cl (three_kernel_source (three_test fn) (fst k) (fst k) (fst k) (fst k) (snd k)) k"
  shows "\<exists>runs r d'. draw_inputs genrand_int32 3 (types_and_sizes gHasLong) d = Some (runs, d') \<and>
    test_three_param_integer_fn genrand_int32 cl gHasLong (three_test fn) fn d = Some (r, d') \<and>
    map fst runs = types_and_sizes gHasLong \<and> (r = 0 \<longleftrightarrow> (\<forall>(k, As) \<in> set runs. three_passed cl fn k As))"
  by (rule random_source.three_fn_verdict [OF scalar.random_source_axioms assms])

text \<open>
  C35. With an implementation that answers, the tests of \<^verbatim>\<open>add_sat\<close>, \<^verbatim>\<open>sub_sat\<close>, \<^verbatim>\<open>abs\<close>,
  \<^verbatim>\<open>abs_diff\<close> and \<^verbatim>\<open>popcount\<close> never read out of range, and return 0 exactly when, for every
  type that is not skipped and every vector size, every result in a whole vector is right: the sum
  or difference brought into the range of the type, the magnitude of the value or of the difference,
  or the number of one bits.
\<close>

theorem elementwise_verdict:
  assumes "mt_inv d" "elementwise_answers cl gHasLong fn n_elems"
  shows "\<exists>ins d' r. draw_words genrand_int32 (arity (elementwise_tests fn)) (words (elementwise_tests fn) * n_elems) d = Some (ins, d') \<and>
    elementwise_driver genrand_int32 cl gHasLong fn n_elems d = Some r \<and>
    (r = 0 \<longleftrightarrow> elementwise_passed cl gHasLong fn n_elems ins)"
  by (rule random_source.elementwise_fn_verdict [OF scalar.random_source_axioms assms])

text \<open>
  C36. With an implementation that answers, the tests of \<^verbatim>\<open>mul24\<close> and \<^verbatim>\<open>mad24\<close> never read
  out of range, and return 0 exactly when every result of the unsigned kernels is right: the product of the
  low 24 bits of the factors, with the third argument added for \<^verbatim>\<open>mad24\<close>, modulo 2^32. The
  results of the signed kernels have no part in the value: their failures are lost.
\<close>

theorem mul24_mad24_verdict:
  assumes "mt_inv d" "0 < n_elems" "answers_24 cl fn n_elems"
  shows "\<exists>ins d' r. draw_24 genrand_int32 fn (16 * n_elems) d = Some (ins, d') \<and>
    test_24 genrand_int32 cl buffer_err fn n_elems d = Some r \<and> (r = 0 \<longleftrightarrow> unsigned_passed cl fn n_elems ins)"
  by (rule random_source.test_24_verdict [OF scalar.random_source_axioms assms])

text \<open>
  C37. With an implementation on which all calls succeed, and if a shift of zero by too many places
  gives zero, the tests of \<^verbatim>\<open>cl_khr_extended_bit_ops\<close> never fail an assertion, and
  return 0 exactly when every result of every type and vector size is right, bit by bit: the field
  extracted with its sign extended and without, the value with the field replaced, or the value
  with its bits in the opposite order.
\<close>

theorem extended_bit_ops_verdict:
  assumes "mt_inv d" "oversized 0 = 0"
    "\<forall>t \<in> set (bit_types gHasLong). \<forall>N \<in> set vecSizes. answers2 cl (bit_op_source op t N)"
  shows "\<exists>r. test_extended_bit_ops (bit_op_vectype genrand_int32 d cl buffer_err oversized op) True gHasLong = Some r \<and>
    (r = 0 \<longleftrightarrow> (\<forall>t \<in> set (bit_types gHasLong). \<forall>N \<in> set vecSizes. bit_op_run_passed genrand_int32 d cl op t N))"
  by (rule random_source.bit_ops_verdict [where oversized = oversized, OF scalar.random_source_axioms assms])

text \<open>
  C38. On a device with the capabilities of \<^verbatim>\<open>cl_khr_integer_dot_product\<close> and with enough
  elements for the special values, the test returns 0 exactly when, in all sixteen cases, every
  result is the one demanded: the exact dot product with the accumulator, brought into the range of
  the type from above, where a value below the range is wrapped.
\<close>

theorem dot_product_verdict:
  assumes "mt_inv d" "13 \<le> n" "\<forall>p. \<forall>k \<in> set (dot_cases p). answers_dot cl (dot_source 4 k)"
    "available dev" "capabilities dev = Inr caps" "Input4x8BitPacked \<in> set caps" "Input4x8Bit \<in> set caps"
    "\<forall>e \<in> set (property_queries dev). e = 0"
  shows "\<exists>r. test_integer_dot_product genrand_int32 d cl buffer_err n dev = Some r \<and>
    (r = 0 \<longleftrightarrow> (\<forall>p. \<forall>k \<in> set (dot_cases p). dot_run_passed genrand_int32 d cl n k))"
  by (rule random_source.dot_product_test_verdict [OF scalar.random_source_axioms assms])

text \<open>
  C39. With an implementation that answers, the test of \<^verbatim>\<open>upsample\<close> never reads out of range, and
  returns 0 exactly when in every run the results in the whole vectors are the first argument times
  two to the power of its width, plus the second, over the integers.
\<close>

theorem upsample_verdict:
  assumes "mt_inv d" "\<forall>k \<in> set (upsample_runs gHasLong). answers_upsample cl k"
  shows "\<exists>xs d' r. draw_series (draw_upsample genrand_int32) (upsample_runs gHasLong) d = Some (xs, d') \<and>
    test_integer_upsample genrand_int32 cl gHasLong d = Some r \<and> (r = 0 \<longleftrightarrow> (\<forall>(k, x) \<in> set xs. upsample_passed cl k x))"
  by (rule random_source.upsample_test_verdict [OF scalar.random_source_axioms assms])

text \<open>
  C40. With an implementation that answers, the tests of the increment and decrement operators never
  read out of range, and return 0 exactly when every result of every run is the input plus or minus
  one, wrapped to the type: minus one where only decrements are tested, plus one where only
  increments are, and as the control value of the vector says where both are.
\<close>

theorem unary_verdict:
  assumes "mt_inv d" "\<forall>k \<in> set (unary_runs gHasLong). answers_unary cl k"
  shows "\<exists>xs d' r. draw_series (draw_unary genrand_int32 whichOp) (unary_runs gHasLong) d = Some (xs, d') \<and>
    test_unary_op_set genrand_int32 cl buffer_err gHasLong whichOp d = Some r \<and>
    (r = 0 \<longleftrightarrow> (\<forall>(k, x) \<in> set xs. unary_passed cl whichOp k x))"
  by (rule random_source.unary_ops_verdict [OF scalar.random_source_axioms assms])

text \<open>An implementation that answers: it returns zeros.\<close>

definition zeros :: opencl where
  "zeros = \<lparr>create_kernel = (\<lambda>source. 0), create_buffer = (\<lambda>source i. True),
     execute = (\<lambda>source ins. Inr (map (\<lambda>_. 0) (hd ins)))\<rparr>"

lemma zeros_answers: "k \<in> set (types_and_sizes gHasLong) \<Longrightarrow> answers zeros source k"
  using types_and_sizes_cases [of k gHasLong] zero_in_type [of "fst k"]
  by (auto simp: answers_def zeros_def typed_array_def)

lemma sample_source_inv: "mt_inv sample_source" by (simp add: sample_source_def mt_inv_def)

theorem single_param_verdict_witness:
  "\<exists>runs r d'. draw_inputs genrand_int32 2 (types_and_sizes False) sample_source = Some (runs, d') \<and>
    test_single_param_integer_fn genrand_int32 zeros False 0 ''+'' AddAssign True sample_source = Some (r, d') \<and>
    map fst runs = types_and_sizes False \<and> (r = 0 \<longleftrightarrow> (\<forall>(k, As) \<in> set runs. single_passed zeros AddAssign k As))"
  using single_param_verdict [of sample_source False zeros AddAssign 0] sample_source_inv zeros_answers [of _ False] by simp

theorem two_param_verdict_witness:
  "\<exists>runs r d'. draw_inputs genrand_int32 2 (types_and_sizes True) sample_source = Some (runs, d') \<and>
    test_two_param_integer_fn genrand_int32 zeros True ''mul_hi'' MulHi sample_source = Some (r, d') \<and>
    map fst runs = types_and_sizes True \<and> (r = 0 \<longleftrightarrow> (\<forall>(k, As) \<in> set runs. two_passed zeros MulHi k As))"
  using two_param_verdict [of sample_source True zeros MulHi] sample_source_inv zeros_answers [of _ True] by simp

theorem three_param_verdict_witness:
  "\<exists>runs r d'. draw_inputs genrand_int32 3 (types_and_sizes True) sample_source = Some (runs, d') \<and>
    test_three_param_integer_fn genrand_int32 zeros True ''mad_sat'' MadSat sample_source = Some (r, d') \<and>
    map fst runs = types_and_sizes True \<and> (r = 0 \<longleftrightarrow> (\<forall>(k, As) \<in> set runs. three_passed zeros MadSat k As))"
  using three_param_verdict [of sample_source True zeros MadSat] sample_source_inv zeros_answers [of _ True] by simp

lemma zeros_answer_elementwise: "elementwise_answers zeros gHasLong fn n_elems"
proof -
  have "\<exists>out. execute zeros source ins = Inr out \<and> n \<le> length out"
    if "length ins = arity (elementwise_tests fn)" "\<forall>A \<in> set ins. values_of t n A" for source ins t n
    using that by (cases ins; cases fn) (auto simp: zeros_def values_of_def elementwise_tests_def test_records)
  moreover have "create_kernel zeros source = 0" "create_buffer zeros source i" for source i by (simp_all add: zeros_def)
  ultimately show ?thesis unfolding elementwise_answers_def answers_type_def by blast
qed

theorem elementwise_verdict_witness:
  "\<exists>ins d' r. draw_words genrand_int32 1 800 sample_source = Some (ins, d') \<and>
    elementwise_driver genrand_int32 zeros False Popcount 100 sample_source = Some r \<and>
    (r = 0 \<longleftrightarrow> elementwise_passed zeros False Popcount 100 ins)"
  using elementwise_verdict [OF sample_source_inv zeros_answer_elementwise, of Popcount 100 False]
  by (simp add: elementwise_tests_def popcount_test_def)

lemma zeros_answer_24: "answers_24 zeros fn n_elems"
proof -
  have "\<exists>out. execute zeros source ins = Inr out \<and> 16 * n_elems \<le> length out"
    if "ins \<noteq> []" "\<forall>A \<in> set ins. length A = 16 * n_elems" for source ins
    using that by (cases ins) (auto simp: zeros_def)
  then show ?thesis by (auto simp: answers_24_def zeros_def)
qed

theorem mul24_mad24_verdict_witness:
  "\<exists>ins d' r. draw_24 genrand_int32 Mad24 1600 sample_source = Some (ins, d') \<and>
    test_24 genrand_int32 zeros (- 1) Mad24 100 sample_source = Some r \<and> (r = 0 \<longleftrightarrow> unsigned_passed zeros Mad24 100 ins)"
  using mul24_mad24_verdict [OF sample_source_inv _ zeros_answer_24, of 100 Mad24 "- 1"] by simp

definition zeros2 :: opencl2 where
  "zeros2 = \<lparr>create_kernel = (\<lambda>source. 0), create_buffer = (\<lambda>source i. True),
     execute = (\<lambda>source ins. Inr (map (\<lambda>_. 0) (hd ins))), execute2 = (\<lambda>source ins. Inr (map (\<lambda>_. 0) (hd ins)))\<rparr>"

theorem extended_bit_ops_verdict_witness:
  "\<exists>r. test_extended_bit_ops (bit_op_vectype genrand_int32 sample_source zeros2 (- 1) (\<lambda>v. v) BitInsert) True True = Some r \<and>
    (r = 0 \<longleftrightarrow> (\<forall>t \<in> set (bit_types True). \<forall>N \<in> set vecSizes. bit_op_run_passed genrand_int32 sample_source zeros2 BitInsert t N))"
  by (rule extended_bit_ops_verdict [where oversized = "\<lambda>v. v", OF sample_source_inv]) (simp_all add: answers2_def zeros2_def)

definition dot_sample_device :: dot_device where
  "dot_sample_device = \<lparr>available = True, version_queried = True, extension_version = CL_MAKE_VERSION 2 0 0,
     capabilities = Inr [Input4x8BitPacked, Input4x8Bit], property_queries = [0, 0, 0, 0]\<rparr>"

theorem dot_product_verdict_witness:
  "\<exists>r. test_integer_dot_product genrand_int32 sample_source zeros2 (- 1) 1024 dot_sample_device = Some r \<and>
    (r = 0 \<longleftrightarrow> (\<forall>p. \<forall>k \<in> set (dot_cases p). dot_run_passed genrand_int32 sample_source zeros2 1024 k))"
  by (rule dot_product_verdict [OF sample_source_inv, where caps = "[Input4x8BitPacked, Input4x8Bit]"])
    (simp_all add: answers_dot_def zeros2_def dot_sample_device_def)

lemma zeros_answer_upsample: "k \<in> set (upsample_runs gHasLong) \<Longrightarrow> answers_upsample zeros k"
proof -
  assume "k \<in> set (upsample_runs gHasLong)"
  then obtain ta tb t v where k: "k = ((ta, tb, t), v)" "(ta, tb, t) \<in> set upsample_table" "v \<in> set vecSizes"
    by (auto simp: upsample_runs_def)
  have zero: "value_of_type t 0" using zero_in_type upsample_table_tested [OF k(2)] by blast
  obtain source where "upsample_source ''upsample'' ta tb t v v v = Some source"
    using k(3) by (auto simp: upsample_source_def vecSizes_def Let_def)
  then show ?thesis using zero k(1) by (auto simp: answers_upsample_def zeros_def)
qed

theorem upsample_verdict_witness:
  "\<exists>xs d' r. draw_series (draw_upsample genrand_int32) (upsample_runs True) sample_source = Some (xs, d') \<and>
    test_integer_upsample genrand_int32 zeros True sample_source = Some r \<and> (r = 0 \<longleftrightarrow> (\<forall>(k, x) \<in> set xs. upsample_passed zeros k x))"
  by (rule upsample_verdict [OF sample_source_inv]) (use zeros_answer_upsample in blast)

theorem unary_verdict_witness:
  "\<exists>xs d' r. draw_series (draw_unary genrand_int32 kBoth) (unary_runs False) sample_source = Some (xs, d') \<and>
    test_unary_op_set genrand_int32 zeros (- 1) False kBoth sample_source = Some r \<and>
    (r = 0 \<longleftrightarrow> (\<forall>(k, x) \<in> set xs. unary_passed zeros kBoth k x))"
  by (rule unary_verdict [OF sample_source_inv]) (auto simp: answers_unary_def zeros_def)

end
