(* ===== verification/Spec2Isabelle.thy ===== *)
theory Spec2Isabelle
  imports CRC32 MT19937 FpLib IntegerVerify IntegerData Select ThreadPoolLive ParseParameters TestHarness ImageCopy PrimeNumbers NonUniformPass IntegerVerdicts
begin

text \<open>
  A verification library for the host side of the OpenCL conformance tests.

  \<^bold>\<open>The program.\<close> A conformance test is a C++ program on the host. The harness
  (\<^verbatim>\<open>src/test_common/harness\<close>) reads the options, selects and runs the tests, in one
  thread or several, and counts what passed. A test makes input data from a random source, has
  the device run a kernel on it, and compares the device's results with a reference computed on the
  host. What the library is about is the part that decides whether a device passes: the harness,
  the reference computations, the comparisons and the data they run on. OpenCL itself, the device,
  the compiler, the file system and the threads' scheduler are parameters: error codes and answers
  are arguments of the definitions, and a schedule is a sequence of events.

  \<^bold>\<open>Theories and sources.\<close>

  \<^item> \<open>Prelude\<close>: words of the OpenCL scalar types, C's signed division, arrays with
  checked accesses, counting loops with their invariant rule, decimal numbers.

  \<^item> \<open>CRC32\<close>: \<^verbatim>\<open>harness/crc32.cpp\<close>. The table-driven loop equals a bit-serial
  CRC; bursts of up to four bytes are detected.

  \<^item> \<open>RandomSource\<close>, \<open>MT19937\<close>: \<^verbatim>\<open>harness/mt19937.cpp\<close>. The interface of a random
  source is a locale, interpreted on both builds of the Mersenne twister. Calls of
  \<open>genrand_int32\<close> deliver the recurrence of the algorithm, the SSE2 build the same words as
  the scalar one, the real-valued draws stay in their intervals.

  \<^item> \<open>FpLib\<close>: \<^verbatim>\<open>conversions/fplib.cpp\<close>. The two integer to float conversions round
  correctly in every directed mode, for all \<open>2 ^ 64\<close> inputs.

  \<^item> \<open>IntegerVerify\<close>, \<open>IntegerData\<close>: \<^verbatim>\<open>integer_ops/\<close>. The eight checkers
  \<open>verify_long\<close> to \<open>verify_uchar\<close> accept exactly the results of OpenCL C's operators; the
  data generators cover all pairs of special values, given room for them.

  \<^item> \<open>IntegerBuiltins\<close>, \<open>IntegerMul\<close>: the references of \<^verbatim>\<open>integer_ops/test_integers.cpp\<close>,
  against the operations over the integers. \<open>IntegerHarness\<close> has the kernels and drivers of the file,
  with the implementation under test as the record \<open>opencl\<close>, and \<open>IntegerTests\<close> what a verdict says
  about the results. \<open>IntegerElementwise\<close> (\<^verbatim>\<open>test_add_sat.cpp\<close>, \<^verbatim>\<open>test_sub_sat.cpp\<close>,
  \<^verbatim>\<open>test_abs.cpp\<close>, \<^verbatim>\<open>test_absdiff.cpp\<close>, \<^verbatim>\<open>test_popcount.cpp\<close>: one driver, a
  locale for what it relies on), \<open>Integer24\<close> (\<^verbatim>\<open>test_intmul24.cpp\<close>, \<^verbatim>\<open>test_intmad24.cpp\<close>),
  \<open>IntegerBitOps\<close> (the three \<^verbatim>\<open>test_extended_bit_ops\<close> files), \<open>IntegerDot\<close>
  (\<^verbatim>\<open>test_integer_dot_product.cpp\<close>), \<open>IntegerUpsample\<close> and \<open>IntegerUnary\<close>
  (\<^verbatim>\<open>test_upsample.cpp\<close>, \<^verbatim>\<open>test_unary_ops.cpp\<close>) do the same for the other files.
  \<open>IntegerVerdicts\<close> states all the verdicts for the Mersenne twister: a test returns 0 exactly when
  every result it looks at is right, and the exceptions are the bugs of the tests.

  \<^item> \<open>Conversions\<close>: \<^verbatim>\<open>harness/conversions.cpp\<close>, the explicit conversions to integers.
  \<open>RandomValues\<close> and \<open>RandomData\<close>: its random data, and the random integer pixels of
  \<^verbatim>\<open>imageHelpers.cpp\<close>; that they are values of their type, and which values are reached.

  \<^item> \<open>Select\<close>: \<^verbatim>\<open>select/util_select.cpp\<close>. Reference functions and checkers for all
  types, masks and vector forms.

  \<^item> \<open>ThreadPool\<close> (the transition system), \<open>ThreadPoolInv\<close>, \<open>ThreadPoolJobs\<close>,
  \<open>ThreadPoolLive\<close>: \<^verbatim>\<open>harness/ThreadPool.cpp\<close>. Worker loop, start and
  \<open>ThreadPool_Do\<close>, one step per atomic operation or pthread call. A reachability
  invariant, what a return value says about the jobs, and a bound on the steps of a call.

  \<^item> \<open>ParseParameters\<close>: \<^verbatim>\<open>harness/parseParameters.cpp\<close>. The in-place parser
  refines a recursive specification of the options.

  \<^item> \<open>TestHarness\<close>: \<^verbatim>\<open>harness/testHarness.cpp\<close>. Selection of tests by the
  arguments, the serial loop and the worker threads, results, exit code, version strings.

  \<^item> \<open>ImageFormats\<close>, \<open>ImageMemory\<close>, \<open>ImageLevels\<close>, \<open>ImagePixels\<close>,
  \<open>ImageCopy\<close>: \<^verbatim>\<open>harness/imageHelpers.cpp\<close> and \<^verbatim>\<open>.h\<close>, and the names of
  \<^verbatim>\<open>errorHelpers.cpp\<close>. Formats and their sizes; the bytes of an image seen through a
  locale of channel accesses, interpreted at 8, 16 and 32 bits; mipmap layout; reading and packing
  integer pixels; copying a region; comparing rows.

  \<^item> \<open>PrimeNumbers\<close>: \<^verbatim>\<open>non_uniform_work_group/tools.cpp\<close>. The sieve equals the
  list of primes; the fitting loops end within their limit.

  \<^item> \<open>ErrorClass\<close>: the error statistics of the same file. \<open>NonUniform\<close> and
  \<open>NonUniformPass\<close>: \<^verbatim>\<open>non_uniform_work_group/TestNonUniformWorkGroup.cpp\<close>, a subtest
  from its constructor to the verdict and the kernel it runs; a device that conforms passes.

  \<^bold>\<open>How the code is translated.\<close> Machine integers are words where the code depends on their
  width, natural numbers with \<open>mod 2 ^ 64\<close> written out where only sums and products of sizes
  wrap. Arrays are lists, accessed through \<open>rd\<close> and \<open>wr\<close>, whose \<open>None\<close>
  is an access out of bounds; \<open>None\<close> is also a division by zero or a loop that never ends.
  Enumerations are datatypes, classes and globals are records, errors are the code's own values.
  Signed overflow, undefined in C++, wraps.

  \<^bold>\<open>Bounds.\<close> No definition uses fuel. Loops that may not end (the fitting loops of
  \<open>PrimeNumbers\<close>, the bit counting loops of \<open>IntegerBuiltins\<close>) are
  \<open>partial_function\<close>s, and that they return is proved.
  The thread pool and the harness's workers are step functions on a schedule; the number of steps of
  any schedule is bounded by explicit measures. Bounds in the theorems are those the code needs: sizes
  below 24 bits where it computes in \<^verbatim>\<open>float\<close>, totals below \<open>2 ^ 31\<close> where it
  counts in \<^verbatim>\<open>int\<close>, rows and slices that fit the 32-bit coordinates of images.

  \<^bold>\<open>Not modelled.\<close> Vendored code (miniz, GLEW); the Windows branches of the thread pool
  and \<open>ThreadPool_Exit\<close>; interoperability with OpenGL, Direct3D, DX9 and Vulkan; the SPIR and
  SPIR-V drivers, which only list their tests; \<^verbatim>\<open>math_brute_force\<close>, whose
  references are long double series and polynomials; floating-point packing, filtering and sampling
  of images; the meaning of the kernel sources, which are built as the code builds them but run by a
  parameter; the barrier and atomic parts of the non-uniform kernel, which run concurrently on the
  device; the subgroup, workgroup and atomics tests, whose kernels communicate between work-items;
  and the many tests that are one sequence of OpenCL calls with a check of each return code.
\<close>

end
